(* ===== verification/Prelude.thy ===== *)
theory Prelude
  imports Complex_Main "HOL-Library.AList" "HOL-Library.Multiset" "HOL-Library.List_Lexorder" "HOL-Library.Char_ord"
begin

text \<open>
  The Go runtime the components share: 64-bit integers with wrap-around, instants and durations
  of package \<^verbatim>\<open>time\<close>, byte strings with the functions of package \<^verbatim>\<open>strings\<close> the program calls,
  decimal printing, Go maps as association lists, and the generic lemmas about them.

  Conventions.
  \<^item> A Go string is a \<open>string\<close>: a list of bytes. A rune is the list of the bytes that encode it.
  \<^item> A Go \<open>int\<close> or \<open>int64\<close> is an \<open>int\<close> in \<open>[-2^63, 2^63)\<close>; every addition that can leave the range is
    written with \<open>wrap64\<close>.
  \<^item> An instant is the number of nanoseconds since the zero time of Go (January 1 of year 1), so the
    zero \<^verbatim>\<open>time.Time\<close> is \<open>0\<close>; a duration is a number of nanoseconds.
  \<^item> A Go map is an association list with distinct keys. Its list order stands for the order in
    which one \<open>range\<close> loop happens to visit it, which Go leaves open: what does not depend on the order
    is stated for every permutation.
  \<^item> A pair \<^verbatim>\<open>(value, error)\<close> is a sum, \<open>Inl\<close> the error.
\<close>

section \<open>Rewrite collections\<close>

named_theorems go_defs \<open>definitions of the Go runtime model\<close>
named_theorems in_range \<open>identities of wrapped arithmetic inside the 64-bit range\<close>

section \<open>64-bit integers\<close>

definition int64_ok :: "int \<Rightarrow> bool" where
  "int64_ok n \<longleftrightarrow> - (2 ^ 63) \<le> n \<and> n < 2 ^ 63"

definition wrap64 :: "int \<Rightarrow> int" where
  "wrap64 n = (n + 2 ^ 63) mod 2 ^ 64 - 2 ^ 63"

lemma wrap64_id [in_range]: "int64_ok n \<Longrightarrow> wrap64 n = n"
  by (simp add: wrap64_def int64_ok_def)

lemma wrap64_ok [simp]: "int64_ok (wrap64 n)"
  using pos_mod_bound [of "2 ^ 64 :: int" "n + 2 ^ 63"] pos_mod_sign [of "2 ^ 64 :: int" "n + 2 ^ 63"]
  by (simp add: wrap64_def int64_ok_def)

lemma wrap64_add_left: "wrap64 (wrap64 a + b) = wrap64 (a + b)"
proof -
  have "((a + 2 ^ 63) mod 2 ^ 64 + b) mod 2 ^ 64 = (a + 2 ^ 63 + b) mod (2 ^ 64 :: int)"
    by (rule mod_add_left_eq)
  then show ?thesis by (simp add: wrap64_def algebra_simps)
qed

lemma int64_okI [in_range]: "0 \<le> n \<Longrightarrow> n < 2 ^ 63 \<Longrightarrow> int64_ok n"
  by (simp add: int64_ok_def)

section \<open>Instants and durations\<close>

type_synonym time = int
type_synonym duration = int

definition Second :: duration where "Second = 10 ^ 9"
definition Hour :: duration where "Hour = 3600 * 10 ^ 9"
definition Day :: duration where "Day = 24 * (3600 * 10 ^ 9)"

lemmas duration_defs [go_defs] = Second_def Hour_def Day_def

text \<open>Seconds between the zero time and the Unix epoch (\<^verbatim>\<open>unixToInternal\<close>).\<close>

definition unixToInternal :: int where "unixToInternal = 62135596800"

text \<open>\<^verbatim>\<open>time.Unix(sec, 0)\<close> adds the epoch offset in 64 bits; \<^verbatim>\<open>Time.Unix()\<close> takes it off again.\<close>

definition time_Unix :: "int \<Rightarrow> time" where
  "time_Unix sec = wrap64 (sec + unixToInternal) * 10 ^ 9"

definition Unix :: "time \<Rightarrow> int" where
  "Unix t = wrap64 (t div 10 ^ 9 - unixToInternal)"

definition time_ok :: "time \<Rightarrow> bool" where
  "time_ok t \<longleftrightarrow> int64_ok (t div 10 ^ 9)"

definition time_Add :: "time \<Rightarrow> duration \<Rightarrow> time" where
  "time_Add t d = wrap64 ((t + d) div 10 ^ 9) * 10 ^ 9 + (t + d) mod 10 ^ 9"

text \<open>\<^verbatim>\<open>Time.Sub\<close> saturates at the least and the greatest \<^verbatim>\<open>Duration\<close>.\<close>

definition time_Sub :: "time \<Rightarrow> time \<Rightarrow> duration" where
  "time_Sub t u = max (- (2 ^ 63)) (min (2 ^ 63 - 1) (t - u))"

definition IsZero :: "time \<Rightarrow> bool" where "IsZero t \<longleftrightarrow> t = 0"

lemma time_Add_id [in_range]: "time_ok (t + d) \<Longrightarrow> time_Add t d = t + d"
proof -
  assume "time_ok (t + d)"
  then have "time_Add t d = (t + d) div 10 ^ 9 * 10 ^ 9 + (t + d) mod 10 ^ 9"
    by (simp only: time_Add_def time_ok_def wrap64_id)
  then show ?thesis by (simp only: div_mult_mod_eq)
qed

lemma Unix_time_Unix [simp]: "int64_ok s \<Longrightarrow> Unix (time_Unix s) = s"
  by (simp add: Unix_def time_Unix_def wrap64_add_left [of _ "- unixToInternal", simplified] wrap64_id)

lemma time_Sub_ge_iff: "0 < d \<Longrightarrow> d < 2 ^ 63 \<Longrightarrow> d \<le> time_Sub t u \<longleftrightarrow> d \<le> t - u"
  by (auto simp: time_Sub_def)


section \<open>Strings\<close>

definition ascii :: "char \<Rightarrow> bool" where "ascii c \<longleftrightarrow> of_char c < (128 :: nat)"

lemma of_char_less: "of_char c < (256 :: nat)"
  by (metis mod_less_divisor of_char_mod_256 zero_less_numeral)

definition lower_byte :: "char \<Rightarrow> char" where
  "lower_byte c = (if 65 \<le> (of_char c :: nat) \<and> of_char c \<le> (90 :: nat)
     then char_of (of_char c + 32 :: nat) else c)"

definition byte_in :: "nat \<Rightarrow> nat \<Rightarrow> char \<Rightarrow> bool" where
  "byte_in lo hi c \<longleftrightarrow> lo \<le> of_char c \<and> of_char c \<le> hi"

text \<open>
  The number of bytes of the UTF-8 rune at the head of a string, \<open>0\<close> where the bytes there are not
  valid UTF-8: the lead-byte and accept-range tables of package \<^verbatim>\<open>unicode/utf8\<close>.
\<close>

definition rune_size :: "string \<Rightarrow> nat" where
  "rune_size s = (case s of [] \<Rightarrow> 0 | a # t \<Rightarrow>
     if ascii a then 1
     else (case t of [] \<Rightarrow> 0 | b # u \<Rightarrow>
       if byte_in 0xC2 0xDF a \<and> byte_in 0x80 0xBF b then 2
       else (case u of [] \<Rightarrow> 0 | c # v \<Rightarrow>
         if byte_in 0x80 0xBF c \<and>
            (byte_in 0xE0 0xE0 a \<and> byte_in 0xA0 0xBF b \<or>
             (byte_in 0xE1 0xEC a \<or> byte_in 0xEE 0xEF a) \<and> byte_in 0x80 0xBF b \<or>
             byte_in 0xED 0xED a \<and> byte_in 0x80 0x9F b) then 3
         else (case v of [] \<Rightarrow> 0 | d # _ \<Rightarrow>
           if byte_in 0x80 0xBF c \<and> byte_in 0x80 0xBF d \<and>
              (byte_in 0xF0 0xF0 a \<and> byte_in 0x90 0xBF b \<or>
               byte_in 0xF1 0xF3 a \<and> byte_in 0x80 0xBF b \<or>
               byte_in 0xF4 0xF4 a \<and> byte_in 0x80 0x8F b) then 4
           else 0))))"

text \<open>The encoding of U+FFFD, which stands for a byte that is not part of a valid rune.\<close>

definition RuneError :: string where "RuneError = [CHR 0xEF, CHR 0xBF, CHR 0xBD]"

text \<open>The em dash of the messages, in UTF-8.\<close>

definition emdash :: string where "emdash = [CHR 0xE2, CHR 0x80, CHR 0x94]"

text \<open>The runes a \<open>range\<close> loop over a string or a conversion to \<^verbatim>\<open>[]rune\<close> yields, each as its encoding.\<close>

function runes :: "string \<Rightarrow> string list" where
  "runes [] = []"
| "runes (c # s) =
     (let n = rune_size (c # s) in
      if n = 0 then RuneError # runes s else take n (c # s) # runes (drop n (c # s)))"
  by pat_completeness auto
termination
  by (relation "measure length") auto

text \<open>\<^verbatim>\<open>strings.Map\<close> for a mapping that drops no rune.\<close>

definition strings_Map :: "(string \<Rightarrow> string) \<Rightarrow> string \<Rightarrow> string" where
  "strings_Map f s = concat (map f (runes s))"

text \<open>
  \<^verbatim>\<open>strings.ToLower\<close>: bytewise on ASCII strings, rune by rune with \<^verbatim>\<open>unicode.ToLower\<close> otherwise. The
  argument \<open>uni\<close> is the case table of package \<^verbatim>\<open>unicode\<close> on the encodings of non-ASCII runes.
\<close>

definition lower_rune :: "(string \<Rightarrow> string) \<Rightarrow> string \<Rightarrow> string" where
  "lower_rune uni r = (if list_all ascii r then map lower_byte r else uni r)"

definition ToLower :: "(string \<Rightarrow> string) \<Rightarrow> string \<Rightarrow> string" where
  "ToLower uni s = (if list_all ascii s then map lower_byte s else strings_Map (lower_rune uni) s)"

text \<open>
  \<^verbatim>\<open>strings.TrimSpace\<close> cuts the runes of \<^verbatim>\<open>unicode.IsSpace\<close> off both ends. No encoding of a space is a
  proper suffix of another rune's encoding, so the last rune can be read off the last bytes.
\<close>

definition space_runes :: "string list" where
  "space_runes =
     map (\<lambda>n. [char_of n]) [9, 10, 11, 12, 13, 32 :: nat] @
     [[CHR 0xC2, CHR 0x85], [CHR 0xC2, CHR 0xA0], [CHR 0xE1, CHR 0x9A, CHR 0x80]] @
     map (\<lambda>n. [CHR 0xE2, CHR 0x80, char_of n])
       [0x80, 0x81, 0x82, 0x83, 0x84, 0x85, 0x86, 0x87, 0x88, 0x89, 0x8A, 0xA8, 0xA9, 0xAF :: nat] @
     [[CHR 0xE2, CHR 0x81, CHR 0x9F], [CHR 0xE3, CHR 0x80, CHR 0x80]]"

definition HasPrefix :: "string \<Rightarrow> string \<Rightarrow> bool" where
  "HasPrefix s p \<longleftrightarrow> take (length p) s = p"

definition HasSuffix :: "string \<Rightarrow> string \<Rightarrow> bool" where
  "HasSuffix s p \<longleftrightarrow> length p \<le> length s \<and> drop (length s - length p) s = p"

definition TrimPrefix :: "string \<Rightarrow> string \<Rightarrow> string" where
  "TrimPrefix s p = (if HasPrefix s p then drop (length p) s else s)"

definition TrimSuffix :: "string \<Rightarrow> string \<Rightarrow> string" where
  "TrimSuffix s p = (if HasSuffix s p then take (length s - length p) s else s)"

function strip :: "string list \<Rightarrow> string \<Rightarrow> string" where
  "strip ws s = (case find (\<lambda>r. r \<noteq> [] \<and> HasPrefix s r) ws of
       None \<Rightarrow> s | Some r \<Rightarrow> strip ws (drop (length r) s))"
  by pat_completeness auto
termination
proof (relation "measure (\<lambda>(ws, s). length s)")
  show "((ws, drop (length r) s), ws, s) \<in> measure (\<lambda>(ws, s). length s)"
    if "find (\<lambda>r. r \<noteq> [] \<and> HasPrefix s r) ws = Some r" for ws s r
  proof -
    from that have "r \<noteq> []" and "take (length r) s = r"
      by (auto simp: find_Some_iff HasPrefix_def)
    then have "0 < length r" and "s \<noteq> []" by auto
    then show ?thesis by simp
  qed
qed simp

declare strip.simps [simp del]

definition TrimSpace :: "string \<Rightarrow> string" where
  "TrimSpace s = rev (strip (map rev space_runes) (rev (strip space_runes s)))"

lemma strip_id:
  assumes "s \<noteq> []" "\<forall>r \<in> set ws. r \<noteq> [] \<longrightarrow> hd r \<noteq> hd s"
  shows "strip ws s = s"
proof -
  have "find (\<lambda>r. r \<noteq> [] \<and> HasPrefix s r) ws = None"
    using assms by (auto simp: find_None_iff HasPrefix_def) (metis hd_take length_greater_0_conv)
  then show ?thesis by (subst strip.simps) simp
qed

text \<open>A string that begins and ends with an ASCII character other than a space is not trimmed.\<close>

definition solid :: "char \<Rightarrow> bool" where
  "solid c \<longleftrightarrow> ascii c \<and> 32 < (of_char c :: nat)"

lemma space_runes_ends:
  "list_all (\<lambda>r. r \<noteq> [] \<and> \<not> solid (hd r) \<and> \<not> solid (last r)) space_runes"
  by (simp add: space_runes_def solid_def ascii_def)

lemma TrimSpace_solid:
  assumes "s \<noteq> []" "solid (hd s)" "solid (last s)"
  shows "TrimSpace s = s"
proof -
  have ends: "r \<noteq> [] \<and> \<not> solid (hd r) \<and> \<not> solid (last r)" if "r \<in> set space_runes" for r
    using space_runes_ends that by (simp add: list_all_iff)
  have 1: "strip space_runes s = s"
  proof (rule strip_id)
    show "\<forall>r \<in> set space_runes. r \<noteq> [] \<longrightarrow> hd r \<noteq> hd s" using assms(2) ends by metis
  qed (rule assms(1))
  have 2: "strip (map rev space_runes) (rev s) = rev s"
  proof (rule strip_id)
    show "rev s \<noteq> []" using assms(1) by simp
    show "\<forall>r \<in> set (map rev space_runes). r \<noteq> [] \<longrightarrow> hd r \<noteq> hd (rev s)"
      using assms(1,3) ends unfolding set_map ball_simps by (metis hd_rev)
  qed
  show ?thesis by (simp add: TrimSpace_def 1 2)
qed

lemma TrimSpace_Nil [simp]: "TrimSpace [] = []"
  by (simp add: TrimSpace_def strip.simps [of _ "[]"] find_None_iff HasPrefix_def space_runes_def)

lemma ToLower_ascii [simp]: "list_all ascii s \<Longrightarrow> ToLower uni s = map lower_byte s"
  by (simp add: ToLower_def)

text \<open>Evaluation of the text functions on ASCII literals.\<close>

lemmas ascii_eval = TrimSpace_solid solid_def ascii_def lower_byte_def char_of_def bit_0

text \<open>
  \<^verbatim>\<open>strings.EqualFold\<close> against an ASCII string \<open>t\<close>: case folding identifies the ASCII letters of both
  cases, U+017F with \<open>s\<close> and U+212A with \<open>k\<close>.
\<close>

fun EqualFold :: "string \<Rightarrow> string \<Rightarrow> bool" where
  "EqualFold [] t = (t = [])"
| "EqualFold (a # s) [] = False"
| "EqualFold (a # s) (c # t) =
     (if ascii a then lower_byte a = lower_byte c \<and> EqualFold s t
      else if lower_byte c = CHR ''s'' \<and> a = CHR 0xC5 \<and> take 1 s = [CHR 0xBF]
        then EqualFold (drop 1 s) t
      else if lower_byte c = CHR ''k'' \<and> a = CHR 0xE2 \<and> take 2 s = [CHR 0x84, CHR 0xAA]
        then EqualFold (drop 2 s) t
      else False)"

text \<open>\<^verbatim>\<open>strings.IndexByte\<close> and \<^verbatim>\<open>strings.Index\<close>, \<open>None\<close> for \<open>-1\<close>; \<^verbatim>\<open>ContainsAny\<close> for ASCII sets.\<close>

fun Index :: "string \<Rightarrow> string \<Rightarrow> nat option" where
  "Index [] p = (if p = [] then Some 0 else None)"
| "Index (c # s) p = (if HasPrefix (c # s) p then Some 0 else map_option Suc (Index s p))"

definition Contains :: "string \<Rightarrow> string \<Rightarrow> bool" where
  "Contains s p \<longleftrightarrow> Index s p \<noteq> None"

definition ContainsAny :: "string \<Rightarrow> string \<Rightarrow> bool" where
  "ContainsAny s cs \<longleftrightarrow> list_ex (\<lambda>c. c \<in> set cs) s"

subsection \<open>Decimal numbers\<close>

fun nat_digits :: "nat \<Rightarrow> string" where
  "nat_digits n = (if n < 10 then [char_of (48 + n)]
     else nat_digits (n div 10) @ [char_of (48 + n mod 10)])"

declare nat_digits.simps [simp del]

definition itoa :: "int \<Rightarrow> string" where
  "itoa n = (if n < 0 then ''-'' @ nat_digits (nat (- n)) else nat_digits (nat n))"

text \<open>A number padded with zeros to a width, as the layouts of \<^verbatim>\<open>Time.Format\<close> print it.\<close>

definition pad :: "nat \<Rightarrow> int \<Rightarrow> string" where
  "pad w n = (let ds = nat_digits (nat \<bar>n\<bar>) in
     (if n < 0 then ''-'' else []) @ replicate (w - length ds) CHR ''0'' @ ds)"

subsection \<open>Calendar dates\<close>

text \<open>
  The proleptic Gregorian date of an instant in UTC, from the days since January 1 of year 1
  counted from March 1 of year 0 in eras of 400 years.
\<close>

definition civil :: "time \<Rightarrow> int \<times> int \<times> int" where
  "civil t =
     (let z = t div Day + 306;
          era = z div 146097;
          doe = z mod 146097;
          yoe = (doe - doe div 1460 + doe div 36524 - doe div 146096) div 365;
          doy = doe - (365 * yoe + yoe div 4 - yoe div 100);
          mp = (5 * doy + 2) div 153;
          d = doy - (153 * mp + 2) div 5 + 1;
          m = (if mp < 10 then mp + 3 else mp - 9);
          y = yoe + era * 400 + (if m \<le> 2 then 1 else 0)
      in (y, m, d))"

text \<open>\<^verbatim>\<open>Format("2006-01-02")\<close> and \<^verbatim>\<open>Format(time.RFC3339)\<close> of an instant in UTC.\<close>

definition format_date :: "time \<Rightarrow> string" where
  "format_date t = (case civil t of (y, m, d) \<Rightarrow> pad 4 y @ ''-'' @ pad 2 m @ ''-'' @ pad 2 d)"

definition format_RFC3339 :: "time \<Rightarrow> string" where
  "format_RFC3339 t =
     (let s = t div 10 ^ 9 mod 86400 in
      format_date t @ ''T'' @ pad 2 (s div 3600) @ '':'' @ pad 2 (s div 60 mod 60) @ '':'' @
      pad 2 (s mod 60) @ ''Z'')"

section \<open>Go maps\<close>

type_synonym ('k, 'v) gomap = "('k \<times> 'v) list"

abbreviation gm_get :: "('k, 'v) gomap \<Rightarrow> 'k \<Rightarrow> 'v option" where "gm_get \<equiv> map_of"
abbreviation gm_set :: "'k \<Rightarrow> 'v \<Rightarrow> ('k, 'v) gomap \<Rightarrow> ('k, 'v) gomap" where "gm_set \<equiv> AList.update"
abbreviation gm_delete :: "'k \<Rightarrow> ('k, 'v) gomap \<Rightarrow> ('k, 'v) gomap" where "gm_delete \<equiv> AList.delete"
abbreviation gm_keys :: "('k, 'v) gomap \<Rightarrow> 'k list" where "gm_keys m \<equiv> map fst m"
abbreviation gm_vals :: "('k, 'v) gomap \<Rightarrow> 'v list" where "gm_vals m \<equiv> map snd m"
abbreviation gm_ok :: "('k, 'v) gomap \<Rightarrow> bool" where "gm_ok m \<equiv> distinct (map fst m)"

lemma gm_get_set [simp]: "gm_get (gm_set k v m) = (gm_get m)(k \<mapsto> v)"
  by (rule update_conv')

lemma gm_get_delete [simp]: "gm_get (gm_delete k m) = (gm_get m)(k := None)"
  by (rule delete_conv')

lemma gm_ok_set [simp]: "gm_ok m \<Longrightarrow> gm_ok (gm_set k v m)"
  by (rule distinct_update)

lemma gm_ok_delete [simp]: "gm_ok m \<Longrightarrow> gm_ok (gm_delete k m)"
  by (rule distinct_delete)

lemma gm_set_new: "k \<notin> fst ` set m \<Longrightarrow> gm_set k v m = m @ [(k, v)]"
  by (induction m) auto

text \<open>A loop that updates the entry of each element's key from its previous value.\<close>

lemma gm_get_foldl:
  "gm_get (foldl (\<lambda>m x. gm_set (k x) (g x (gm_get m (k x))) m) m0 xs) a =
     foldl (\<lambda>prev x. Some (g x prev)) (gm_get m0 a) (filter (\<lambda>x. k x = a) xs)"
  by (induction xs arbitrary: m0) auto

lemma gm_ok_foldl: "gm_ok m0 \<Longrightarrow> gm_ok (foldl (\<lambda>m x. gm_set (k x) (g x (gm_get m (k x))) m) m0 xs)"
  by (induction xs arbitrary: m0) auto

lemma gm_ok_get_iff: "gm_ok m \<Longrightarrow> (k, v) \<in> set m \<longleftrightarrow> gm_get m k = Some v"
  by (auto simp: map_of_is_SomeI dest: map_of_SomeD)

lemma split_at_first:
  assumes "c \<notin> set xs" "c \<notin> set xs'" "xs @ c # ys = xs' @ c # ys'"
  shows "xs = xs' \<and> ys = ys'"
proof -
  have "takeWhile (\<lambda>x. x \<noteq> c) (xs @ c # ys) = xs" if "c \<notin> set xs" for xs ys
    using that by (induction xs) auto
  with assms have "xs = xs'" by metis
  with assms(3) show ?thesis by simp
qed

text \<open>Strings that can be joined by a NUL byte and split again.\<close>

definition nul_free :: "string \<Rightarrow> bool" where "nul_free m \<longleftrightarrow> CHR 0x00 \<notin> set m"

section \<open>Range loops\<close>

type_synonym error = string

text \<open>
  A \<open>range\<close> loop whose body updates a state and may return early with an error; the state reached is
  kept in that case too, because the statements before the return have run.
\<close>

fun go_for :: "('st \<Rightarrow> 'x \<Rightarrow> 'st \<times> 'e option) \<Rightarrow> 'st \<Rightarrow> 'x list \<Rightarrow> 'st \<times> 'e option" where
  "go_for body st [] = (st, None)"
| "go_for body st (x # xs) =
     (case body st x of
        (st', Some err) \<Rightarrow> (st', Some err)
      | (st', None) \<Rightarrow> go_for body st' xs)"

lemma go_for_append:
  "go_for body st (xs @ ys) =
     (case go_for body st xs of (st', Some e) \<Rightarrow> (st', Some e) | (st', None) \<Rightarrow> go_for body st' ys)"
  by (induction xs arbitrary: st) (simp_all split: prod.splits option.splits)

lemma go_for_invariant:
  assumes "P st" and "\<And>st x st' r. P st \<Longrightarrow> x \<in> set xs \<Longrightarrow> body st x = (st', r) \<Longrightarrow> P st'"
  shows "P (fst (go_for body st xs))"
  using assms
proof (induction xs arbitrary: st)
  case (Cons x xs)
  obtain st' r where b: "body st x = (st', r)" by fastforce
  have P': "P st'" by (rule Cons.prems(2) [OF Cons.prems(1) _ b]) simp
  show ?case
  proof (cases r)
    case None
    have "P (fst (go_for body st' xs))"
      by (rule Cons.IH [OF P']) (meson Cons.prems(2) list.set_intros(2))
    with b None show ?thesis by simp
  next
    case Some
    with b P' show ?thesis by simp
  qed
qed simp

end
