(* ===== verification/Float64.thy ===== *)
theory Float64
  imports Prelude "HOL-Library.Log_Nat"
begin

text \<open>
  IEEE 754 binary64 arithmetic as the collector uses it. A finite float64 is the rational number it
  denotes, and every operation rounds the exact result to 53 significant bits, ties to even
  (\<open>fl\<close>). The values of this program stay far from the overflow threshold and the subnormal range, so
  infinities, NaN and gradual underflow do not occur; the sign of a zero is not kept. Products and
  sums are rounded one by one: fused multiply-add, which Go may emit on other targets than amd64, is
  not modelled.

  The locale \<open>rounding\<close> is the part of the standard the proofs rest on: rounding is monotone and
  leaves representable numbers alone. Its lemmas decide comparisons of rounded quotients against
  representable thresholds by exact integer arithmetic.
\<close>

section \<open>Rounding\<close>

text \<open>Round half to even, on the integers.\<close>

definition rne :: "rat \<Rightarrow> int" where
  "rne x = (let f = \<lfloor>x\<rfloor>; d = x - of_int f in
     if d < 1 / 2 then f else if 1 / 2 < d then f + 1 else if even f then f else f + 1)"

text \<open>The exponent \<open>k\<close> with \<open>2 ^ k \<le> x < 2 ^ (k + 1)\<close>, for positive \<open>x\<close>.\<close>

definition bexp :: "rat \<Rightarrow> int" where
  "bexp x = (let (p, q) = quotient_of x; k = bitlen p - bitlen q in
     if 2 powi k \<le> x then k else k - 1)"

definition flp :: "rat \<Rightarrow> rat" where
  "flp x = (let u = 2 powi (bexp x - 52) in of_int (rne (x / u)) * u)"

definition fl :: "rat \<Rightarrow> rat" where
  "fl x = (if x = 0 then 0 else if 0 < x then flp x else - flp (- x))"

text \<open>Conversion of an integer, truncation towards zero (\<^verbatim>\<open>int(f)\<close>), and the verb \<^verbatim>\<open>%.1f\<close>.\<close>

definition float64 :: "int \<Rightarrow> rat" where "float64 n = fl (of_int n)"

definition trunc :: "rat \<Rightarrow> int" where "trunc x = (if x < 0 then \<lceil>x\<rceil> else \<lfloor>x\<rfloor>)"

definition format_f1 :: "rat \<Rightarrow> string" where
  "format_f1 x = (let n = rne (\<bar>x\<bar> * 10) in
     (if x < 0 then ''-'' else []) @ itoa (n div 10) @ ''.'' @ itoa (n mod 10))"

definition representable :: "rat \<Rightarrow> bool" where
  "representable x \<longleftrightarrow> (\<exists>m e. \<bar>m\<bar> < 2 ^ 53 \<and> x = of_int m * 2 powi e)"

section \<open>Properties of rounding\<close>

lemma rne_int [simp]: "rne (of_int n) = n"
  by (simp add: rne_def)

lemma rne_bounds: "\<lfloor>x\<rfloor> \<le> rne x" "rne x \<le> \<lceil>x\<rceil>"
proof -
  show "\<lfloor>x\<rfloor> \<le> rne x" by (simp add: rne_def Let_def)
  show "rne x \<le> \<lceil>x\<rceil>"
  proof (cases "x = of_int \<lfloor>x\<rfloor>")
    case True
    then show ?thesis by (metis ceiling_of_int order_refl rne_int)
  next
    case False
    then have "of_int \<lfloor>x\<rfloor> < x" using of_int_floor_le [of x] by linarith
    then have "\<lfloor>x\<rfloor> + 1 \<le> \<lceil>x\<rceil>" by (simp add: le_ceiling_iff)
    then show ?thesis by (simp add: rne_def Let_def)
  qed
qed

lemma rne_mono: "x \<le> y \<Longrightarrow> rne x \<le> rne y"
proof (cases "\<lfloor>x\<rfloor> = \<lfloor>y\<rfloor>")
  case True
  assume "x \<le> y"
  with True show ?thesis by (auto simp: rne_def Let_def)
next
  case False
  assume le: "x \<le> y"
  with False have "\<lfloor>x\<rfloor> + 1 \<le> \<lfloor>y\<rfloor>" by (meson floor_mono le_less zless_imp_add1_zle)
  moreover have "rne x \<le> \<lfloor>x\<rfloor> + 1" by (simp add: rne_def Let_def)
  ultimately show ?thesis using rne_bounds(1) [of y] by linarith
qed

lemma powi_2_less_iff [simp]: "((2 :: rat) powi a < 2 powi b) \<longleftrightarrow> a < b"
proof
  show "(2 :: rat) powi a < 2 powi b" if "a < b"
    by (rule power_int_strict_increasing) (use that in auto)
  show "a < b" if "(2 :: rat) powi a < 2 powi b"
  proof (rule ccontr)
    assume "\<not> a < b"
    then have "(2 :: rat) powi b \<le> 2 powi a" by (intro power_int_increasing) auto
    with that show False by simp
  qed
qed

lemma powi_2_le_iff [simp]: "((2 :: rat) powi a \<le> 2 powi b) \<longleftrightarrow> a \<le> b"
  by (simp add: linorder_not_less [symmetric])

lemma bitlen_powi:
  assumes "0 < p"
  shows "2 powi (bitlen p - 1) \<le> (of_int p :: rat)" "of_int p < (2 powi bitlen p :: rat)"
proof -
  have b: "0 < bitlen p"
    using assms bitlen_nonneg [of p] bitlen_eq_zero_iff [of p] by linarith
  have "2 ^ nat (bitlen p - 1) \<le> p \<and> p < 2 ^ nat (bitlen p)"
    using bitlen_bounds [OF assms] .
  then have "(of_int (2 ^ nat (bitlen p - 1)) :: rat) \<le> of_int p"
    and "of_int p < (of_int (2 ^ nat (bitlen p)) :: rat)"
    by (simp_all only: of_int_le_iff of_int_less_iff)
  then show "2 powi (bitlen p - 1) \<le> (of_int p :: rat)" "of_int p < (2 powi bitlen p :: rat)"
    using b by (simp_all add: power_int_def)
qed

lemma bexp_bounds:
  assumes "0 < x"
  shows "2 powi bexp x \<le> x" "x < 2 powi (bexp x + 1)"
proof -
  obtain p q where pq: "quotient_of x = (p, q)" by fastforce
  have q: "0 < q" using quotient_of_denom_pos [OF pq] .
  have x: "x = of_int p / of_int q" using quotient_of_div [OF pq] .
  have p: "0 < p" using assms q x by (simp add: zero_less_divide_iff)
  let ?k = "bitlen p - bitlen q"
  note P = bitlen_powi [OF p] and Q = bitlen_powi [OF q]
  have "x < 2 powi bitlen p / 2 powi (bitlen q - 1)"
    unfolding x by (rule frac_less) (use p q P Q in auto)
  then have up: "x < 2 powi (?k + 1)"
    by (simp add: power_int_diff power_int_add)
  have "2 powi (bitlen p - 1) / 2 powi bitlen q \<le> x"
    unfolding x by (rule frac_le) (use p q P Q in auto)
  moreover have "bitlen p - 1 - bitlen q = ?k - 1" by simp
  ultimately have lo: "2 powi (?k - 1) \<le> x"
    by (simp only: power_int_diff [symmetric] zero_neq_numeral [symmetric] not_False_eq_True simp_thms)
  show "2 powi bexp x \<le> x" "x < 2 powi (bexp x + 1)"
    using up lo by (simp_all add: bexp_def pq Let_def)
qed

lemma bexp_mono: "0 < x \<Longrightarrow> x \<le> y \<Longrightarrow> bexp x \<le> bexp y"
proof -
  assume a: "0 < x" "x \<le> y"
  then have "2 powi bexp x \<le> x" "y < 2 powi (bexp y + 1)" using bexp_bounds [of x] bexp_bounds [of y] by auto
  with a have "2 powi bexp x < (2 powi (bexp y + 1) :: rat)" by linarith
  then show ?thesis by simp
qed

lemma flp_in_binade:
  assumes "0 < x"
  shows "2 powi bexp x \<le> flp x" "flp x \<le> 2 powi (bexp x + 1)"
proof -
  let ?u = "2 powi (bexp x - 52) :: rat"
  have u: "0 < ?u" by simp
  have lo: "of_int (2 ^ 52) * ?u = 2 powi bexp x" and hi: "of_int (2 ^ 53) * ?u = 2 powi (bexp x + 1)"
    by (simp_all add: power_int_diff power_int_add)
  have "of_int (2 ^ 52) \<le> x / ?u" "x / ?u \<le> of_int (2 ^ 53)"
    using bexp_bounds [OF assms] lo hi u by (simp_all only: pos_le_divide_eq pos_divide_le_eq less_imp_le)
  then have "rne (of_int (2 ^ 52)) \<le> rne (x / ?u)" "rne (x / ?u) \<le> rne (of_int (2 ^ 53))"
    by (blast intro: rne_mono)+
  then have "(2 ^ 52 :: int) \<le> rne (x / ?u)" "rne (x / ?u) \<le> 2 ^ 53"
    by (simp_all only: rne_int)
  then have "(of_int (2 ^ 52) :: rat) \<le> of_int (rne (x / ?u))" "of_int (rne (x / ?u)) \<le> (of_int (2 ^ 53) :: rat)"
    by (simp_all only: of_int_le_iff)
  then have "of_int (2 ^ 52) * ?u \<le> of_int (rne (x / ?u)) * ?u" "of_int (rne (x / ?u)) * ?u \<le> of_int (2 ^ 53) * ?u"
    using u by (simp_all only: mult_le_cancel_right_pos)
  then show "2 powi bexp x \<le> flp x" "flp x \<le> 2 powi (bexp x + 1)"
    unfolding lo hi by (simp_all add: flp_def Let_def)
qed

lemma flp_mono:
  assumes "0 < x" "x \<le> y"
  shows "flp x \<le> flp y"
proof (cases "bexp x = bexp y")
  case True
  have "x / 2 powi (bexp x - 52) \<le> y / 2 powi (bexp x - 52)"
    using assms by (simp add: divide_right_mono)
  then show ?thesis using True
    by (simp add: flp_def Let_def mult_right_mono rne_mono)
next
  case False
  with bexp_mono [OF assms] have "bexp x + 1 \<le> bexp y" by linarith
  then have "(2 powi (bexp x + 1) :: rat) \<le> 2 powi bexp y" by simp
  moreover have "0 < y" using assms by linarith
  ultimately show ?thesis
    using flp_in_binade(2) [OF assms(1)] flp_in_binade(1) [of y] by linarith
qed

lemma flp_pos: "0 < x \<Longrightarrow> 0 < flp x"
  by (rule less_le_trans [OF _ flp_in_binade(1)]) simp_all

lemma fl_mono: "x \<le> y \<Longrightarrow> fl x \<le> fl y"
proof -
  assume le: "x \<le> y"
  consider "0 < x" | "x = 0" | "x < 0" "0 \<le> y" | "y < 0" using le by linarith
  then show ?thesis
  proof cases
    case 1
    then show ?thesis using le flp_mono [of x y] by (simp add: fl_def)
  next
    case 2
    then show ?thesis using le flp_pos [of y] by (auto simp: fl_def)
  next
    case 3
    then show ?thesis using flp_pos [of "- x"] flp_pos [of y] by (auto simp: fl_def)
  next
    case 4
    then show ?thesis using le flp_mono [of "- y" "- x"] by (simp add: fl_def)
  qed
qed

lemma flp_representable:
  assumes "0 < of_int m * (2 powi e :: rat)" and "m < 2 ^ 53"
  shows "flp (of_int m * 2 powi e) = of_int m * 2 powi e"
proof -
  let ?x = "of_int m * 2 powi e :: rat"
  have "?x < of_int (2 ^ 53) * 2 powi e" using assms(2) by (simp only: mult_less_cancel_right_pos zero_less_power_int zero_less_numeral of_int_less_iff)
  also have "\<dots> = 2 powi (e + 53)" by (simp add: power_int_add)
  finally have "2 powi bexp ?x < (2 powi (e + 53) :: rat)" using bexp_bounds(1) [OF assms(1)] by linarith
  then have e: "bexp ?x - 52 \<le> e" by simp
  let ?d = "nat (e - (bexp ?x - 52))"
  have "(2 powi e :: rat) = 2 ^ ?d * 2 powi (bexp ?x - 52)"
    using e by (simp flip: power_int_of_nat power_int_add)
  then have x: "?x = of_int (m * 2 ^ ?d) * 2 powi (bexp ?x - 52)" by simp
  have "?x / 2 powi (bexp ?x - 52) = of_int (m * 2 ^ ?d)"
    by (subst x) (simp only: nonzero_mult_div_cancel_right power_int_eq_0_iff zero_neq_numeral [symmetric] simp_thms)
  then have "flp ?x = of_int (m * 2 ^ ?d) * 2 powi (bexp ?x - 52)"
    by (simp only: flp_def Let_def rne_int)
  then show ?thesis by (rule trans [OF _ x [symmetric]])
qed

lemma fl_representable: "representable x \<Longrightarrow> fl x = x"
proof -
  assume "representable x"
  then obtain m e where m: "\<bar>m\<bar> < 2 ^ 53" and x: "x = of_int m * 2 powi e"
    by (auto simp: representable_def)
  show ?thesis
  proof (cases x "0 :: rat" rule: linorder_cases)
    case less
    then have "0 < of_int (- m) * (2 powi e :: rat)" using x by simp
    then have "flp (of_int (- m) * 2 powi e) = of_int (- m) * 2 powi e"
      using m by (intro flp_representable) auto
    then show ?thesis using less x by (simp add: fl_def)
  next
    case equal
    then show ?thesis by (simp add: fl_def)
  next
    case greater
    then show ?thesis using x m flp_representable [of m e] by (simp add: fl_def)
  qed
qed

section \<open>Deciding thresholds\<close>

text \<open>
  What the comparisons need of a rounding function. \<open>repr\<close> is the set of representable numbers; the
  lemmas are proved once for every function with these two laws.
\<close>

locale rounding =
  fixes rnd :: "rat \<Rightarrow> rat" and repr :: "rat \<Rightarrow> bool"
  assumes rnd_mono: "x \<le> y \<Longrightarrow> rnd x \<le> rnd y"
    and rnd_repr: "repr x \<Longrightarrow> rnd x = x"
begin

lemma rnd_ge: "repr c \<Longrightarrow> c \<le> x \<Longrightarrow> c \<le> rnd x"
  using rnd_mono [of c x] rnd_repr [of c] by simp

lemma rnd_le: "repr c \<Longrightarrow> x \<le> c \<Longrightarrow> rnd x \<le> c"
  using rnd_mono [of x c] rnd_repr [of c] by simp

text \<open>
  Against a representable threshold \<open>c\<close> with a representable predecessor \<open>c'\<close>, a rounded value compares
  as the exact one does, provided the exact value is not strictly between the two.
\<close>

lemma rnd_less_iff:
  assumes "repr c" "repr c'" "c' < c" and "x < c \<Longrightarrow> x \<le> c'"
  shows "rnd x < c \<longleftrightarrow> x < c"
proof
  assume "x < c"
  with assms have "rnd x \<le> c'" by (intro rnd_le) auto
  with assms(3) show "rnd x < c" by simp
next
  assume "rnd x < c"
  then show "x < c" using rnd_ge [OF assms(1), of x] by linarith
qed

text \<open>The quotient of two integers against an integer: the gap below it is at least the inverse of the divisor.\<close>

lemma rnd_quotient_less_iff:
  fixes a b c :: int
  assumes "0 < b" "repr (of_int c)" "repr (of_int c - d)" "0 < d" "d * of_int b \<le> 1"
  shows "rnd (of_int a / of_int b) < of_int c \<longleftrightarrow> a < c * b"
proof -
  have b: "(0 :: rat) < of_int b" using assms(1) by simp
  have lt: "of_int a / of_int b < (of_int c :: rat) \<longleftrightarrow> a < c * b"
    using b by (simp add: pos_divide_less_eq flip: of_int_mult)
  have "rnd (of_int a / of_int b) < of_int c \<longleftrightarrow> of_int a / of_int b < (of_int c :: rat)"
  proof (rule rnd_less_iff [OF assms(2,3)])
    show "of_int c - d < of_int c" using assms(4) by simp
    assume "of_int a / of_int b < (of_int c :: rat)"
    then have "a + 1 \<le> c * b" using lt by simp
    then have "(of_int a :: rat) + 1 \<le> of_int c * of_int b" by (simp flip: of_int_mult of_int_le_iff [where ?'a = rat])
    then have "(of_int a :: rat) \<le> (of_int c - d) * of_int b" using assms(5) by (simp add: algebra_simps)
    then show "of_int a / of_int b \<le> of_int c - d" using b by (simp add: pos_divide_le_eq)
  qed
  with lt show ?thesis by simp
qed

end

interpretation binary64: rounding fl representable
  by unfold_locales (simp_all add: fl_mono fl_representable)

lemma representable_int: "\<bar>n\<bar> < 2 ^ 53 \<Longrightarrow> representable (of_int n)"
  unfolding representable_def by (intro exI [of _ n] exI [of _ 0]) simp

lemma float64_id [in_range]: "\<bar>n\<bar> < 2 ^ 53 \<Longrightarrow> float64 n = of_int n"
  by (simp add: float64_def fl_representable representable_int)

text \<open>One unit in the last place below an integer of seven bits.\<close>

lemma representable_pred: "0 < n \<Longrightarrow> n < 2 ^ 7 \<Longrightarrow> representable (of_int n - 1 / 2 ^ 46)"
  unfolding representable_def
  by (intro exI [of _ "n * 2 ^ 46 - 1"] exI [of _ "- 46"]) (simp add: power_int_minus field_simps)

text \<open>
  The percentage \<open>100 * a / b\<close>, computed in floating point, is below an integer threshold exactly when the
  fraction is, for counts below \<open>2 ^ 46\<close>.
\<close>

lemma fl_percentage_less_iff:
  assumes "0 \<le> a" "a < 2 ^ 46" "0 < b" "b < 2 ^ 46" "0 < c" "c < 2 ^ 7"
  shows "fl (fl (100 * float64 a) / float64 b) < of_int c \<longleftrightarrow> 100 * a < c * b"
proof -
  have "float64 a = of_int a" "float64 b = of_int b" using assms by (simp_all add: float64_id)
  moreover have "fl (of_int (100 * a)) = of_int (100 * a)"
    using assms by (intro fl_representable representable_int) simp
  ultimately have eq: "fl (fl (100 * float64 a) / float64 b) = fl (of_int (100 * a) / of_int b)" by simp
  have "(of_int b :: rat) \<le> of_int (2 ^ 46)" using assms(4) by (simp only: of_int_le_iff)
  then have gap: "1 / 2 ^ 46 * (of_int b :: rat) \<le> 1" by simp
  have "fl (of_int (100 * a) / of_int b) < of_int c \<longleftrightarrow> 100 * a < c * b"
    using assms(5,6)
    by (intro binary64.rnd_quotient_less_iff [OF assms(3) _ representable_pred _ gap] representable_int)
      simp_all
  with eq show ?thesis by simp
qed

end
