(* ===== verification/Core_Finding.thy ===== *)
theory Core_Finding
  imports Prelude
begin

text \<open>
  Package \<^verbatim>\<open>core\<close>: the normalised finding, its validation and its fingerprint
  (\<^verbatim>\<open>core/finding.go\<close>), module metadata and targets (\<^verbatim>\<open>core/collector.go\<close>).

  \<^verbatim>\<open>Severity\<close> and \<^verbatim>\<open>FindingStatus\<close> are string types in the source and any string can reach them from a
  collector or the database, so they stay strings. The digest function of \<^verbatim>\<open>crypto/sha256\<close> is the
  argument \<open>sha\<close> of \<open>core_Fingerprint\<close>.
\<close>

section \<open>Values of type any\<close>

text \<open>
  The dynamic values evidence maps hold. A map is \<open>None\<close> when nil; \<open>GStrs\<close> is a \<^verbatim>\<open>[]string\<close>, \<open>GOther\<close> a
  value of any other Go type, known only by a tag.
\<close>

datatype gany =
    GNil
  | GBool bool
  | GInt int
  | GFloat rat
  | GStr string
  | GMap "(string \<times> gany) list option"
  | GList "gany list"
  | GStrs "string list"
  | GOther string

type_synonym evidence = "(string \<times> gany) list option"

section \<open>Severity and status\<close>

type_synonym severity = string
type_synonym status = string

abbreviation SeverityCritical :: severity where "SeverityCritical \<equiv> ''critical''"
abbreviation SeverityHigh :: severity where "SeverityHigh \<equiv> ''high''"
abbreviation SeverityMedium :: severity where "SeverityMedium \<equiv> ''medium''"
abbreviation SeverityLow :: severity where "SeverityLow \<equiv> ''low''"
abbreviation SeverityInfo :: severity where "SeverityInfo \<equiv> ''info''"

definition rank :: "severity \<Rightarrow> int" where
  "rank s =
     (if s = SeverityCritical then 4
      else if s = SeverityHigh then 3
      else if s = SeverityMedium then 2
      else if s = SeverityLow then 1
      else if s = SeverityInfo then 0
      else -1)"

definition Valid :: "severity \<Rightarrow> bool" where
  "Valid s \<longleftrightarrow> rank s \<ge> 0"

abbreviation StatusOpen :: status where "StatusOpen \<equiv> ''open''"
abbreviation StatusResolved :: status where "StatusResolved \<equiv> ''resolved''"
abbreviation StatusAcknowledged :: status where "StatusAcknowledged \<equiv> ''acknowledged''"
abbreviation StatusSuppressed :: status where "StatusSuppressed \<equiv> ''suppressed''"

definition MaxEvidenceBytes :: nat where "MaxEvidenceBytes = 64 * 1024"

section \<open>Findings\<close>

record finding =
  f_Fingerprint :: string
  f_Target :: string
  f_Check :: string
  f_Title :: string
  f_Severity :: severity
  f_Remediation :: string
  f_Evidence :: evidence
  f_ID :: string
  f_Module :: string
  f_Status :: status
  f_GroupID :: "string option"
  f_FirstSeen :: time
  f_LastSeen :: time
  f_ResolvedAt :: "time option"

text \<open>A composite literal that names only the collector-owned fields leaves the others zero.\<close>

definition new_finding ::
  "string \<Rightarrow> string \<Rightarrow> string \<Rightarrow> string \<Rightarrow> severity \<Rightarrow> string \<Rightarrow> evidence \<Rightarrow> finding" where
  "new_finding fp target check title sev rem ev =
     \<lparr>f_Fingerprint = fp, f_Target = target, f_Check = check, f_Title = title, f_Severity = sev,
      f_Remediation = rem, f_Evidence = ev, f_ID = [], f_Module = [], f_Status = [],
      f_GroupID = None, f_FirstSeen = 0, f_LastSeen = 0, f_ResolvedAt = None\<rparr>"

datatype ingest_error = IngestError (ie_Field: string) (ie_Reason: string)

definition IngestError_Error :: "ingest_error \<Rightarrow> string" where
  "IngestError_Error e = ''invalid finding: '' @ ie_Field e @ '': '' @ ie_Reason e"

definition ValidateForIngest :: "'a finding_scheme \<Rightarrow> ingest_error option" where
  "ValidateForIngest f =
     (if f_Fingerprint f = [] then Some (IngestError ''fingerprint'' ''empty'')
      else if f_Target f = [] then Some (IngestError ''target'' ''empty'')
      else if f_Check f = [] then Some (IngestError ''check'' ''empty'')
      else if f_Title f = [] then Some (IngestError ''title'' ''empty'')
      else if f_Remediation f = [] then
        Some (IngestError ''remediation'' ''empty (every finding must tell the user what to do)'')
      else if \<not> Valid (f_Severity f) then
        Some (IngestError ''severity'' (''unknown value: '' @ f_Severity f))
      else None)"

section \<open>Fingerprints\<close>

definition hex_digit :: "nat \<Rightarrow> char" where
  "hex_digit n = (if n < 10 then char_of (48 + n) else char_of (87 + n))"

text \<open>\<^verbatim>\<open>hex.EncodeToString\<close>.\<close>

definition hex_EncodeToString :: "string \<Rightarrow> string" where
  "hex_EncodeToString bs =
     concat (map (\<lambda>b. [hex_digit (of_char b div 16), hex_digit (of_char b mod 16)]) bs)"

definition core_Fingerprint ::
  "(string \<Rightarrow> string) \<Rightarrow> string \<Rightarrow> string \<Rightarrow> string \<Rightarrow> string \<Rightarrow> string" where
  "core_Fingerprint sha mdl target check discriminator =
     hex_EncodeToString
       (take 16 (sha (mdl @ ''|'' @ target @ ''|'' @ check @ ''|'' @ discriminator)))"

section \<open>Modules and targets\<close>

record module_info =
  mi_ID :: string
  mi_Name :: string
  mi_Version :: string
  mi_TargetKind :: string
  mi_DefaultInterval :: duration
  mi_ResolveAfter :: int

definition ResolveAfterOrDefault :: "module_info \<Rightarrow> int" where
  "ResolveAfterOrDefault m = (if mi_ResolveAfter m < 1 then 1 else mi_ResolveAfter m)"

record target =
  t_Raw :: string
  t_Canonical :: string
  t_Meta :: "(string, string) gomap"

text \<open>An entry of the optional \<^verbatim>\<open>Collector.Diff\<close>.\<close>

record change =
  ch_Kind :: string
  ch_Finding :: finding
  ch_Detail :: string

section \<open>Lemmas\<close>

lemma Valid_iff [simp]:
  "Valid s \<longleftrightarrow> s \<in> {SeverityCritical, SeverityHigh, SeverityMedium, SeverityLow, SeverityInfo}"
  by (simp add: Valid_def rank_def)

lemma ValidateForIngest_None_iff:
  "ValidateForIngest f = None \<longleftrightarrow>
     f_Fingerprint f \<noteq> [] \<and> f_Target f \<noteq> [] \<and> f_Check f \<noteq> [] \<and> f_Title f \<noteq> [] \<and>
     f_Remediation f \<noteq> [] \<and> Valid (f_Severity f)"
  by (simp add: ValidateForIngest_def del: Valid_iff)

lemma ResolveAfterOrDefault_pos [simp]: "1 \<le> ResolveAfterOrDefault m"
  by (simp add: ResolveAfterOrDefault_def)

lemma ResolveAfterOrDefault_gt0 [simp]: "0 < ResolveAfterOrDefault m"
  by (simp add: ResolveAfterOrDefault_def)

lemma length_hex [simp]: "length (hex_EncodeToString bs) = 2 * length bs"
  by (induction bs) (simp_all add: hex_EncodeToString_def)

lemma hex_digit_inj:
  assumes "m < 16" "n < 16" "hex_digit m = hex_digit n"
  shows "m = n"
proof -
  have "of_char (hex_digit m) = (of_char (hex_digit n) :: nat)" using assms(3) by simp
  with assms(1,2) show ?thesis by (auto simp: hex_digit_def split: if_splits)
qed

lemma hex_byte_inj:
  assumes "hex_digit (of_char a div 16) = hex_digit (of_char b div 16)"
    and "hex_digit (of_char a mod 16) = hex_digit (of_char b mod 16)"
  shows "a = b"
proof -
  have "of_char a div 16 = (of_char b div 16 :: nat)"
    by (rule hex_digit_inj [OF _ _ assms(1)]) (simp_all add: less_mult_imp_div_less of_char_less)
  moreover have "of_char a mod 16 = (of_char b mod 16 :: nat)"
    by (rule hex_digit_inj [OF _ _ assms(2)]) simp_all
  ultimately have "of_char a = (of_char b :: nat)" by (metis div_mult_mod_eq)
  then show ?thesis by simp
qed

lemma hex_inj: "hex_EncodeToString xs = hex_EncodeToString ys \<Longrightarrow> xs = ys"
proof (induction xs arbitrary: ys)
  case Nil
  then show ?case by (cases ys) (simp_all add: hex_EncodeToString_def)
next
  case (Cons x xs)
  then obtain y zs where "ys = y # zs" by (cases ys) (auto simp: hex_EncodeToString_def)
  with Cons show ?case by (auto simp: hex_EncodeToString_def intro: hex_byte_inj)
qed

text \<open>
  The digested text separates the parts by \<^verbatim>\<open>|\<close>. For a fixed module and target it determines the check
  and the discriminator as long as check identifiers hold no \<^verbatim>\<open>|\<close>.
\<close>

lemma fingerprint_text_inj:
  assumes "CHR ''|'' \<notin> set c" "CHR ''|'' \<notin> set c'"
    and "m @ ''|'' @ t @ ''|'' @ c @ ''|'' @ d = m @ ''|'' @ t @ ''|'' @ c' @ ''|'' @ d'"
  shows "c = c' \<and> d = d'"
proof -
  from assms(3) have eq: "c @ ''|'' @ d = c' @ ''|'' @ d'" by simp
  with assms(1,2) show ?thesis using split_at_first [of "CHR ''|''" c c' d d'] by simp
qed

end
