(* ===== verification/Store_Engine.thy ===== *)
theory Store_Engine
  imports Core_Finding
begin

text \<open>
  Package \<^verbatim>\<open>store\<close>, the reconcile engine: the persistence interface (\<^verbatim>\<open>store/store.go\<close>) and \<^verbatim>\<open>Reconcile\<close>
  (\<^verbatim>\<open>store/reconcile.go\<close>).

  The interface \<^verbatim>\<open>Store\<close> is a record of functions over an arbitrary state. The identifier source
  \<^verbatim>\<open>IDGen\<close> is a function of the number of identifiers drawn so far, the clock is the argument \<open>now\<close>,
  and \<^verbatim>\<open>json.Marshal\<close> on evidence is the engine's field \<open>e_marshal\<close> (\<open>None\<close> where it returns an error).
  \<^verbatim>\<open>Reconcile\<close> returns the state reached together with its result also when a store operation fails
  half way, because what was written before the failure stays written.

  The locale \<open>finding_store\<close> is the contract of the interface; the effect of \<^verbatim>\<open>Reconcile\<close> on every
  lawful store is proved in it once.
\<close>

section \<open>The persistence interface\<close>

record frecord = finding +
  r_AbsentStreak :: int

record 's store_iface =
  si_ListByTarget :: "'s \<Rightarrow> string \<Rightarrow> string \<Rightarrow> error + frecord list"
  si_Upsert :: "'s \<Rightarrow> frecord \<Rightarrow> error + 's"
  si_Get :: "'s \<Rightarrow> string \<Rightarrow> string \<Rightarrow> error + frecord option"
  si_ListOpen :: "'s \<Rightarrow> string \<Rightarrow> error + frecord list"
  si_ListAll :: "'s \<Rightarrow> string \<Rightarrow> error + frecord list"

record 's engine =
  e_store :: "'s store_iface"
  e_newID :: "nat \<Rightarrow> time \<Rightarrow> error + string"
  e_marshal :: "(string \<times> gany) list \<Rightarrow> string option"

record reconcile_result =
  rr_NewlyOpen :: "finding list"
  rr_Resolved :: "finding list"
  rr_Rejected :: "(finding \<times> ingest_error) list"

section \<open>Reconcile\<close>

definition capEvidence ::
  "((string \<times> gany) list \<Rightarrow> string option) \<Rightarrow> finding \<Rightarrow> finding" where
  "capEvidence marshal f =
     (case f_Evidence f of
        None \<Rightarrow> f
      | Some ev \<Rightarrow>
          (case marshal ev of
             None \<Rightarrow>
               f\<lparr>f_Evidence := Some [(''_error'', GStr ''evidence not serialisable; dropped'')]\<rparr>
           | Some b \<Rightarrow>
               (if length b > MaxEvidenceBytes then
                  f\<lparr>f_Evidence := Some
                     [(''_truncated'', GBool True),
                      (''_original_bytes'', GInt (int (length b))),
                      (''_note'', GStr ''evidence exceeded MaxEvidenceBytes and was dropped'')]\<rparr>
                else f)))"

text \<open>The record a brand-new finding is stored as.\<close>

definition new_record :: "string \<Rightarrow> string \<Rightarrow> time \<Rightarrow> finding \<Rightarrow> frecord" where
  "new_record mdl i now f =
     (finding.extend f \<lparr>r_AbsentStreak = 0\<rparr>)
       \<lparr>f_ID := i, f_Module := mdl, f_Status := StatusOpen,
        f_FirstSeen := now, f_LastSeen := now, r_AbsentStreak := 0\<rparr>"

text \<open>An existing finding seen again: mutable fields refreshed, a resolved one reopened.\<close>

definition merge_record :: "time \<Rightarrow> finding \<Rightarrow> frecord \<Rightarrow> frecord" where
  "merge_record now f prev =
     (let reopened = (f_Status prev = StatusResolved);
          merged = prev\<lparr>f_Title := f_Title f, f_Severity := f_Severity f,
                        f_Remediation := f_Remediation f, f_Evidence := f_Evidence f,
                        f_LastSeen := now, r_AbsentStreak := 0\<rparr>
      in if reopened then merged\<lparr>f_Status := StatusOpen, f_ResolvedAt := None\<rparr> else merged)"

text \<open>An existing finding not seen: one more absence, resolved at the threshold.\<close>

definition age_record :: "module_info \<Rightarrow> time \<Rightarrow> frecord \<Rightarrow> frecord" where
  "age_record mi now r =
     (let r' = r\<lparr>r_AbsentStreak := wrap64 (r_AbsentStreak r + 1)\<rparr> in
      if r_AbsentStreak r' \<ge> ResolveAfterOrDefault mi
      then r'\<lparr>f_Status := StatusResolved, f_ResolvedAt := Some now\<rparr> else r')"

record 's rstate =
  st_store :: 's
  st_ids :: nat
  st_seen :: "string list"
  st_res :: reconcile_result

definition fresh_one ::
  "'s engine \<Rightarrow> module_info \<Rightarrow> time \<Rightarrow> (string, frecord) gomap \<Rightarrow> 's rstate \<Rightarrow> finding \<Rightarrow>
   's rstate \<times> error option" where
  "fresh_one e mi now byFP st f =
     (case ValidateForIngest f of
        Some err \<Rightarrow>
          (st\<lparr>st_res := (st_res st)\<lparr>rr_Rejected := rr_Rejected (st_res st) @ [(f, err)]\<rparr>\<rparr>, None)
      | None \<Rightarrow>
          (let f = capEvidence (e_marshal e) f;
               st = st\<lparr>st_seen := f_Fingerprint f # st_seen st\<rparr>
           in case gm_get byFP (f_Fingerprint f) of
                None \<Rightarrow>
                  (let drawn = e_newID e (st_ids st) now; st = st\<lparr>st_ids := Suc (st_ids st)\<rparr> in
                   case drawn of
                     Inl err \<Rightarrow> (st, Some err)
                   | Inr i \<Rightarrow>
                       (let r = new_record (mi_ID mi) i now f in
                        case si_Upsert (e_store e) (st_store st) r of
                          Inl err \<Rightarrow> (st, Some err)
                        | Inr s' \<Rightarrow>
                            (st\<lparr>st_store := s',
                                st_res := (st_res st)\<lparr>rr_NewlyOpen :=
                                  rr_NewlyOpen (st_res st) @ [finding.truncate r]\<rparr>\<rparr>, None)))
              | Some prev \<Rightarrow>
                  (let merged = merge_record now f prev in
                   case si_Upsert (e_store e) (st_store st) merged of
                     Inl err \<Rightarrow> (st, Some err)
                   | Inr s' \<Rightarrow>
                       (let st = st\<lparr>st_store := s'\<rparr> in
                        if f_Status prev = StatusResolved
                        then (st\<lparr>st_res := (st_res st)\<lparr>rr_NewlyOpen :=
                                  rr_NewlyOpen (st_res st) @ [finding.truncate merged]\<rparr>\<rparr>, None)
                        else (st, None)))))"

definition absent_one ::
  "'s engine \<Rightarrow> module_info \<Rightarrow> time \<Rightarrow> 's rstate \<Rightarrow> frecord \<Rightarrow> 's rstate \<times> error option" where
  "absent_one e mi now st r =
     (if f_Fingerprint r \<in> set (st_seen st) then (st, None)
      else if f_Status r = StatusResolved \<or> f_Status r = StatusSuppressed then (st, None)
      else
        (let r' = age_record mi now r;
             st = (if r_AbsentStreak r' \<ge> ResolveAfterOrDefault mi
                   then st\<lparr>st_res := (st_res st)\<lparr>rr_Resolved :=
                             rr_Resolved (st_res st) @ [finding.truncate r']\<rparr>\<rparr>
                   else st)
         in case si_Upsert (e_store e) (st_store st) r' of
              Inl err \<Rightarrow> (st, Some err)
            | Inr s' \<Rightarrow> (st\<lparr>st_store := s'\<rparr>, None)))"

definition index_by_fingerprint :: "frecord list \<Rightarrow> (string, frecord) gomap" where
  "index_by_fingerprint existing = foldl (\<lambda>m r. gm_set (f_Fingerprint r) r m) [] existing"

definition Reconcile ::
  "'s engine \<Rightarrow> module_info \<Rightarrow> string \<Rightarrow> finding list \<Rightarrow> time \<Rightarrow> 's \<Rightarrow> nat \<Rightarrow>
   's rstate \<times> error option" where
  "Reconcile e mi tgt fresh now s n =
     (let st = \<lparr>st_store = s, st_ids = n, st_seen = [],
                st_res = \<lparr>rr_NewlyOpen = [], rr_Resolved = [], rr_Rejected = []\<rparr>\<rparr>
      in case si_ListByTarget (e_store e) s (mi_ID mi) tgt of
           Inl err \<Rightarrow> (st, Some err)
         | Inr existing \<Rightarrow>
             (case go_for (fresh_one e mi now (index_by_fingerprint existing)) st fresh of
                (st, Some err) \<Rightarrow> (st, Some err)
              | (st, None) \<Rightarrow> go_for (absent_one e mi now) st existing))"

section \<open>The contract of a store\<close>

text \<open>
  Vocabulary of the contract. A store is seen as a map from modules and fingerprints to records.
  \<open>stored\<close> is a record as the store gives it back: a database may change the representation of evidence.
  \<open>named\<close> are the module identifiers the store can tell apart.
\<close>

definition stored :: "(evidence \<Rightarrow> evidence) \<Rightarrow> frecord \<Rightarrow> frecord" where
  "stored nrm r = r\<lparr>f_Evidence := nrm (f_Evidence r)\<rparr>"

definition view_put ::
  "(string \<Rightarrow> string \<Rightarrow> frecord option) \<Rightarrow> frecord \<Rightarrow> string \<Rightarrow> string \<Rightarrow> frecord option" where
  "view_put V r = V(f_Module r := (V (f_Module r))(f_Fingerprint r \<mapsto> r))"

definition same_identity :: "frecord \<Rightarrow> frecord \<Rightarrow> bool" where
  "same_identity r r0 \<longleftrightarrow> f_ID r = f_ID r0 \<and> f_Fingerprint r = f_Fingerprint r0 \<and>
     f_Module r = f_Module r0 \<and> f_Target r = f_Target r0 \<and> f_Check r = f_Check r0 \<and>
     f_FirstSeen r = f_FirstSeen r0"

definition id_unused :: "(string \<Rightarrow> string \<Rightarrow> frecord option) \<Rightarrow> string \<Rightarrow> bool" where
  "id_unused V i \<longleftrightarrow> (\<forall>m fp r. V m fp = Some r \<longrightarrow> f_ID r \<noteq> i)"

text \<open>From the \<open>n\<close>-th draw on, the identifier source succeeds and yields new, pairwise different identifiers.\<close>

definition ids_fresh ::
  "(nat \<Rightarrow> time \<Rightarrow> error + string) \<Rightarrow> time \<Rightarrow> nat \<Rightarrow> (string \<Rightarrow> string \<Rightarrow> frecord option) \<Rightarrow> bool" where
  "ids_fresh g now n V \<longleftrightarrow>
     (\<forall>k\<ge>n. \<exists>i. g k now = Inr i \<and> id_unused V i \<and> (\<forall>j>k. g j now \<noteq> Inr i))"

locale finding_store =
  fixes I :: "'s store_iface"
    and inv :: "'s \<Rightarrow> bool"
    and view :: "'s \<Rightarrow> string \<Rightarrow> string \<Rightarrow> frecord option"
    and nrm :: "evidence \<Rightarrow> evidence"
    and storable :: "evidence \<Rightarrow> bool"
    and named :: "string \<Rightarrow> bool"
  assumes list_law: "inv s \<Longrightarrow> \<exists>rs. si_ListByTarget I s m t = Inr rs \<and>
      distinct (map f_Fingerprint rs) \<and>
      (\<forall>r. r \<in> set rs \<longleftrightarrow> view s m (f_Fingerprint r) = Some r \<and> f_Target r = t)"
    and keyed: "inv s \<Longrightarrow> view s m fp = Some r \<Longrightarrow>
      f_Module r = m \<and> f_Fingerprint r = fp \<and> storable (f_Evidence r) \<and> nrm (f_Evidence r) = f_Evidence r"
    and get_law: "inv s \<Longrightarrow> named m \<Longrightarrow> si_Get I s m fp = Inr (view s m fp)"
    and open_law: "inv s \<Longrightarrow> \<exists>rs. si_ListOpen I s m = Inr rs \<and> distinct (map f_Fingerprint rs) \<and>
      (\<forall>r. r \<in> set rs \<longleftrightarrow> view s m (f_Fingerprint r) = Some r \<and> f_Status r = StatusOpen)"
    and all_law: "inv s \<Longrightarrow> \<exists>rs. si_ListAll I s m = Inr rs \<and> distinct (map f_Fingerprint rs) \<and>
      (\<forall>r. r \<in> set rs \<longleftrightarrow> view s m (f_Fingerprint r) = Some r)"
    and insert_law: "inv s \<Longrightarrow> view s (f_Module r) (f_Fingerprint r) = None \<Longrightarrow>
      id_unused (view s) (f_ID r) \<Longrightarrow> storable (f_Evidence r) \<Longrightarrow> named (f_Module r) \<Longrightarrow>
      \<exists>s'. si_Upsert I s r = Inr s' \<and> inv s' \<and> view s' = view_put (view s) (stored nrm r)"
    and update_law: "inv s \<Longrightarrow> view s (f_Module r) (f_Fingerprint r) = Some r0 \<Longrightarrow>
      same_identity r r0 \<Longrightarrow> storable (f_Evidence r) \<Longrightarrow>
      \<exists>s'. si_Upsert I s r = Inr s' \<and> inv s' \<and> view s' = view_put (view s) (stored nrm r)"
    and frame_law: "inv s \<Longrightarrow> named (f_Module r) \<Longrightarrow> si_Upsert I s r = Inr s' \<Longrightarrow>
      inv s' \<and> (\<forall>m fp. m \<noteq> f_Module r \<or> fp \<noteq> f_Fingerprint r \<longrightarrow> view s' m fp = view s m fp)"

section \<open>What one scan does to one finding\<close>

definition valid_fresh ::
  "((string \<times> gany) list \<Rightarrow> string option) \<Rightarrow> finding list \<Rightarrow> finding list" where
  "valid_fresh marshal fresh =
     map (capEvidence marshal) (filter (\<lambda>f. ValidateForIngest f = None) fresh)"

text \<open>The record written for a valid fresh finding, given the record stored before.\<close>

definition fresh_step ::
  "(nat \<Rightarrow> time \<Rightarrow> error + string) \<Rightarrow> time \<Rightarrow> string \<Rightarrow> finding \<Rightarrow> frecord option \<Rightarrow> frecord \<Rightarrow> bool" where
  "fresh_step g now mdl f prev r \<longleftrightarrow>
     (case prev of
        None \<Rightarrow> \<exists>k i. g k now = Inr i \<and> r = new_record mdl i now f
      | Some p \<Rightarrow> r = merge_record now f p)"

text \<open>Whether a fresh finding is announced: it is new, or it was resolved.\<close>

definition opens :: "frecord option \<Rightarrow> bool" where
  "opens prev \<longleftrightarrow> (case prev of None \<Rightarrow> True | Some p \<Rightarrow> f_Status p = StatusResolved)"

text \<open>Whether a stored finding can still age: neither resolved nor suppressed.\<close>

definition live :: "frecord \<Rightarrow> bool" where
  "live r \<longleftrightarrow> f_Status r \<noteq> StatusResolved \<and> f_Status r \<noteq> StatusSuppressed"

definition resolves :: "module_info \<Rightarrow> frecord \<Rightarrow> bool" where
  "resolves mi r \<longleftrightarrow> live r \<and> ResolveAfterOrDefault mi \<le> wrap64 (r_AbsentStreak r + 1)"

text \<open>The record stored under one key after a scan, from the record before it.\<close>

definition after_scan ::
  "(nat \<Rightarrow> time \<Rightarrow> error + string) \<Rightarrow> (evidence \<Rightarrow> evidence) \<Rightarrow> module_info \<Rightarrow> time \<Rightarrow> string \<Rightarrow>
   finding list \<Rightarrow> string \<Rightarrow> string \<Rightarrow> frecord option \<Rightarrow> frecord option \<Rightarrow> bool" where
  "after_scan g nrm mi now tgt vf m fp before after \<longleftrightarrow>
     (if m \<noteq> mi_ID mi then after = before
      else case find (\<lambda>f. f_Fingerprint f = fp) vf of
             Some f \<Rightarrow> (\<exists>r. fresh_step g now m f before r \<and> after = Some (stored nrm r))
           | None \<Rightarrow> after = map_option
               (\<lambda>r. if f_Target r = tgt \<and> live r then age_record mi now r else r) before)"

section \<open>Lemmas on the record operations\<close>

lemma capEvidence_fields [simp]:
  "f_Fingerprint (capEvidence mar f) = f_Fingerprint f"
  "f_Target (capEvidence mar f) = f_Target f"
  "f_Check (capEvidence mar f) = f_Check f"
  "f_Title (capEvidence mar f) = f_Title f"
  "f_Severity (capEvidence mar f) = f_Severity f"
  "f_Remediation (capEvidence mar f) = f_Remediation f"
  by (simp_all add: capEvidence_def split: option.split)

lemma new_record_fields [simp]:
  "f_Fingerprint (new_record m i now f) = f_Fingerprint f"
  "f_Target (new_record m i now f) = f_Target f"
  "f_Check (new_record m i now f) = f_Check f"
  "f_Title (new_record m i now f) = f_Title f"
  "f_Severity (new_record m i now f) = f_Severity f"
  "f_Remediation (new_record m i now f) = f_Remediation f"
  "f_Evidence (new_record m i now f) = f_Evidence f"
  "f_ID (new_record m i now f) = i"
  "f_Module (new_record m i now f) = m"
  "f_Status (new_record m i now f) = StatusOpen"
  "f_FirstSeen (new_record m i now f) = now"
  "f_LastSeen (new_record m i now f) = now"
  "f_ResolvedAt (new_record m i now f) = f_ResolvedAt f"
  "r_AbsentStreak (new_record m i now f) = 0"
  by (simp_all add: new_record_def finding.defs)

lemma merge_record_fields [simp]:
  "f_Fingerprint (merge_record now f p) = f_Fingerprint p"
  "f_Target (merge_record now f p) = f_Target p"
  "f_Check (merge_record now f p) = f_Check p"
  "f_Title (merge_record now f p) = f_Title f"
  "f_Severity (merge_record now f p) = f_Severity f"
  "f_Remediation (merge_record now f p) = f_Remediation f"
  "f_Evidence (merge_record now f p) = f_Evidence f"
  "f_ID (merge_record now f p) = f_ID p"
  "f_Module (merge_record now f p) = f_Module p"
  "f_Status (merge_record now f p) = (if f_Status p = StatusResolved then StatusOpen else f_Status p)"
  "f_FirstSeen (merge_record now f p) = f_FirstSeen p"
  "f_LastSeen (merge_record now f p) = now"
  "f_ResolvedAt (merge_record now f p) = (if f_Status p = StatusResolved then None else f_ResolvedAt p)"
  "r_AbsentStreak (merge_record now f p) = 0"
  by (simp_all add: merge_record_def Let_def)

lemma age_record_fields [simp]:
  "f_Fingerprint (age_record mi now r) = f_Fingerprint r"
  "f_Target (age_record mi now r) = f_Target r"
  "f_Check (age_record mi now r) = f_Check r"
  "f_Title (age_record mi now r) = f_Title r"
  "f_Severity (age_record mi now r) = f_Severity r"
  "f_Remediation (age_record mi now r) = f_Remediation r"
  "f_Evidence (age_record mi now r) = f_Evidence r"
  "f_ID (age_record mi now r) = f_ID r"
  "f_Module (age_record mi now r) = f_Module r"
  "f_FirstSeen (age_record mi now r) = f_FirstSeen r"
  "f_LastSeen (age_record mi now r) = f_LastSeen r"
  "r_AbsentStreak (age_record mi now r) = wrap64 (r_AbsentStreak r + 1)"
  by (simp_all add: age_record_def Let_def)

lemma age_record_status:
  "live r \<Longrightarrow> f_Status (age_record mi now r) = (if resolves mi r then StatusResolved else f_Status r)"
  "live r \<Longrightarrow> f_ResolvedAt (age_record mi now r) = (if resolves mi r then Some now else f_ResolvedAt r)"
  by (simp_all add: age_record_def Let_def resolves_def)

lemma stored_fields [simp]:
  "f_Fingerprint (stored nm r) = f_Fingerprint r" "f_Target (stored nm r) = f_Target r"
  "f_Check (stored nm r) = f_Check r" "f_Title (stored nm r) = f_Title r"
  "f_Severity (stored nm r) = f_Severity r" "f_Remediation (stored nm r) = f_Remediation r"
  "f_Evidence (stored nm r) = nm (f_Evidence r)" "f_ID (stored nm r) = f_ID r"
  "f_Module (stored nm r) = f_Module r" "f_Status (stored nm r) = f_Status r"
  "f_FirstSeen (stored nm r) = f_FirstSeen r" "f_LastSeen (stored nm r) = f_LastSeen r"
  "f_ResolvedAt (stored nm r) = f_ResolvedAt r" "r_AbsentStreak (stored nm r) = r_AbsentStreak r"
  by (simp_all add: stored_def)

lemma stored_id: "nm (f_Evidence r) = f_Evidence r \<Longrightarrow> stored nm r = r"
  by (simp add: stored_def)

lemma view_put_apply:
  "view_put V r m fp = (if m = f_Module r \<and> fp = f_Fingerprint r then Some r else V m fp)"
  by (simp add: view_put_def)

lemma same_identity_merge [simp]: "same_identity (merge_record now f p) p"
  by (simp add: same_identity_def)

lemma same_identity_age [simp]: "same_identity (age_record mi now r) r"
  by (simp add: same_identity_def)

lemma set_valid_fresh:
  "set (valid_fresh mar fs) = capEvidence mar ` {f \<in> set fs. ValidateForIngest f = None}"
  by (simp add: valid_fresh_def)

lemma valid_fresh_Cons [simp]:
  "valid_fresh mar (f # fs) =
     (if ValidateForIngest f = None then capEvidence mar f # valid_fresh mar fs else valid_fresh mar fs)"
  by (simp add: valid_fresh_def)

lemma valid_fresh_Nil [simp]: "valid_fresh mar [] = []"
  by (simp add: valid_fresh_def)

lemma gm_get_index_by_fingerprint:
  assumes "distinct (map f_Fingerprint rs)"
  shows "gm_get (index_by_fingerprint rs) fp = (if \<exists>r \<in> set rs. f_Fingerprint r = fp
     then find (\<lambda>r. f_Fingerprint r = fp) rs else None)"
proof -
  have "gm_get (foldl (\<lambda>m r. gm_set (f_Fingerprint r) r m) m0 rs) fp =
      (if \<exists>r \<in> set rs. f_Fingerprint r = fp then find (\<lambda>r. f_Fingerprint r = fp) rs else gm_get m0 fp)"
    for m0 using assms by (induction rs arbitrary: m0) (auto simp: image_iff)
  from this [of "[]"] show ?thesis by (simp add: index_by_fingerprint_def)
qed

lemma index_by_fingerprint_Some_iff:
  assumes "distinct (map f_Fingerprint rs)"
  shows "gm_get (index_by_fingerprint rs) fp = Some r \<longleftrightarrow> r \<in> set rs \<and> f_Fingerprint r = fp"
proof -
  have "find (\<lambda>r. f_Fingerprint r = fp) rs = Some r \<longleftrightarrow> r \<in> set rs \<and> f_Fingerprint r = fp"
    if "distinct (map f_Fingerprint rs)" for rs
    using that by (induction rs) (auto simp: image_iff)
  with assms show ?thesis by (auto simp: gm_get_index_by_fingerprint)
qed

lemma ids_freshD:
  "ids_fresh g now n V \<Longrightarrow> \<exists>i. g n now = Inr i \<and> id_unused V i"
  by (auto simp: ids_fresh_def)

lemma ids_fresh_put_new:
  assumes "ids_fresh g now n V" "g n now = Inr i" "f_ID r = i"
  shows "ids_fresh g now (Suc n) (view_put V r)"
  unfolding ids_fresh_def
proof (intro allI impI)
  fix k assume "Suc n \<le> k"
  then have "n \<le> k" by simp
  with assms(1) obtain j where j: "g k now = Inr j" "id_unused V j" "\<forall>l>k. g l now \<noteq> Inr j"
    by (auto simp: ids_fresh_def)
  from assms(1) obtain i' where "g n now = Inr i'" "\<forall>l>n. g l now \<noteq> Inr i'" by (auto simp: ids_fresh_def)
  with assms(2) j(1) \<open>Suc n \<le> k\<close> have "i \<noteq> j" by auto
  with j assms(3) show "\<exists>i. g k now = Inr i \<and> id_unused (view_put V r) i \<and> (\<forall>j>k. g j now \<noteq> Inr i)"
    by (auto simp: id_unused_def view_put_apply)
qed

lemma ids_fresh_put_old:
  assumes "ids_fresh g now n V" "V m fp = Some r0" "f_ID r = f_ID r0"
  shows "ids_fresh g now n (view_put V r)"
  using assms unfolding ids_fresh_def id_unused_def view_put_apply by (smt (verit) option.inject)

section \<open>Reconcile on every lawful store\<close>

text \<open>The bookkeeping that one step of the loop over the fresh findings leaves behind.\<close>

definition fresh_progress :: "'s rstate \<Rightarrow> finding \<Rightarrow> frecord option \<Rightarrow> frecord \<Rightarrow> 's rstate \<Rightarrow> bool" where
  "fresh_progress st f prev r st' \<longleftrightarrow>
     st_seen st' = f_Fingerprint f # st_seen st \<and>
     st_res st' = (st_res st)\<lparr>rr_NewlyOpen := rr_NewlyOpen (st_res st) @
       (if opens prev then [finding.truncate r] else [])\<rparr>"

context finding_store
begin

lemma fresh_one_invalid:
  "ValidateForIngest f = Some err \<Longrightarrow> fresh_one e mi now byFP st f =
     (st\<lparr>st_res := (st_res st)\<lparr>rr_Rejected := rr_Rejected (st_res st) @ [(f, err)]\<rparr>\<rparr>, None)"
  by (simp add: fresh_one_def)

lemma fresh_one_new:
  assumes "e_store e = I" "inv (st_store st)" "ids_fresh (e_newID e) now (st_ids st) (view (st_store st))"
    and "ValidateForIngest f = None" "gm_get byFP (f_Fingerprint f) = None"
    and "view (st_store st) (mi_ID mi) (f_Fingerprint f) = None"
    and "storable (f_Evidence (capEvidence (e_marshal e) f))" "named (mi_ID mi)"
  shows "\<exists>st' r. fresh_one e mi now byFP st f = (st', None) \<and> inv (st_store st') \<and>
     fresh_step (e_newID e) now (mi_ID mi) (capEvidence (e_marshal e) f) None r \<and>
     f_Module r = mi_ID mi \<and> f_Fingerprint r = f_Fingerprint f \<and>
     view (st_store st') = view_put (view (st_store st)) (stored nrm r) \<and>
     ids_fresh (e_newID e) now (st_ids st') (view (st_store st')) \<and>
     fresh_progress st f None r st'"
proof -
  from assms(3) obtain i where i: "e_newID e (st_ids st) now = Inr i" "id_unused (view (st_store st)) i"
    by (blast dest: ids_freshD)
  let ?r = "new_record (mi_ID mi) i now (capEvidence (e_marshal e) f)"
  obtain s' where s': "si_Upsert I (st_store st) ?r = Inr s'" "inv s'"
      "view s' = view_put (view (st_store st)) (stored nrm ?r)"
    using insert_law [of "st_store st" ?r] assms i(2) by auto
  have ids: "ids_fresh (e_newID e) now (Suc (st_ids st)) (view s')"
    unfolding s'(3) by (rule ids_fresh_put_new [OF assms(3) i(1)]) simp
  have step: "fresh_step (e_newID e) now (mi_ID mi) (capEvidence (e_marshal e) f) None ?r"
    using i(1) by (auto simp: fresh_step_def)
  show ?thesis
    by (intro exI [of _ "st\<lparr>st_seen := f_Fingerprint f # st_seen st, st_ids := Suc (st_ids st), st_store := s',
          st_res := (st_res st)\<lparr>rr_NewlyOpen := rr_NewlyOpen (st_res st) @ [finding.truncate ?r]\<rparr>\<rparr>"]
        exI [of _ ?r])
      (simp add: fresh_one_def Let_def assms i(1) s' ids [unfolded s'(3)] step fresh_progress_def opens_def)
qed

lemma fresh_one_old:
  assumes "e_store e = I" "inv (st_store st)" "ids_fresh (e_newID e) now (st_ids st) (view (st_store st))"
    and "ValidateForIngest f = None" "gm_get byFP (f_Fingerprint f) = Some p"
    and "view (st_store st) (mi_ID mi) (f_Fingerprint f) = Some p"
    and "storable (f_Evidence (capEvidence (e_marshal e) f))"
  shows "\<exists>st' r. fresh_one e mi now byFP st f = (st', None) \<and> inv (st_store st') \<and>
     fresh_step (e_newID e) now (mi_ID mi) (capEvidence (e_marshal e) f) (Some p) r \<and>
     f_Module r = mi_ID mi \<and> f_Fingerprint r = f_Fingerprint f \<and>
     view (st_store st') = view_put (view (st_store st)) (stored nrm r) \<and>
     ids_fresh (e_newID e) now (st_ids st') (view (st_store st')) \<and>
     fresh_progress st f (Some p) r st'"
proof -
  let ?r = "merge_record now (capEvidence (e_marshal e) f) p"
  have k: "f_Module p = mi_ID mi" "f_Fingerprint p = f_Fingerprint f"
    using keyed [OF assms(2,6)] by auto
  obtain s' where s': "si_Upsert I (st_store st) ?r = Inr s'" "inv s'"
      "view s' = view_put (view (st_store st)) (stored nrm ?r)"
    using update_law [of "st_store st" ?r p] assms k by auto
  have ids: "ids_fresh (e_newID e) now (st_ids st) (view s')"
    unfolding s'(3) by (rule ids_fresh_put_old [OF assms(3) assms(6)]) simp
  show ?thesis
    by (intro exI [of _ "st\<lparr>st_seen := f_Fingerprint f # st_seen st, st_store := s',
          st_res := (st_res st)\<lparr>rr_NewlyOpen := rr_NewlyOpen (st_res st) @
            (if opens (Some p) then [finding.truncate ?r] else [])\<rparr>\<rparr>"] exI [of _ ?r])
      (simp add: fresh_one_def Let_def assms s' ids [unfolded s'(3)] k fresh_progress_def opens_def fresh_step_def)
qed

lemma fresh_one_valid:
  assumes "e_store e = I" "inv (st_store st)" "ids_fresh (e_newID e) now (st_ids st) (view (st_store st))"
    and "ValidateForIngest f = None"
    and "gm_get byFP (f_Fingerprint f) = view (st_store st) (mi_ID mi) (f_Fingerprint f)"
    and "storable (f_Evidence (capEvidence (e_marshal e) f))" "named (mi_ID mi)"
  shows "\<exists>st' r. fresh_one e mi now byFP st f = (st', None) \<and> inv (st_store st') \<and>
     fresh_step (e_newID e) now (mi_ID mi) (capEvidence (e_marshal e) f) (gm_get byFP (f_Fingerprint f)) r \<and>
     f_Module r = mi_ID mi \<and> f_Fingerprint r = f_Fingerprint f \<and>
     view (st_store st') = view_put (view (st_store st)) (stored nrm r) \<and>
     ids_fresh (e_newID e) now (st_ids st') (view (st_store st')) \<and>
     fresh_progress st f (gm_get byFP (f_Fingerprint f)) r st'"
proof (cases "gm_get byFP (f_Fingerprint f)")
  case None
  with fresh_one_new [of e st now f byFP mi] assms show ?thesis by simp
next
  case (Some p)
  with fresh_one_old [of e st now f byFP p mi] assms show ?thesis by simp
qed

text \<open>
  The loop over the fresh findings: every valid one is written as \<open>fresh_step\<close> says, in their order, and
  nothing else changes.
\<close>

text \<open>What the loop over the fresh findings \<open>fs\<close> has done when it reaches \<open>st'\<close>; \<open>rs\<close> are the records it wrote for the valid ones \<open>vf\<close>.\<close>

definition fresh_result where
  "fresh_result newID mi now byFP st fs vf st' rs \<longleftrightarrow> inv (st_store st') \<and>
     set (st_seen st') = f_Fingerprint ` set vf \<union> set (st_seen st) \<and> rr_Resolved (st_res st') = rr_Resolved (st_res st) \<and>
     map fst (rr_Rejected (st_res st')) = map fst (rr_Rejected (st_res st)) @ filter (\<lambda>f. ValidateForIngest f \<noteq> None) fs \<and>
     list_all2 (\<lambda>f r. fresh_step newID now (mi_ID mi) f (gm_get byFP (f_Fingerprint f)) r \<and>
         view (st_store st') (mi_ID mi) (f_Fingerprint f) = Some (stored nrm r)) vf rs \<and>
     rr_NewlyOpen (st_res st') = rr_NewlyOpen (st_res st) @
       map (finding.truncate \<circ> snd) (filter (\<lambda>(f, r). opens (gm_get byFP (f_Fingerprint f))) (zip vf rs)) \<and>
     (\<forall>m fp. \<not> (m = mi_ID mi \<and> fp \<in> f_Fingerprint ` set vf) \<longrightarrow> view (st_store st') m fp = view (st_store st) m fp)"

lemma fresh_result_Cons:
  assumes one: "f_Fingerprint f' = f_Fingerprint f" "ValidateForIngest f = None"
      "fresh_step newID now (mi_ID mi) f' (gm_get byFP (f_Fingerprint f)) r" "f_Module r = mi_ID mi" "f_Fingerprint r = f_Fingerprint f"
      "view (st_store st1) = view_put (view (st_store st)) (stored nrm r)" "fresh_progress st f (gm_get byFP (f_Fingerprint f)) r st1"
    and notin: "f_Fingerprint f \<notin> f_Fingerprint ` set vf" and rest: "fresh_result newID mi now byFP st1 fs vf st' rs"
  shows "fresh_result newID mi now byFP st (f # fs) (f' # vf) st' (r # rs)"
proof -
  have v1: "view (st_store st1) m fp = (if m = mi_ID mi \<and> fp = f_Fingerprint f then Some (stored nrm r) else view (st_store st) m fp)" for m fp
    using one by (simp add: view_put_apply)
  have seen: "st_seen st1 = f_Fingerprint f # st_seen st"
    and res: "st_res st1 = (st_res st)\<lparr>rr_NewlyOpen := rr_NewlyOpen (st_res st) @
       (if opens (gm_get byFP (f_Fingerprint f)) then [finding.truncate r] else [])\<rparr>"
    using one(7) by (simp_all add: fresh_progress_def)
  have "view (st_store st') (mi_ID mi) (f_Fingerprint f) = Some (stored nrm r)" using rest notin v1 by (simp add: fresh_result_def)
  then show ?thesis using rest seen res v1 one(1-3) by (auto simp: fresh_result_def image_iff)
qed

lemma fresh_loop:
  assumes "e_store e = I" "inv (st_store st)" "ids_fresh (e_newID e) now (st_ids st) (view (st_store st))"
    and "vf = valid_fresh (e_marshal e) fs" "distinct (map f_Fingerprint vf)"
    and "\<forall>f \<in> set vf. gm_get byFP (f_Fingerprint f) = view (st_store st) (mi_ID mi) (f_Fingerprint f)"
    and "\<forall>f \<in> set vf. storable (f_Evidence f)" and "named (mi_ID mi)"
  shows "\<exists>st' rs. go_for (fresh_one e mi now byFP) st fs = (st', None) \<and> fresh_result (e_newID e) mi now byFP st fs vf st' rs"
  using assms(2-7)
proof (induction fs arbitrary: st vf)
  case Nil
  then show ?case by (simp add: fresh_result_def)
next
  case (Cons f fs)
  show ?case
  proof (cases "ValidateForIngest f")
    case (Some err)
    let ?st = "st\<lparr>st_res := (st_res st)\<lparr>rr_Rejected := rr_Rejected (st_res st) @ [(f, err)]\<rparr>\<rparr>"
    have vf: "vf = valid_fresh (e_marshal e) fs" using Cons.prems(3) Some by simp
    show ?thesis
      using Cons.IH [of ?st vf] Cons.prems vf by (simp add: fresh_one_invalid [OF Some] Some fresh_result_def)
  next
    case None
    let ?f = "capEvidence (e_marshal e) f" and ?vf = "valid_fresh (e_marshal e) fs"
    have vf: "vf = ?f # ?vf" using Cons.prems(3) None by simp
    have known: "gm_get byFP (f_Fingerprint f) = view (st_store st) (mi_ID mi) (f_Fingerprint f)" and ev: "storable (f_Evidence ?f)"
      using Cons.prems(5,6) vf by simp_all
    obtain st1 r where one: "fresh_one e mi now byFP st f = (st1, None)" "inv (st_store st1)"
        "fresh_step (e_newID e) now (mi_ID mi) ?f (gm_get byFP (f_Fingerprint f)) r" "f_Module r = mi_ID mi" "f_Fingerprint r = f_Fingerprint f"
        "view (st_store st1) = view_put (view (st_store st)) (stored nrm r)" "ids_fresh (e_newID e) now (st_ids st1) (view (st_store st1))"
        "fresh_progress st f (gm_get byFP (f_Fingerprint f)) r st1"
      using fresh_one_valid [OF assms(1) Cons.prems(1,2) None known ev assms(8)] by blast
    have notin: "f_Fingerprint f \<notin> f_Fingerprint ` set ?vf" using Cons.prems(4) vf by simp
    have tail: "distinct (map f_Fingerprint ?vf)" "\<forall>g \<in> set ?vf. storable (f_Evidence g)" using Cons.prems(4,6) vf by simp_all
    have idx: "\<forall>g \<in> set ?vf. gm_get byFP (f_Fingerprint g) = view (st_store st1) (mi_ID mi) (f_Fingerprint g)"
    proof
      fix g assume g: "g \<in> set ?vf"
      with notin have "f_Fingerprint g \<noteq> f_Fingerprint f" by (metis image_eqI)
      with g Cons.prems(5) vf one(4-6) show "gm_get byFP (f_Fingerprint g) = view (st_store st1) (mi_ID mi) (f_Fingerprint g)"
        by (simp add: view_put_apply)
    qed
    obtain st' rs where IH: "go_for (fresh_one e mi now byFP) st1 fs = (st', None)" "fresh_result (e_newID e) mi now byFP st1 fs ?vf st' rs"
      using Cons.IH [OF one(2) one(7) refl tail(1) idx tail(2)] by blast
    have "fresh_result (e_newID e) mi now byFP st (f # fs) vf st' (r # rs)"
      unfolding vf using fresh_result_Cons [OF _ None one(3-6,8) notin IH(2)] by simp
    then show ?thesis using one(1) IH(1) by auto
  qed
qed

text \<open>The loop over the stored findings: those not seen age, and the rest stay as they are.\<close>

lemma absent_one_step:
  assumes "e_store e = I" "inv (st_store st)"
    and "view (st_store st) (mi_ID mi) (f_Fingerprint r) = Some r"
  shows "\<exists>st'. absent_one e mi now st r = (st', None) \<and> inv (st_store st') \<and>
     st_seen st' = st_seen st \<and>
     st_res st' = (st_res st)\<lparr>rr_Resolved := rr_Resolved (st_res st) @
       (if f_Fingerprint r \<notin> set (st_seen st) \<and> resolves mi r
        then [finding.truncate (age_record mi now r)] else [])\<rparr> \<and>
     view (st_store st') =
       (if f_Fingerprint r \<notin> set (st_seen st) \<and> live r
        then view_put (view (st_store st)) (age_record mi now r) else view (st_store st))"
proof (cases "f_Fingerprint r \<notin> set (st_seen st) \<and> live r")
  case False
  with assms(2) show ?thesis by (auto simp: absent_one_def live_def resolves_def)
next
  case True
  let ?r = "age_record mi now r"
  have k: "f_Module r = mi_ID mi" "storable (f_Evidence r)" "nrm (f_Evidence r) = f_Evidence r"
    using keyed [OF assms(2,3)] by auto
  obtain s' where s': "si_Upsert I (st_store st) ?r = Inr s'" "inv s'"
      "view s' = view_put (view (st_store st)) (stored nrm ?r)"
    using update_law [of "st_store st" ?r r] assms k by auto
  have "stored nrm ?r = ?r" using k by (simp add: stored_id)
  with True s' assms(1) show ?thesis by (simp add: absent_one_def Let_def live_def resolves_def)
qed

text \<open>How the view after the absence of \<open>r\<close> and then of \<open>rs\<close> comes about; \<open>seen\<close> are the fingerprints that were reported.\<close>

definition aged_view where
  "aged_view mi now seen v rs m fp =
     (case find (\<lambda>r. f_Fingerprint r = fp \<and> m = mi_ID mi \<and> fp \<notin> seen \<and> live r) rs of
        Some r \<Rightarrow> Some (age_record mi now r) | None \<Rightarrow> v m fp)"

lemma aged_view_Cons:
  assumes "v1 = (if live r then view_put v (age_record mi now r) else v)" "f_Module r = mi_ID mi" "v (mi_ID mi) (f_Fingerprint r) = Some r"
    and "f_Fingerprint r \<notin> seen" "f_Fingerprint r \<notin> f_Fingerprint ` set rs"
  shows "aged_view mi now seen v1 rs m fp = aged_view mi now seen v (r # rs) m fp"
proof (cases "m = mi_ID mi \<and> fp = f_Fingerprint r")
  case True
  have "find (\<lambda>q. f_Fingerprint q = f_Fingerprint r \<and> P q) rs = None" for P
    using assms(5) by (auto simp: find_None_iff image_iff)
  with True assms show ?thesis by (simp add: aged_view_def view_put_apply)
next
  case False
  then have "v1 m fp = v m fp" using assms(1,2) by (auto simp: view_put_apply)
  moreover have "\<not> (f_Fingerprint r = fp \<and> m = mi_ID mi \<and> fp \<notin> seen \<and> live r)" using False by blast
  ultimately show ?thesis by (simp only: aged_view_def find.simps if_False)
qed

lemma aged_view_seen: "fp \<in> seen \<Longrightarrow> aged_view mi now seen v rs m fp = v m fp"
  by (auto simp: aged_view_def find_Some_iff split: option.split)

lemma aged_view_unseen:
  assumes "m = mi_ID mi \<longrightarrow> fp \<notin> seen"
  shows "aged_view mi now seen v rs m fp =
    (case find (\<lambda>r. f_Fingerprint r = fp \<and> m = mi_ID mi \<and> live r) rs of Some r \<Rightarrow> Some (age_record mi now r) | None \<Rightarrow> v m fp)"
proof -
  have "(\<lambda>r. f_Fingerprint r = fp \<and> m = mi_ID mi \<and> fp \<notin> seen \<and> live r) = (\<lambda>r. f_Fingerprint r = fp \<and> m = mi_ID mi \<and> live r)"
    using assms by auto
  then show ?thesis by (simp only: aged_view_def)
qed

lemma absent_loop:
  assumes "e_store e = I" "inv (st_store st)" "distinct (map f_Fingerprint rs)"
    and "\<forall>r \<in> set rs. view (st_store st) (mi_ID mi) (f_Fingerprint r) = Some r \<or> f_Fingerprint r \<in> set (st_seen st)"
  shows "\<exists>st'. go_for (absent_one e mi now) st rs = (st', None) \<and> inv (st_store st') \<and>
     st_seen st' = st_seen st \<and>
     st_res st' = (st_res st)\<lparr>rr_Resolved := rr_Resolved (st_res st) @
       map (finding.truncate \<circ> age_record mi now)
         (filter (\<lambda>r. f_Fingerprint r \<notin> set (st_seen st) \<and> resolves mi r) rs)\<rparr> \<and>
     (\<forall>m fp. view (st_store st') m fp = aged_view mi now (set (st_seen st)) (view (st_store st)) rs m fp)"
  using assms(2-4)
proof (induction rs arbitrary: st)
  case Nil
  then show ?case by (simp add: aged_view_def)
next
  case (Cons r rs)
  show ?case
  proof (cases "f_Fingerprint r \<in> set (st_seen st)")
    case True
    then have "absent_one e mi now st r = (st, None)" by (simp add: absent_one_def)
    moreover have "aged_view mi now (set (st_seen st)) v (r # rs) m fp = aged_view mi now (set (st_seen st)) v rs m fp" for v m fp
      using True by (auto simp: aged_view_def)
    ultimately show ?thesis using True Cons.IH [of st] Cons.prems by auto
  next
    case False
    then have v: "view (st_store st) (mi_ID mi) (f_Fingerprint r) = Some r" using Cons.prems(3) by simp
    then have md: "f_Module r = mi_ID mi" using keyed [OF Cons.prems(1)] by blast
    obtain st1 where one: "absent_one e mi now st r = (st1, None)" "inv (st_store st1)"
        "st_seen st1 = st_seen st"
        "st_res st1 = (st_res st)\<lparr>rr_Resolved := rr_Resolved (st_res st) @
           (if resolves mi r then [finding.truncate (age_record mi now r)] else [])\<rparr>"
        "view (st_store st1) = (if live r
           then view_put (view (st_store st)) (age_record mi now r) else view (st_store st))"
      using absent_one_step [OF assms(1) Cons.prems(1) v, of now] False by auto
    have keep: "view (st_store st1) m fp = view (st_store st) m fp"
      if "m \<noteq> mi_ID mi \<or> fp \<noteq> f_Fingerprint r" for m fp
      using that one(5) md by (auto simp: view_put_apply)
    have notin: "f_Fingerprint r \<notin> f_Fingerprint ` set rs" using Cons.prems(2) by simp
    have rest: "\<forall>q \<in> set rs. view (st_store st1) (mi_ID mi) (f_Fingerprint q) = Some q \<or>
        f_Fingerprint q \<in> set (st_seen st1)"
    proof
      fix q assume "q \<in> set rs"
      with notin have "f_Fingerprint q \<noteq> f_Fingerprint r" by (metis image_eqI)
      with keep [of "mi_ID mi" "f_Fingerprint q"] Cons.prems(3) \<open>q \<in> set rs\<close> one(3)
      show "view (st_store st1) (mi_ID mi) (f_Fingerprint q) = Some q \<or> f_Fingerprint q \<in> set (st_seen st1)"
        by simp
    qed
    have dist: "distinct (map f_Fingerprint rs)" using Cons.prems(2) by simp
    obtain st' where IH: "go_for (absent_one e mi now) st1 rs = (st', None)" "inv (st_store st')"
        "st_seen st' = st_seen st1"
        "st_res st' = (st_res st1)\<lparr>rr_Resolved := rr_Resolved (st_res st1) @
           map (finding.truncate \<circ> age_record mi now)
             (filter (\<lambda>r. f_Fingerprint r \<notin> set (st_seen st1) \<and> resolves mi r) rs)\<rparr>"
        "\<forall>m fp. view (st_store st') m fp = aged_view mi now (set (st_seen st1)) (view (st_store st1)) rs m fp"
      using Cons.IH [OF one(2) dist rest] by blast
    have "view (st_store st') m fp = aged_view mi now (set (st_seen st)) (view (st_store st)) (r # rs) m fp" for m fp
      using IH(5) one(3) aged_view_Cons [OF one(5) md v False notin] by simp
    with IH one False show ?thesis by auto
  qed
qed

lemma index_agrees:
  assumes "inv s" "distinct (map f_Fingerprint rs)"
    and "\<forall>r. r \<in> set rs \<longleftrightarrow> view s m (f_Fingerprint r) = Some r \<and> f_Target r = tgt"
    and "\<forall>r. view s m fp = Some r \<longrightarrow> f_Target r = tgt"
  shows "gm_get (index_by_fingerprint rs) fp = view s m fp"
proof (cases "view s m fp")
  case None
  then have "gm_get (index_by_fingerprint rs) fp \<noteq> Some r" for r
    using assms(3) by (auto simp: index_by_fingerprint_Some_iff [OF assms(2)])
  with None show ?thesis by (cases "gm_get (index_by_fingerprint rs) fp") auto
next
  case (Some r)
  with assms(3,4) keyed [OF assms(1) Some] have "gm_get (index_by_fingerprint rs) fp = Some r"
    by (auto simp: index_by_fingerprint_Some_iff [OF assms(2)])
  with Some show ?thesis by simp
qed

text \<open>The two loops together: \<open>qs\<close> are the records written for the valid fresh findings.\<close>

lemma reconcile_phases:
  assumes e: "e_store e = I" and s: "inv s" and ids: "ids_fresh (e_newID e) now n (view s)"
    and vf: "vf = valid_fresh (e_marshal e) fresh" and dist: "distinct (map f_Fingerprint vf)"
    and own: "\<forall>f \<in> set vf. \<forall>r. view s (mi_ID mi) (f_Fingerprint f) = Some r \<longrightarrow> f_Target r = tgt"
    and ev: "\<forall>f \<in> set vf. storable (f_Evidence f)" and nm: "named (mi_ID mi)"
  obtains st qs rs where
    "Reconcile e mi tgt fresh now s n = (st, None)" "inv (st_store st)"
    "distinct (map f_Fingerprint rs)"
    "\<forall>r. r \<in> set rs \<longleftrightarrow> view s (mi_ID mi) (f_Fingerprint r) = Some r \<and> f_Target r = tgt"
    "list_all2 (\<lambda>f r. fresh_step (e_newID e) now (mi_ID mi) f (view s (mi_ID mi) (f_Fingerprint f)) r \<and>
       view (st_store st) (mi_ID mi) (f_Fingerprint f) = Some (stored nrm r)) vf qs"
    "st_res st = \<lparr>rr_NewlyOpen = map (finding.truncate \<circ> snd)
         (filter (\<lambda>(f, r). opens (view s (mi_ID mi) (f_Fingerprint f))) (zip vf qs)),
       rr_Resolved = map (finding.truncate \<circ> age_record mi now)
         (filter (\<lambda>r. f_Fingerprint r \<notin> f_Fingerprint ` set vf \<and> resolves mi r) rs),
       rr_Rejected = rr_Rejected (st_res st)\<rparr>"
    "map fst (rr_Rejected (st_res st)) = filter (\<lambda>f. ValidateForIngest f \<noteq> None) fresh"
    "\<forall>m fp. \<not> (m = mi_ID mi \<and> fp \<in> f_Fingerprint ` set vf) \<longrightarrow> view (st_store st) m fp =
       (case find (\<lambda>r. f_Fingerprint r = fp \<and> m = mi_ID mi \<and> live r) rs of
          Some r \<Rightarrow> Some (age_record mi now r) | None \<Rightarrow> view s m fp)"
proof -
  let ?m = "mi_ID mi" and ?S = "f_Fingerprint ` set vf"
  obtain rs where rs: "si_ListByTarget I s ?m tgt = Inr rs" "distinct (map f_Fingerprint rs)"
      "\<forall>r. r \<in> set rs \<longleftrightarrow> view s ?m (f_Fingerprint r) = Some r \<and> f_Target r = tgt"
    using list_law [OF s] by blast
  let ?st0 = "\<lparr>st_store = s, st_ids = n, st_seen = [],
      st_res = \<lparr>rr_NewlyOpen = [], rr_Resolved = [], rr_Rejected = []\<rparr>\<rparr>"
  let ?by = "index_by_fingerprint rs"
  have idx: "\<forall>f \<in> set vf. gm_get ?by (f_Fingerprint f) = view s ?m (f_Fingerprint f)"
    using own index_agrees [OF s rs(2,3)] by blast
  obtain st1 qs where A: "go_for (fresh_one e mi now ?by) ?st0 fresh = (st1, None)" "inv (st_store st1)"
      "set (st_seen st1) = ?S" "rr_Resolved (st_res st1) = []"
      "map fst (rr_Rejected (st_res st1)) = filter (\<lambda>f. ValidateForIngest f \<noteq> None) fresh"
      "list_all2 (\<lambda>f r. fresh_step (e_newID e) now ?m f (gm_get ?by (f_Fingerprint f)) r \<and>
         view (st_store st1) ?m (f_Fingerprint f) = Some (stored nrm r)) vf qs"
      "rr_NewlyOpen (st_res st1) = map (finding.truncate \<circ> snd)
         (filter (\<lambda>(f, r). opens (gm_get ?by (f_Fingerprint f))) (zip vf qs))"
      "\<forall>m fp. \<not> (m = ?m \<and> fp \<in> ?S) \<longrightarrow> view (st_store st1) m fp = view s m fp"
    using fresh_loop [OF e, of ?st0 now vf fresh ?by mi] s ids vf dist idx ev nm by (auto simp: fresh_result_def)
  have live_rs: "\<forall>r \<in> set rs. view (st_store st1) ?m (f_Fingerprint r) = Some r \<or>
      f_Fingerprint r \<in> set (st_seen st1)"
    using A(3,8) rs(3) by auto
  obtain st where B: "go_for (absent_one e mi now) st1 rs = (st, None)" "inv (st_store st)"
      "st_res st = (st_res st1)\<lparr>rr_Resolved := map (finding.truncate \<circ> age_record mi now)
         (filter (\<lambda>r. f_Fingerprint r \<notin> ?S \<and> resolves mi r) rs)\<rparr>"
      "\<forall>m fp. view (st_store st) m fp = aged_view mi now ?S (view (st_store st1)) rs m fp"
    using absent_loop [OF e A(2) rs(2) live_rs, of now] A(3,4) by auto
  have seen: "view (st_store st) ?m fp = view (st_store st1) ?m fp" if "fp \<in> ?S" for fp
    using B(4) that by (simp add: aged_view_seen)
  have opn: "filter (\<lambda>(f, r). opens (gm_get ?by (f_Fingerprint f))) (zip vf qs) =
      filter (\<lambda>(f, r). opens (view s ?m (f_Fingerprint f))) (zip vf qs)"
    by (rule filter_cong) (auto simp: idx dest: set_zip_leftD)
  show thesis
  proof (rule that)
    show "Reconcile e mi tgt fresh now s n = (st, None)"
      by (simp add: Reconcile_def Let_def e rs(1) A(1) B(1))
    show "list_all2 (\<lambda>f r. fresh_step (e_newID e) now ?m f (view s ?m (f_Fingerprint f)) r \<and>
       view (st_store st) ?m (f_Fingerprint f) = Some (stored nrm r)) vf qs"
      using A(6) by (rule list.rel_mono_strong) (auto simp: idx seen)
    show "st_res st = \<lparr>rr_NewlyOpen = map (finding.truncate \<circ> snd)
         (filter (\<lambda>(f, r). opens (view s (mi_ID mi) (f_Fingerprint f))) (zip vf qs)),
       rr_Resolved = map (finding.truncate \<circ> age_record mi now)
         (filter (\<lambda>r. f_Fingerprint r \<notin> ?S \<and> resolves mi r) rs),
       rr_Rejected = rr_Rejected (st_res st)\<rparr>"
      using B(3) A(7) opn by simp
    show "map fst (rr_Rejected (st_res st)) = filter (\<lambda>f. ValidateForIngest f \<noteq> None) fresh"
      using B(3) A(5) by simp
    show "\<forall>m fp. \<not> (m = ?m \<and> fp \<in> ?S) \<longrightarrow> view (st_store st) m fp =
       (case find (\<lambda>r. f_Fingerprint r = fp \<and> m = ?m \<and> live r) rs of
          Some r \<Rightarrow> Some (age_record mi now r) | None \<Rightarrow> view s m fp)"
      using A(8) B(4) by (auto simp: aged_view_unseen cong: option.case_cong)
  qed (use rs B in auto)
qed

lemma find_by_key:
  assumes s: "inv s" and rs: "\<forall>r. r \<in> set rs \<longleftrightarrow> view s m (f_Fingerprint r) = Some r \<and> f_Target r = tgt"
  shows "find (\<lambda>r. f_Fingerprint r = fp \<and> live r) rs = (case view s m fp of None \<Rightarrow> None
     | Some r \<Rightarrow> if f_Target r = tgt \<and> live r then Some r else None)"
proof -
  have hit: "view s m fp = Some r \<and> f_Target r = tgt \<and> live r"
    if "find (\<lambda>r. f_Fingerprint r = fp \<and> live r) rs = Some r" for r
  proof -
    from that have "r \<in> set rs" "f_Fingerprint r = fp" "live r" by (auto simp: find_Some_iff)
    with rs show ?thesis by auto
  qed
  have miss: "f_Target r \<noteq> tgt \<or> \<not> live r"
    if "find (\<lambda>r. f_Fingerprint r = fp \<and> live r) rs = None" "view s m fp = Some r" for r
    using that rs keyed [OF s that(2)] by (auto simp: find_None_iff)
  show ?thesis
    by (cases "find (\<lambda>r. f_Fingerprint r = fp \<and> live r) rs"; cases "view s m fp") (auto dest: hit miss)
qed

text \<open>What the two loops leave under one key is what \<open>after_scan\<close> says.\<close>

lemma after_scan_intro:
  assumes s: "inv s" and dist: "distinct (map f_Fingerprint vf)"
    and rs: "\<forall>r. r \<in> set rs \<longleftrightarrow> view s (mi_ID mi) (f_Fingerprint r) = Some r \<and> f_Target r = tgt"
    and written: "list_all2 (\<lambda>f r. fresh_step g now (mi_ID mi) f (view s (mi_ID mi) (f_Fingerprint f)) r \<and>
       view s' (mi_ID mi) (f_Fingerprint f) = Some (stored nrm r)) vf qs"
    and kept: "\<forall>m fp. \<not> (m = mi_ID mi \<and> fp \<in> f_Fingerprint ` set vf) \<longrightarrow> view s' m fp =
       (case find (\<lambda>r. f_Fingerprint r = fp \<and> m = mi_ID mi \<and> live r) rs of
          Some r \<Rightarrow> Some (age_record mi now r) | None \<Rightarrow> view s m fp)"
  shows "after_scan g nrm mi now tgt vf m fp (view s m fp) (view s' m fp)"
proof (cases "m = mi_ID mi")
  case False
  then have "find (\<lambda>r. f_Fingerprint r = fp \<and> m = mi_ID mi \<and> live r) rs = None" by (simp add: find_None_iff)
  with False kept show ?thesis by (simp add: after_scan_def)
next
  case m: True
  show ?thesis
  proof (cases "find (\<lambda>f. f_Fingerprint f = fp) vf")
    case (Some f)
    then have f: "f \<in> set vf" "f_Fingerprint f = fp" by (auto simp: find_Some_iff)
    then obtain i where i: "i < length vf" "vf ! i = f" by (auto simp: in_set_conv_nth)
    with written have "fresh_step g now (mi_ID mi) f (view s (mi_ID mi) fp) (qs ! i) \<and>
        view s' (mi_ID mi) fp = Some (stored nrm (qs ! i))"
      using f(2) by (auto simp: list_all2_conv_all_nth)
    with m Some show ?thesis by (auto simp: after_scan_def)
  next
    case None
    then have no: "fp \<notin> f_Fingerprint ` set vf" by (auto simp: find_None_iff)
    let ?find = "find (\<lambda>r. f_Fingerprint r = fp \<and> live r) rs"
    have "view s' m fp = (case ?find of Some r \<Rightarrow> Some (age_record mi now r) | None \<Rightarrow> view s m fp)"
      using kept no m by (simp split: option.split)
    moreover have "?find = (case view s m fp of None \<Rightarrow> None
        | Some r \<Rightarrow> if f_Target r = tgt \<and> live r then Some r else None)"
      by (rule find_by_key [OF s rs [folded m]])
    ultimately show ?thesis using m None
      by (auto simp: after_scan_def split: option.splits if_splits)
  qed
qed

text \<open>
  The effect of \<^verbatim>\<open>Reconcile\<close>: the run succeeds; every key holds what \<open>after_scan\<close> says; the findings
  announced as newly open are those that were new or resolved, in the order of the scan, as they were
  written; the findings announced as resolved are the live ones of the target that the scan did not
  report and whose absences reached the threshold.
\<close>

lemma reconcile_effect:
  assumes e: "e_store e = I" and s: "inv s" and ids: "ids_fresh (e_newID e) now n (view s)"
    and vf: "vf = valid_fresh (e_marshal e) fresh" and dist: "distinct (map f_Fingerprint vf)"
    and own: "\<forall>f \<in> set vf. \<forall>r. view s (mi_ID mi) (f_Fingerprint f) = Some r \<longrightarrow> f_Target r = tgt"
    and ev: "\<forall>f \<in> set vf. storable (f_Evidence f)" and nm: "named (mi_ID mi)"
  shows "\<exists>st. Reconcile e mi tgt fresh now s n = (st, None) \<and> inv (st_store st) \<and>
     (\<forall>m fp. after_scan (e_newID e) nrm mi now tgt vf m fp (view s m fp) (view (st_store st) m fp)) \<and>
     map f_Fingerprint (rr_NewlyOpen (st_res st)) =
       map f_Fingerprint (filter (\<lambda>f. opens (view s (mi_ID mi) (f_Fingerprint f))) vf) \<and>
     (\<forall>q \<in> set (rr_NewlyOpen (st_res st)). \<exists>r. q = finding.truncate r \<and>
        view (st_store st) (mi_ID mi) (f_Fingerprint q) = Some (stored nrm r)) \<and>
     set (rr_Resolved (st_res st)) = {finding.truncate (age_record mi now r) |r.
        view s (mi_ID mi) (f_Fingerprint r) = Some r \<and> f_Target r = tgt \<and>
        f_Fingerprint r \<notin> f_Fingerprint ` set vf \<and> resolves mi r} \<and>
     distinct (map f_Fingerprint (rr_Resolved (st_res st))) \<and>
     map fst (rr_Rejected (st_res st)) = filter (\<lambda>f. ValidateForIngest f \<noteq> None) fresh"
proof -
  let ?m = "mi_ID mi"
  obtain st qs rs where P: "Reconcile e mi tgt fresh now s n = (st, None)" "inv (st_store st)"
    "distinct (map f_Fingerprint rs)"
    "\<forall>r. r \<in> set rs \<longleftrightarrow> view s ?m (f_Fingerprint r) = Some r \<and> f_Target r = tgt"
    "list_all2 (\<lambda>f r. fresh_step (e_newID e) now ?m f (view s ?m (f_Fingerprint f)) r \<and>
       view (st_store st) ?m (f_Fingerprint f) = Some (stored nrm r)) vf qs"
    "st_res st = \<lparr>rr_NewlyOpen = map (finding.truncate \<circ> snd)
         (filter (\<lambda>(f, r). opens (view s ?m (f_Fingerprint f))) (zip vf qs)),
       rr_Resolved = map (finding.truncate \<circ> age_record mi now)
         (filter (\<lambda>r. f_Fingerprint r \<notin> f_Fingerprint ` set vf \<and> resolves mi r) rs),
       rr_Rejected = rr_Rejected (st_res st)\<rparr>"
    "map fst (rr_Rejected (st_res st)) = filter (\<lambda>f. ValidateForIngest f \<noteq> None) fresh"
    "\<forall>m fp. \<not> (m = ?m \<and> fp \<in> f_Fingerprint ` set vf) \<longrightarrow> view (st_store st) m fp =
       (case find (\<lambda>r. f_Fingerprint r = fp \<and> m = ?m \<and> live r) rs of
          Some r \<Rightarrow> Some (age_record mi now r) | None \<Rightarrow> view s m fp)"
    by (rule reconcile_phases [OF e s ids vf dist own ev nm])
  have open_eq: "rr_NewlyOpen (st_res st) = map (finding.truncate \<circ> snd)
      (filter (\<lambda>(f, r). opens (view s ?m (f_Fingerprint f))) (zip vf qs))"
    and res_eq: "rr_Resolved (st_res st) = map (finding.truncate \<circ> age_record mi now)
      (filter (\<lambda>r. f_Fingerprint r \<notin> f_Fingerprint ` set vf \<and> resolves mi r) rs)"
    by (subst P(6), simp)+
  have fps: "list_all2 (\<lambda>f r. f_Fingerprint r = f_Fingerprint f) vf qs"
    using P(5) by (rule list.rel_mono_strong)
      (auto simp: fresh_step_def split: option.splits dest: keyed [OF s])
  have "map f_Fingerprint (map (finding.truncate \<circ> snd) (filter (\<lambda>(f, r). Q f) (zip vf qs))) =
      map f_Fingerprint (filter Q vf)" for Q
    using fps by (induction vf qs rule: list_all2_induct) (auto simp: finding.defs)
  then have opn: "map f_Fingerprint (rr_NewlyOpen (st_res st)) =
      map f_Fingerprint (filter (\<lambda>f. opens (view s ?m (f_Fingerprint f))) vf)"
    by (simp only: open_eq)
  have ann: "\<exists>r. q = finding.truncate r \<and> view (st_store st) ?m (f_Fingerprint q) = Some (stored nrm r)"
    if "q \<in> set (rr_NewlyOpen (st_res st))" for q
  proof -
    from that obtain f r where fr: "(f, r) \<in> set (zip vf qs)" "q = finding.truncate r"
      by (auto simp: open_eq)
    with P(5) fps have "view (st_store st) ?m (f_Fingerprint f) = Some (stored nrm r)"
      "f_Fingerprint r = f_Fingerprint f" by (auto simp: list_all2_iff)
    with fr(2) show ?thesis by (intro exI [of _ r]) (simp add: finding.defs)
  qed
  have scan: "after_scan (e_newID e) nrm mi now tgt vf m fp (view s m fp) (view (st_store st) m fp)" for m fp
    by (rule after_scan_intro [OF s dist P(4,5,8)])
  have "distinct (map f_Fingerprint (rr_Resolved (st_res st)))"
    unfolding res_eq using P(3) by (simp add: finding.defs comp_def distinct_map_filter)
  moreover have "set (rr_Resolved (st_res st)) = {finding.truncate (age_record mi now r) |r.
        view s ?m (f_Fingerprint r) = Some r \<and> f_Target r = tgt \<and>
        f_Fingerprint r \<notin> f_Fingerprint ` set vf \<and> resolves mi r}"
    unfolding res_eq using P(4) by auto
  ultimately show ?thesis using P(1,2,7) opn ann scan by (intro exI [of _ st]) simp
qed

end

section \<open>What a scan leaves alone, whatever happens\<close>

text \<open>The fingerprints of the valid fresh findings.\<close>

definition reported :: "((string \<times> gany) list \<Rightarrow> string option) \<Rightarrow> finding list \<Rightarrow> string set" where
  "reported mar fresh = f_Fingerprint ` set (valid_fresh mar fresh)"

lemma reported_eq: "reported mar fresh = f_Fingerprint ` {f \<in> set fresh. ValidateForIngest f = None}"
  by (simp add: reported_def set_valid_fresh image_image)

lemma fresh_one_seen:
  "fresh_one e mi now byFP st f = (st', None) \<Longrightarrow>
     st_seen st' = (if ValidateForIngest f = None then f_Fingerprint f # st_seen st else st_seen st)"
  by (auto simp: fresh_one_def Let_def split: option.splits sum.splits if_splits)

lemma fresh_loop_seen:
  "go_for (fresh_one e mi now byFP) st fs = (st', None) \<Longrightarrow>
     set (st_seen st') = reported (e_marshal e) fs \<union> set (st_seen st)"
proof (induction fs arbitrary: st)
  case Nil
  then show ?case by (simp add: reported_eq)
next
  case (Cons f fs)
  then obtain st1 where one: "fresh_one e mi now byFP st f = (st1, None)"
      and rest: "go_for (fresh_one e mi now byFP) st1 fs = (st', None)"
    by (auto split: prod.splits option.splits)
  from Cons.IH [OF rest] fresh_one_seen [OF one] show ?case by (auto simp: reported_def)
qed

context finding_store
begin

text \<open>Agreement of a store with an earlier one outside the fingerprints \<open>F\<close> of module \<open>m\<close>.\<close>

definition kept :: "string \<Rightarrow> string set \<Rightarrow> 's \<Rightarrow> 's \<Rightarrow> bool" where
  "kept m F s s' \<longleftrightarrow> inv s' \<and> (\<forall>m' fp. m' \<noteq> m \<or> fp \<notin> F \<longrightarrow> view s' m' fp = view s m' fp)"

lemma kept_upsert:
  assumes "kept m F s s1" "named m" "f_Module r = m" "f_Fingerprint r \<in> F" "si_Upsert I s1 r = Inr s2"
  shows "kept m F s s2"
proof -
  have "inv s1" using assms(1) by (simp add: kept_def)
  with frame_law [of s1 r s2] assms have "inv s2" and
    "\<forall>m' fp. m' \<noteq> m \<or> fp \<noteq> f_Fingerprint r \<longrightarrow> view s2 m' fp = view s1 m' fp" by auto
  with assms(1,4) show ?thesis unfolding kept_def by metis
qed

lemma fresh_one_kept:
  assumes "kept m F s (st_store st)" "m = mi_ID mi" "named m" "e_store e = I"
    and "ValidateForIngest f = None \<Longrightarrow> f_Fingerprint f \<in> F"
    and "\<And>p. gm_get byFP (f_Fingerprint f) = Some p \<Longrightarrow> f_Module p = m \<and> f_Fingerprint p = f_Fingerprint f"
    and "fresh_one e mi now byFP st f = (st', res)"
  shows "kept m F s (st_store st')"
proof (cases "ValidateForIngest f")
  case (Some err)
  with assms(1,7) show ?thesis by (auto simp: fresh_one_def)
next
  case valid: None
  show ?thesis
  proof (cases "gm_get byFP (f_Fingerprint f)")
    case None
    with valid assms(7) show ?thesis
      using kept_upsert [OF assms(1,3), of "new_record m i now (capEvidence (e_marshal e) f)" for i] assms(1-5)
      by (auto simp: fresh_one_def Let_def split: sum.splits)
  next
    case (Some p)
    with valid assms(7) show ?thesis
      using kept_upsert [OF assms(1,3), of "merge_record now (capEvidence (e_marshal e) f) p"] assms(1-6)
      by (auto simp: fresh_one_def Let_def split: sum.splits if_splits)
  qed
qed

lemma absent_one_kept:
  assumes "kept m F s (st_store st)" "m = mi_ID mi" "named m" "e_store e = I"
    and "f_Module r = m" "f_Fingerprint r \<in> F" "absent_one e mi now st r = (st', res)"
  shows "kept m F s (st_store st')"
  using assms(7) kept_upsert [OF assms(1,3), of "age_record mi now r"] assms(1-6)
  by (auto simp: absent_one_def Let_def split: sum.splits if_splits)

lemma fresh_loop_kept:
  assumes "kept (mi_ID mi) F s (st_store st)" "named (mi_ID mi)" "e_store e = I"
    and "reported (e_marshal e) fs \<subseteq> F"
    and "\<And>fp p. gm_get byFP fp = Some p \<Longrightarrow> f_Module p = mi_ID mi \<and> f_Fingerprint p = fp"
  shows "kept (mi_ID mi) F s (st_store (fst (go_for (fresh_one e mi now byFP) st fs)))"
proof (rule go_for_invariant [where P = "\<lambda>st. kept (mi_ID mi) F s (st_store st)"])
  show "kept (mi_ID mi) F s (st_store st)" by fact
  show "kept (mi_ID mi) F s (st_store st')"
    if "kept (mi_ID mi) F s (st_store st)" "f \<in> set fs" "fresh_one e mi now byFP st f = (st', r)" for st f st' r
    by (rule fresh_one_kept [OF that(1) refl assms(2,3) _ _ that(3)])
      (use assms(4,5) that(2) in \<open>auto simp: reported_eq\<close>)
qed

lemma absent_loop_kept:
  assumes "kept (mi_ID mi) F s (st_store st)" "named (mi_ID mi)" "e_store e = I"
    and "\<And>r. r \<in> set rs \<Longrightarrow> f_Module r = mi_ID mi \<and> f_Fingerprint r \<in> F"
  shows "kept (mi_ID mi) F s (st_store (fst (go_for (absent_one e mi now) st rs)))"
proof (rule go_for_invariant [where P = "\<lambda>st. kept (mi_ID mi) F s (st_store st)"])
  show "kept (mi_ID mi) F s (st_store st)" by fact
  show "kept (mi_ID mi) F s (st_store st')"
    if "kept (mi_ID mi) F s (st_store st)" "q \<in> set rs" "absent_one e mi now st q = (st', r)" for st q st' r
    by (rule absent_one_kept [OF that(1) refl assms(2,3) _ _ that(3)]) (use assms(4) that(2) in auto)
qed

lemma existing_keyed:
  assumes "inv s" "\<forall>r. r \<in> set rs \<longleftrightarrow> view s m (f_Fingerprint r) = Some r \<and> f_Target r = tgt"
    and "r \<in> set rs"
  shows "f_Module r = m"
  using assms keyed by blast

text \<open>
  Whether or not \<^verbatim>\<open>Reconcile\<close> succeeds, the store stays well formed, and a finding of another module, or
  one of another target that the scan did not report, is not touched.
\<close>

lemma reconcile_frame:
  assumes e: "e_store e = I" and s: "inv s" and nm: "named (mi_ID mi)"
    and run: "Reconcile e mi tgt fresh now s n = (st, res)"
  shows "inv (st_store st)"
    and "m \<noteq> mi_ID mi \<or> fp \<notin> reported (e_marshal e) fresh \<and> (\<forall>r. view s m fp = Some r \<longrightarrow> f_Target r \<noteq> tgt) \<Longrightarrow>
      view (st_store st) m fp = view s m fp"
proof -
  obtain rs where rs: "si_ListByTarget I s (mi_ID mi) tgt = Inr rs" "distinct (map f_Fingerprint rs)"
      "\<forall>r. r \<in> set rs \<longleftrightarrow> view s (mi_ID mi) (f_Fingerprint r) = Some r \<and> f_Target r = tgt"
    using list_law [OF s] by blast
  let ?F = "reported (e_marshal e) fresh \<union> f_Fingerprint ` set rs"
  let ?by = "index_by_fingerprint rs"
  let ?st0 = "\<lparr>st_store = s, st_ids = n, st_seen = [],
      st_res = \<lparr>rr_NewlyOpen = [], rr_Resolved = [], rr_Rejected = []\<rparr>\<rparr>"
  obtain st1 r1 where loop1: "go_for (fresh_one e mi now ?by) ?st0 fresh = (st1, r1)" by fastforce
  have mods: "f_Module r = mi_ID mi" if "r \<in> set rs" for r
    by (rule existing_keyed [OF s rs(3) that])
  have by_ok: "f_Module p = mi_ID mi \<and> f_Fingerprint p = fp" if "gm_get ?by fp = Some p" for fp p
    using that mods by (simp add: index_by_fingerprint_Some_iff [OF rs(2)])
  have k0: "kept (mi_ID mi) ?F s (st_store ?st0)" using s by (simp add: kept_def)
  have k1: "kept (mi_ID mi) ?F s (st_store st1)"
    using fresh_loop_kept [OF k0 nm e Un_upper1, of ?by now] by_ok by (simp add: loop1)
  have k: "kept (mi_ID mi) ?F s (st_store st)"
  proof (cases r1)
    case None
    have "kept (mi_ID mi) ?F s (st_store (fst (go_for (absent_one e mi now) st1 rs)))"
      by (rule absent_loop_kept [OF k1 nm e]) (use mods in auto)
    with run None show ?thesis by (simp add: Reconcile_def e rs(1) loop1)
  next
    case (Some err)
    with run k1 show ?thesis by (simp add: Reconcile_def e rs(1) loop1)
  qed
  then show "inv (st_store st)" by (simp add: kept_def)
  assume "m \<noteq> mi_ID mi \<or> fp \<notin> reported (e_marshal e) fresh \<and> (\<forall>r. view s m fp = Some r \<longrightarrow> f_Target r \<noteq> tgt)"
  then have "m \<noteq> mi_ID mi \<or> fp \<notin> ?F" using rs(3) by auto
  with k show "view (st_store st) m fp = view s m fp" by (simp add: kept_def)
qed

text \<open>A stored finding of the target that a successful scan does not report ages by one.\<close>

lemma reconcile_absent:
  assumes e: "e_store e = I" and s: "inv s" and nm: "named (mi_ID mi)"
    and run: "Reconcile e mi tgt fresh now s n = (st, None)"
    and fp: "fp \<notin> reported (e_marshal e) fresh"
    and r: "view s (mi_ID mi) fp = Some r" "f_Target r = tgt"
  shows "view (st_store st) (mi_ID mi) fp = Some (if live r then age_record mi now r else r)"
proof -
  let ?m = "mi_ID mi" and ?F = "reported (e_marshal e) fresh"
  obtain rs where rs: "si_ListByTarget I s ?m tgt = Inr rs" "distinct (map f_Fingerprint rs)"
      "\<forall>r. r \<in> set rs \<longleftrightarrow> view s ?m (f_Fingerprint r) = Some r \<and> f_Target r = tgt"
    using list_law [OF s] by blast
  let ?by = "index_by_fingerprint rs"
  let ?st0 = "\<lparr>st_store = s, st_ids = n, st_seen = [],
      st_res = \<lparr>rr_NewlyOpen = [], rr_Resolved = [], rr_Rejected = []\<rparr>\<rparr>"
  obtain st1 where loop1: "go_for (fresh_one e mi now ?by) ?st0 fresh = (st1, None)"
      and loop2: "go_for (absent_one e mi now) st1 rs = (st, None)"
    using run by (auto simp: Reconcile_def e rs(1) split: prod.splits option.splits)
  have mods: "f_Module q = ?m" if "q \<in> set rs" for q
    by (rule existing_keyed [OF s rs(3) that])
  have by_ok: "f_Module p = ?m \<and> f_Fingerprint p = fp" if "gm_get ?by fp = Some p" for fp p
    using that mods by (simp add: index_by_fingerprint_Some_iff [OF rs(2)])
  have k0: "kept ?m ?F s (st_store ?st0)" using s by (simp add: kept_def)
  have k1: "kept ?m ?F s (st_store st1)"
    using fresh_loop_kept [OF k0 nm e subset_refl, of ?by now] by_ok by (simp add: loop1)
  have seen: "set (st_seen st1) = ?F" using fresh_loop_seen [OF loop1] by simp
  have old: "\<forall>q \<in> set rs. view (st_store st1) ?m (f_Fingerprint q) = Some q \<or> f_Fingerprint q \<in> set (st_seen st1)"
    using k1 rs(3) by (auto simp: kept_def seen)
  have v1: "view (st_store st1) ?m fp = Some r" using k1 r(1) fp by (simp add: kept_def)
  have found: "find (\<lambda>q. f_Fingerprint q = fp \<and> live q) rs = (if live r then Some r else None)"
    using find_by_key [OF s rs(3), of fp] r by simp
  have "view (st_store st) ?m fp = (case find (\<lambda>q. f_Fingerprint q = fp \<and> live q) rs of
      Some q \<Rightarrow> Some (age_record mi now q) | None \<Rightarrow> view (st_store st1) ?m fp)"
    using absent_loop [OF e _ rs(2) old, of now] k1 fp by (auto simp: loop2 kept_def seen aged_view_def)
  then show ?thesis by (simp add: found v1)
qed

end

section \<open>Sequences of scans\<close>

text \<open>
  \<open>scans e mi tgt s n hist s' n'\<close>: the scans of \<open>hist\<close>, each a clock reading and what the collector
  reported, all reconciled successfully, one after the other.
\<close>

inductive scans ::
  "'s engine \<Rightarrow> module_info \<Rightarrow> string \<Rightarrow> 's \<Rightarrow> nat \<Rightarrow> (time \<times> finding list) list \<Rightarrow> 's \<Rightarrow> nat \<Rightarrow> bool"
  for e mi tgt where
  none: "scans e mi tgt s n [] s n"
| more: "Reconcile e mi tgt fresh now s n = (st, None) \<Longrightarrow>
    scans e mi tgt (st_store st) (st_ids st) hist s' n' \<Longrightarrow> scans e mi tgt s n ((now, fresh) # hist) s' n'"

context finding_store
begin

lemma resolved_stays:
  assumes "scans e mi tgt s n hist s' n'" "e_store e = I" "inv s" "named (mi_ID mi)"
    and "\<forall>(now, fresh) \<in> set hist. fp \<notin> reported (e_marshal e) fresh"
    and "view s (mi_ID mi) fp = Some r" "f_Target r = tgt" "\<not> live r"
  shows "view s' (mi_ID mi) fp = Some r"
  using assms
proof (induction rule: scans.induct)
  case (more fresh now s n st hist s' n')
  have "view (st_store st) (mi_ID mi) fp = Some r"
    using reconcile_absent [OF more.prems(1,2,3) more.hyps(1) _ more.prems(5,6)] more.prems(4,7) by simp
  moreover have "inv (st_store st)" by (rule reconcile_frame(1) [OF more.prems(1-3) more.hyps(1)])
  ultimately show ?case using more.IH more.prems by simp
qed simp

text \<open>
  A live finding that is absent from \<open>k\<close> scans in a row is resolved exactly when the absences counted
  so far and these \<open>k\<close> together reach the threshold of the module.
\<close>

lemma absences_resolve:
  assumes "scans e mi tgt s n hist s' n'" "e_store e = I" "inv s" "named (mi_ID mi)"
    and "\<forall>(now, fresh) \<in> set hist. fp \<notin> reported (e_marshal e) fresh"
    and "view s (mi_ID mi) fp = Some r" "f_Target r = tgt" "live r"
    and "0 \<le> r_AbsentStreak r" "r_AbsentStreak r + int (length hist) < 2 ^ 63"
    and "r_AbsentStreak r < ResolveAfterOrDefault mi"
  shows "\<exists>r'. view s' (mi_ID mi) fp = Some r' \<and> f_ID r' = f_ID r \<and> f_Target r' = tgt \<and>
     f_Status r' = (if ResolveAfterOrDefault mi \<le> r_AbsentStreak r + int (length hist)
                    then StatusResolved else f_Status r)"
  using assms
proof (induction arbitrary: r rule: scans.induct)
  case (none s n)
  then show ?case by auto
next
  case (more fresh now s n st hist s' n')
  let ?r = "age_record mi now r"
  have v: "view (st_store st) (mi_ID mi) fp = Some ?r"
    using reconcile_absent [OF more.prems(1,2,3) more.hyps(1) _ more.prems(5,6)] more.prems(4,7) by simp
  have i: "inv (st_store st)" by (rule reconcile_frame(1) [OF more.prems(1-3) more.hyps(1)])
  have streak: "r_AbsentStreak ?r = r_AbsentStreak r + 1"
    using more.prems(8,9) by (simp add: wrap64_id int64_okI)
  have rest: "\<forall>(now, fresh) \<in> set hist. fp \<notin> reported (e_marshal e) fresh" using more.prems(4) by simp
  have tgt: "f_Target ?r = tgt" using more.prems(6) by simp
  show ?case
  proof (cases "resolves mi r")
    case True
    then have dn: "f_Status ?r = StatusResolved" "ResolveAfterOrDefault mi \<le> r_AbsentStreak r + 1"
      using more.prems(7) streak by (simp_all add: age_record_status resolves_def)
    have "view s' (mi_ID mi) fp = Some ?r"
      by (rule resolved_stays [OF more.hyps(2) more.prems(1) i more.prems(3) rest v tgt])
        (simp add: live_def dn(1))
    with dn more.prems(6) show ?thesis by simp
  next
    case False
    then have lv: "live ?r" "f_Status ?r = f_Status r" "r_AbsentStreak ?r < ResolveAfterOrDefault mi"
      using more.prems(7) by (simp_all add: age_record_status live_def resolves_def)
    have "\<exists>r'. view s' (mi_ID mi) fp = Some r' \<and> f_ID r' = f_ID ?r \<and> f_Target r' = tgt \<and>
       f_Status r' = (if ResolveAfterOrDefault mi \<le> r_AbsentStreak ?r + int (length hist)
                      then StatusResolved else f_Status ?r)"
      by (rule more.IH [OF more.prems(1) i more.prems(3) rest v tgt lv(1) _ _ lv(3)])
        (use more.prems(8,9) streak in simp_all)
    moreover have "r_AbsentStreak ?r + int (length hist) =
        r_AbsentStreak r + int (length ((now, fresh) # hist))" unfolding streak by simp
    ultimately show ?thesis unfolding lv(2) by (simp only: age_record_fields(8))
  qed
qed

end

section \<open>The life cycle of a record\<close>

text \<open>
  The four states, the resolution instant present exactly in the resolved state, sightings in order
  and not in the future, and an absence count that has not reached the threshold in a live state.
\<close>

definition lifecycle_ok :: "module_info \<Rightarrow> time \<Rightarrow> frecord \<Rightarrow> bool" where
  "lifecycle_ok mi now r \<longleftrightarrow>
     f_Status r \<in> {StatusOpen, StatusResolved, StatusAcknowledged, StatusSuppressed} \<and>
     (f_Status r = StatusResolved \<longleftrightarrow> f_ResolvedAt r \<noteq> None) \<and>
     f_FirstSeen r \<le> f_LastSeen r \<and> f_LastSeen r \<le> now \<and>
     0 \<le> r_AbsentStreak r \<and> (live r \<longrightarrow> r_AbsentStreak r < ResolveAfterOrDefault mi)"

lemma lifecycle_new:
  "f_ResolvedAt f = None \<Longrightarrow> lifecycle_ok mi now (new_record m i now f)"
  by (simp add: lifecycle_ok_def)

lemma lifecycle_merge:
  "lifecycle_ok mi t p \<Longrightarrow> t \<le> now \<Longrightarrow> lifecycle_ok mi now (merge_record now f p)"
  by (auto simp: lifecycle_ok_def)

lemma lifecycle_age:
  assumes "lifecycle_ok mi t r" "t \<le> now" "live r" "ResolveAfterOrDefault mi < 2 ^ 63"
  shows "lifecycle_ok mi now (age_record mi now r)"
proof -
  have "wrap64 (r_AbsentStreak r + 1) = r_AbsentStreak r + 1"
    using assms by (simp add: lifecycle_ok_def wrap64_id int64_ok_def)
  with assms show ?thesis
    by (auto simp: lifecycle_ok_def age_record_status resolves_def live_def split: if_splits)
qed

lemma lifecycle_later: "lifecycle_ok mi t r \<Longrightarrow> t \<le> now \<Longrightarrow> lifecycle_ok mi now r"
  by (auto simp: lifecycle_ok_def)

lemma lifecycle_stored: "lifecycle_ok mi now (stored nm r) = lifecycle_ok mi now r"
  by (simp add: lifecycle_ok_def live_def)

lemma after_scan_lifecycle:
  assumes "after_scan g nm mi now tgt vf (mi_ID mi) fp before after" "after = Some r"
    and "\<forall>p. before = Some p \<longrightarrow> lifecycle_ok mi t p" "t \<le> now" "ResolveAfterOrDefault mi < 2 ^ 63"
    and "\<forall>f \<in> set vf. f_ResolvedAt f = None"
  shows "lifecycle_ok mi now r"
proof (cases "find (\<lambda>f. f_Fingerprint f = fp) vf")
  case (Some f)
  then have f: "f_ResolvedAt f = None" using assms(6) by (auto simp: find_Some_iff)
  from Some assms(1,2) obtain q where "r = stored nm q" "fresh_step g now (mi_ID mi) f before q"
    by (auto simp: after_scan_def)
  then show ?thesis using assms(3,4) lifecycle_new [OF f] lifecycle_merge
    by (auto simp: fresh_step_def lifecycle_stored split: option.splits)
next
  case None
  with assms(1,2) obtain p where p: "before = Some p" "r = (if f_Target p = tgt \<and> live p then age_record mi now p else p)"
    by (cases before) (auto simp: after_scan_def)
  then show ?thesis using assms(3,4,5) lifecycle_age lifecycle_later by auto
qed

lemma capEvidence_ResolvedAt [simp]: "f_ResolvedAt (capEvidence mar f) = f_ResolvedAt f"
  by (simp add: capEvidence_def split: option.split)

context finding_store
begin

text \<open>A suppressed finding stays suppressed and is announced neither as opened nor as resolved.\<close>

lemma suppressed_silent:
  assumes e: "e_store e = I" and s: "inv s" and ids: "ids_fresh (e_newID e) now n (view s)"
    and vf: "vf = valid_fresh (e_marshal e) fresh" and dist: "distinct (map f_Fingerprint vf)"
    and own: "\<forall>f \<in> set vf. \<forall>r. view s (mi_ID mi) (f_Fingerprint f) = Some r \<longrightarrow> f_Target r = tgt"
    and ev: "\<forall>f \<in> set vf. storable (f_Evidence f)" and nm: "named (mi_ID mi)"
    and r: "view s (mi_ID mi) fp = Some r" "f_Status r = StatusSuppressed"
  shows "\<exists>st r'. Reconcile e mi tgt fresh now s n = (st, None) \<and>
     view (st_store st) (mi_ID mi) fp = Some r' \<and> f_Status r' = StatusSuppressed \<and>
     fp \<notin> f_Fingerprint ` set (rr_NewlyOpen (st_res st)) \<and> fp \<notin> f_Fingerprint ` set (rr_Resolved (st_res st))"
proof -
  obtain st where st: "Reconcile e mi tgt fresh now s n = (st, None)" "inv (st_store st)"
     "\<forall>m fp. after_scan (e_newID e) nrm mi now tgt vf m fp (view s m fp) (view (st_store st) m fp)"
     "map f_Fingerprint (rr_NewlyOpen (st_res st)) =
       map f_Fingerprint (filter (\<lambda>f. opens (view s (mi_ID mi) (f_Fingerprint f))) vf)"
     "set (rr_Resolved (st_res st)) = {finding.truncate (age_record mi now r) |r.
        view s (mi_ID mi) (f_Fingerprint r) = Some r \<and> f_Target r = tgt \<and>
        f_Fingerprint r \<notin> f_Fingerprint ` set vf \<and> resolves mi r}"
    using reconcile_effect [OF e s ids vf dist own ev nm] by blast
  have "after_scan (e_newID e) nrm mi now tgt vf (mi_ID mi) fp (Some r) (view (st_store st) (mi_ID mi) fp)"
    using st(3) r(1) by metis
  then obtain r' where "view (st_store st) (mi_ID mi) fp = Some r'" "f_Status r' = StatusSuppressed"
    using r(2) by (auto simp: after_scan_def fresh_step_def live_def split: option.splits)
  moreover have "fp \<notin> f_Fingerprint ` set (rr_NewlyOpen (st_res st))"
  proof -
    have "f_Fingerprint ` set (rr_NewlyOpen (st_res st)) =
        f_Fingerprint ` set (filter (\<lambda>f. opens (view s (mi_ID mi) (f_Fingerprint f))) vf)"
      using st(4) by (metis set_map)
    with r show ?thesis by (auto simp: opens_def)
  qed
  moreover have "fp \<notin> f_Fingerprint ` set (rr_Resolved (st_res st))"
    using r unfolding st(5) by (auto simp: finding.defs resolves_def live_def)
  ultimately show ?thesis using st(1) by blast
qed

text \<open>\<^verbatim>\<open>Reconcile\<close> keeps every record of the module in a consistent state.\<close>

lemma lifecycle_preserved:
  assumes e: "e_store e = I" and s: "inv s" and ids: "ids_fresh (e_newID e) now n (view s)"
    and vf: "vf = valid_fresh (e_marshal e) fresh" and dist: "distinct (map f_Fingerprint vf)"
    and own: "\<forall>f \<in> set vf. \<forall>r. view s (mi_ID mi) (f_Fingerprint f) = Some r \<longrightarrow> f_Target r = tgt"
    and ev: "\<forall>f \<in> set vf. storable (f_Evidence f)" and nm: "named (mi_ID mi)"
    and ok: "\<forall>fp r. view s (mi_ID mi) fp = Some r \<longrightarrow> lifecycle_ok mi t r" "t \<le> now"
    and small: "ResolveAfterOrDefault mi < 2 ^ 63" and new: "\<forall>f \<in> set fresh. f_ResolvedAt f = None"
  shows "\<exists>st. Reconcile e mi tgt fresh now s n = (st, None) \<and>
     (\<forall>fp r. view (st_store st) (mi_ID mi) fp = Some r \<longrightarrow> lifecycle_ok mi now r)"
proof -
  obtain st where st: "Reconcile e mi tgt fresh now s n = (st, None)"
     "\<forall>m fp. after_scan (e_newID e) nrm mi now tgt vf m fp (view s m fp) (view (st_store st) m fp)"
    using reconcile_effect [OF e s ids vf dist own ev nm] by blast
  have vfR: "\<forall>f \<in> set vf. f_ResolvedAt f = None" using new by (auto simp: vf set_valid_fresh)
  have "lifecycle_ok mi now r" if "view (st_store st) (mi_ID mi) fp = Some r" for fp r
    by (rule after_scan_lifecycle [OF st(2) [rule_format] that _ ok(2) small vfR]) (use ok(1) in blast)
  with st(1) show ?thesis by blast
qed

end

section \<open>Sample data\<close>

text \<open>Concrete values at which the properties of the two stores are instantiated.\<close>

definition sample_module :: module_info where
  "sample_module = \<lparr>mi_ID = ''m'', mi_Name = [], mi_Version = [], mi_TargetKind = [], mi_DefaultInterval = Hour, mi_ResolveAfter = 2\<rparr>"

definition sample_finding :: finding where
  "sample_finding = new_finding ''fp'' ''d.e'' ''c'' ''t'' SeverityHigh ''r'' None"

definition sample_ids :: "nat \<Rightarrow> time \<Rightarrow> error + string" where
  "sample_ids k now = Inr (replicate k CHR ''x'')"

definition sample_record :: frecord where
  "sample_record = new_record ''m'' ''id'' 5 sample_finding"

lemma sample_valid [simp]: "ValidateForIngest sample_finding = None" "capEvidence mar sample_finding = sample_finding"
  by (simp_all add: sample_finding_def new_finding_def ValidateForIngest_def capEvidence_def)

lemma sample_fields [simp]: "f_Fingerprint sample_finding = ''fp''" "f_Evidence sample_finding = None"
  "mi_ID sample_module = ''m''" "f_ResolvedAt sample_finding = None" "ResolveAfterOrDefault sample_module = 2"
  by (simp_all add: sample_finding_def sample_module_def new_finding_def ResolveAfterOrDefault_def)

lemma sample_record_fields [simp]: "f_Fingerprint sample_record = ''fp''" "f_Module sample_record = ''m''"
  "f_Target sample_record = ''d.e''" "f_Status sample_record = StatusOpen" "f_ID sample_record = ''id''"
  "r_AbsentStreak sample_record = 0" "f_Evidence sample_record = None" "f_ResolvedAt sample_record = None"
  "f_FirstSeen sample_record = 5" "f_LastSeen sample_record = 5"
  by (simp_all add: sample_record_def sample_finding_def new_finding_def)

lemma sample_ids_fresh: "(\<And>m fp r. V m fp = Some r \<Longrightarrow> f_ID r = ''id'') \<Longrightarrow> ids_fresh sample_ids now n V"
  unfolding ids_fresh_def
proof (intro allI impI)
  fix k assume V: "\<And>m fp r. V m fp = Some r \<Longrightarrow> f_ID r = ''id''"
  have "replicate k CHR ''x'' \<noteq> ''id''"
  proof
    assume eq: "replicate k CHR ''x'' = ''id''"
    have "set (replicate k CHR ''x'') \<subseteq> {CHR ''x''}" by auto
    then show False unfolding eq by simp
  qed
  then have "id_unused V (replicate k CHR ''x'')" using V by (auto simp: id_unused_def)
  then show "\<exists>i. sample_ids k now = Inr i \<and> id_unused V i \<and> (\<forall>j>k. sample_ids j now \<noteq> Inr i)"
    by (intro exI [of _ "replicate k CHR ''x''"]) (auto simp: sample_ids_def dest: arg_cong [of _ _ length])
qed

end
