(* ===== verification/Target_Store.thy ===== *)
theory Target_Store
  imports Prelude
begin

text \<open>
  The interface \<^verbatim>\<open>TargetStore\<close> (\<^verbatim>\<open>store/targets.go\<close>): the contract that the in-memory and the SQLite
  store share, and what the boot sequence relies on, proved once for every implementation. A target
  is a pair of its raw and its canonical form.
\<close>

record 's target_iface =
  ti_SaveTarget :: "'s \<Rightarrow> string \<Rightarrow> string \<Rightarrow> string \<Rightarrow> error + 's"
  ti_DeleteTarget :: "'s \<Rightarrow> string \<Rightarrow> string \<Rightarrow> error + 's"
  ti_ListSavedTargets :: "'s \<Rightarrow> string \<Rightarrow> error + string list"

text \<open>Adding a target unless its canonical form is there already.\<close>

definition add_target :: "(string \<times> string) list \<Rightarrow> string \<times> string \<Rightarrow> (string \<times> string) list" where
  "add_target ts t = (if snd t \<in> snd ` set ts then ts else ts @ [t])"

text \<open>A sequence of saves for one module.\<close>

definition save_all ::
  "'s target_iface \<Rightarrow> string \<Rightarrow> 's \<Rightarrow> (string \<times> string) list \<Rightarrow> 's \<times> error option" where
  "save_all T m = go_for (\<lambda>s (raw, canonical).
     case ti_SaveTarget T s m raw canonical of Inl err \<Rightarrow> (s, Some err) | Inr s' \<Rightarrow> (s', None))"

locale target_store =
  fixes T :: "'s target_iface"
    and tview :: "'s \<Rightarrow> string \<Rightarrow> (string \<times> string) list"
    and tinv :: "'s \<Rightarrow> bool"
  assumes save_law: "tinv s \<Longrightarrow> \<exists>s'. ti_SaveTarget T s m raw canonical = Inr s' \<and> tinv s' \<and>
      tview s' = (tview s)(m := add_target (tview s m) (raw, canonical))"
    and delete_law: "tinv s \<Longrightarrow> tview s m \<noteq> [] \<Longrightarrow>
      \<exists>s'. ti_DeleteTarget T s m canonical = Inr s' \<and> tinv s' \<and>
        tview s' = (tview s)(m := filter (\<lambda>t. snd t \<noteq> canonical) (tview s m))"
    and saved_law: "tinv s \<Longrightarrow> ti_ListSavedTargets T s m = Inr (map fst (tview s m))"
    and canonical_law: "tinv s \<Longrightarrow> distinct (map snd (tview s m))"

lemma foldl_add_target:
  "distinct (map snd (ts @ us)) \<Longrightarrow> foldl add_target ts us = ts @ us"
proof (induction us arbitrary: ts)
  case (Cons u us)
  then have "add_target ts u = ts @ [u]" by (auto simp: add_target_def)
  with Cons.IH [of "ts @ [u]"] Cons.prems show ?case by simp
qed simp

context target_store
begin

lemma save_all_view:
  assumes "tinv s"
  shows "\<exists>s'. save_all T m s us = (s', None) \<and> tinv s' \<and> tview s' = (tview s)(m := foldl add_target (tview s m) us)"
  using assms
proof (induction us arbitrary: s)
  case Nil
  then show ?case by (simp add: save_all_def)
next
  case (Cons u us)
  obtain raw can where u: "u = (raw, can)" by fastforce
  obtain s1 where s1: "ti_SaveTarget T s m raw can = Inr s1" "tinv s1"
      "tview s1 = (tview s)(m := add_target (tview s m) u)"
    using save_law [OF Cons.prems] u by blast
  have "(tview s1)(m := foldl add_target (tview s1 m) us) = (tview s)(m := foldl add_target (tview s m) (u # us))"
    by (simp add: s1(3))
  with Cons.IH [OF s1(2)] show ?case by (simp only: save_all_def u s1(1) go_for.simps prod.case sum.case option.case)
qed

text \<open>
  Round trip of the configured targets: after saving targets with different canonical forms into a
  module that has none, the list is their raw inputs in the order of the saves, and other modules
  keep theirs.
\<close>

lemma saved_targets_restore:
  assumes "tinv s" "tview s m = []" "distinct (map snd us)"
  shows "\<exists>s'. save_all T m s us = (s', None) \<and> tinv s' \<and> ti_ListSavedTargets T s' m = Inr (map fst us) \<and>
     (\<forall>m'. m' \<noteq> m \<longrightarrow> ti_ListSavedTargets T s' m' = ti_ListSavedTargets T s m')"
proof -
  obtain s' where s': "save_all T m s us = (s', None)" "tinv s'"
      "tview s' = (tview s)(m := foldl add_target (tview s m) us)"
    using save_all_view [OF assms(1)] by blast
  have "foldl add_target (tview s m) us = us" using foldl_add_target [of "[]" us] assms(2,3) by simp
  with s' assms(1) show ?thesis by (simp add: saved_law)
qed

lemma save_idempotent:
  assumes "tinv s"
  shows "\<exists>s1 s2. ti_SaveTarget T s m raw can = Inr s1 \<and> ti_SaveTarget T s1 m raw' can = Inr s2 \<and>
     tview s2 = tview s1"
proof -
  obtain s1 where s1: "ti_SaveTarget T s m raw can = Inr s1" "tinv s1"
      "tview s1 = (tview s)(m := add_target (tview s m) (raw, can))"
    using save_law [OF assms] by blast
  have there: "can \<in> snd ` set (tview s1 m)" by (force simp: s1(3) add_target_def)
  obtain s2 where "ti_SaveTarget T s1 m raw' can = Inr s2"
      "tview s2 = (tview s1)(m := add_target (tview s1 m) (raw', can))"
    using save_law [OF s1(2)] by blast
  with s1(1) there show ?thesis by (simp add: add_target_def)
qed

text \<open>Deleting a target takes away exactly the one with that canonical form.\<close>

lemma delete_saved:
  assumes "tinv s" "can \<notin> snd ` set (tview s m)"
  shows "\<exists>s1 s2. ti_SaveTarget T s m raw can = Inr s1 \<and> ti_DeleteTarget T s1 m can = Inr s2 \<and>
     (\<forall>m'. ti_ListSavedTargets T s2 m' = ti_ListSavedTargets T s m')"
proof -
  obtain s1 where s1: "ti_SaveTarget T s m raw can = Inr s1" "tinv s1"
      "tview s1 = (tview s)(m := add_target (tview s m) (raw, can))"
    using save_law [OF assms(1)] by blast
  have v1: "tview s1 m = tview s m @ [(raw, can)]" using assms(2) by (simp add: s1(3) add_target_def)
  then have "tview s1 m \<noteq> []" by simp
  then obtain s2 where s2: "ti_DeleteTarget T s1 m can = Inr s2" "tinv s2"
      "tview s2 = (tview s1)(m := filter (\<lambda>t. snd t \<noteq> can) (tview s1 m))"
    using delete_law [OF s1(2)] by blast
  have "filter (\<lambda>t. snd t \<noteq> can) (tview s m) = tview s m"
    using assms(2) by (auto intro: filter_True)
  then have "tview s2 = tview s" by (simp add: s2(3) s1(3) v1 add_target_def fun_eq_iff)
  with s1 s2 assms(1) show ?thesis by (simp add: saved_law)
qed

end

end
