(* ===== verification/Mem_Store.thy ===== *)
theory Mem_Store
  imports Store_Engine Target_Store
begin

text \<open>
  The in-memory store (\<^verbatim>\<open>store/memory.go\<close>). Its records are a Go map keyed by the module and the
  fingerprint joined with a NUL byte; its targets are a Go map that is nil until the first
  \<^verbatim>\<open>SaveTarget\<close>. The mutex serialises the operations, so each is one state transition.
\<close>

section \<open>State and operations\<close>

record mem_store =
  ms_recs :: "(string, frecord) gomap"
  ms_targets :: "(string, (string \<times> string) list) gomap option"

definition NewMemStore :: mem_store where
  "NewMemStore = \<lparr>ms_recs = [], ms_targets = None\<rparr>"

definition mem_key :: "string \<Rightarrow> string \<Rightarrow> string" where
  "mem_key mdl fingerprint = mdl @ [CHR 0x00] @ fingerprint"

definition mem_ListByTarget :: "mem_store \<Rightarrow> string \<Rightarrow> string \<Rightarrow> error + frecord list" where
  "mem_ListByTarget s mdl target =
     Inr (filter (\<lambda>r. f_Module r = mdl \<and> f_Target r = target) (gm_vals (ms_recs s)))"

definition mem_Upsert :: "mem_store \<Rightarrow> frecord \<Rightarrow> error + mem_store" where
  "mem_Upsert s r = Inr (s\<lparr>ms_recs := gm_set (mem_key (f_Module r) (f_Fingerprint r)) r (ms_recs s)\<rparr>)"

definition mem_Get :: "mem_store \<Rightarrow> string \<Rightarrow> string \<Rightarrow> error + frecord option" where
  "mem_Get s mdl fingerprint = Inr (gm_get (ms_recs s) (mem_key mdl fingerprint))"

definition mem_ListOpen :: "mem_store \<Rightarrow> string \<Rightarrow> error + frecord list" where
  "mem_ListOpen s mdl =
     Inr (filter (\<lambda>r. f_Module r = mdl \<and> f_Status r = ''open'') (gm_vals (ms_recs s)))"

definition mem_ListAll :: "mem_store \<Rightarrow> string \<Rightarrow> error + frecord list" where
  "mem_ListAll s mdl = Inr (filter (\<lambda>r. f_Module r = mdl) (gm_vals (ms_recs s)))"

definition mem_iface :: "mem_store store_iface" where
  "mem_iface = \<lparr>si_ListByTarget = mem_ListByTarget, si_Upsert = mem_Upsert, si_Get = mem_Get,
     si_ListOpen = mem_ListOpen, si_ListAll = mem_ListAll\<rparr>"

text \<open>Reading a module of a nil or a non-nil target map.\<close>

definition mem_targets :: "mem_store \<Rightarrow> string \<Rightarrow> (string \<times> string) list" where
  "mem_targets s mdl = (case ms_targets s of None \<Rightarrow> []
     | Some tm \<Rightarrow> (case gm_get tm mdl of None \<Rightarrow> [] | Some ts \<Rightarrow> ts))"

definition mem_SaveTarget :: "mem_store \<Rightarrow> string \<Rightarrow> string \<Rightarrow> string \<Rightarrow> error + mem_store" where
  "mem_SaveTarget s mdl raw canonical =
     (let tm = (case ms_targets s of None \<Rightarrow> [] | Some tm \<Rightarrow> tm); s = s\<lparr>ms_targets := Some tm\<rparr> in
      if list_ex (\<lambda>t. snd t = canonical) (mem_targets s mdl) then Inr s
      else Inr (s\<lparr>ms_targets := Some (gm_set mdl (mem_targets s mdl @ [(raw, canonical)]) tm)\<rparr>))"

text \<open>The last statement assigns to the map, which is a run-time panic while the map is nil.\<close>

definition nil_map_panic :: error where
  "nil_map_panic = ''assignment to entry in nil map''"

definition mem_DeleteTarget :: "mem_store \<Rightarrow> string \<Rightarrow> string \<Rightarrow> error + mem_store" where
  "mem_DeleteTarget s mdl canonical =
     (let out = filter (\<lambda>t. snd t \<noteq> canonical) (mem_targets s mdl) in
      case ms_targets s of
        None \<Rightarrow> Inl nil_map_panic
      | Some tm \<Rightarrow> Inr (s\<lparr>ms_targets := Some (gm_set mdl out tm)\<rparr>))"

definition mem_ListSavedTargets :: "mem_store \<Rightarrow> string \<Rightarrow> error + string list" where
  "mem_ListSavedTargets s mdl = Inr (map fst (mem_targets s mdl))"

definition mem_target_iface :: "mem_store target_iface" where
  "mem_target_iface = \<lparr>ti_SaveTarget = mem_SaveTarget, ti_DeleteTarget = mem_DeleteTarget,
     ti_ListSavedTargets = mem_ListSavedTargets\<rparr>"

section \<open>Invariant and view\<close>

definition mem_inv :: "mem_store \<Rightarrow> bool" where
  "mem_inv s \<longleftrightarrow> gm_ok (ms_recs s) \<and>
     (\<forall>(k, r) \<in> set (ms_recs s). k = mem_key (f_Module r) (f_Fingerprint r) \<and> nul_free (f_Module r))"

definition mem_view :: "mem_store \<Rightarrow> string \<Rightarrow> string \<Rightarrow> frecord option" where
  "mem_view s m fp = (if nul_free m then gm_get (ms_recs s) (mem_key m fp) else None)"

definition mem_tinv :: "mem_store \<Rightarrow> bool" where
  "mem_tinv s \<longleftrightarrow> (\<forall>m. distinct (map snd (mem_targets s m)))"

lemma mem_iface_fields [simp]:
  "si_ListByTarget mem_iface = mem_ListByTarget" "si_Upsert mem_iface = mem_Upsert"
  "si_Get mem_iface = mem_Get" "si_ListOpen mem_iface = mem_ListOpen" "si_ListAll mem_iface = mem_ListAll"
  by (simp_all add: mem_iface_def)

lemma mem_target_iface_fields [simp]:
  "ti_SaveTarget mem_target_iface = mem_SaveTarget" "ti_DeleteTarget mem_target_iface = mem_DeleteTarget"
  "ti_ListSavedTargets mem_target_iface = mem_ListSavedTargets"
  by (simp_all add: mem_target_iface_def)

text \<open>The key of the map determines the module and the fingerprint when modules hold no NUL byte.\<close>

lemma mem_key_inj:
  assumes "nul_free m" "nul_free m'" "mem_key m fp = mem_key m' fp'"
  shows "m = m' \<and> fp = fp'"
  using assms
proof (induction m arbitrary: m')
  case Nil
  then show ?case by (cases m') (auto simp: mem_key_def nul_free_def)
next
  case (Cons c m)
  then show ?case by (cases m') (auto simp: mem_key_def nul_free_def)
qed

lemma mem_view_Some_iff:
  assumes "mem_inv s"
  shows "mem_view s m fp = Some r \<longleftrightarrow>
     r \<in> set (gm_vals (ms_recs s)) \<and> f_Module r = m \<and> f_Fingerprint r = fp"
proof
  assume v: "mem_view s m fp = Some r"
  then have m: "nul_free m" and in_recs: "(mem_key m fp, r) \<in> set (ms_recs s)"
    by (auto simp: mem_view_def map_of_SomeD split: if_splits)
  from in_recs assms have "mem_key m fp = mem_key (f_Module r) (f_Fingerprint r)" "nul_free (f_Module r)"
    by (auto simp: mem_inv_def)
  with m have "m = f_Module r \<and> fp = f_Fingerprint r" by (blast dest: mem_key_inj)
  with in_recs show "r \<in> set (gm_vals (ms_recs s)) \<and> f_Module r = m \<and> f_Fingerprint r = fp"
    by (auto intro: rev_image_eqI)
next
  assume r: "r \<in> set (gm_vals (ms_recs s)) \<and> f_Module r = m \<and> f_Fingerprint r = fp"
  then obtain k where k: "(k, r) \<in> set (ms_recs s)" by auto
  with assms r have "k = mem_key m fp" "nul_free m" by (auto simp: mem_inv_def)
  with k assms show "mem_view s m fp = Some r" by (simp add: mem_view_def mem_inv_def)
qed

lemma mem_inv_vals_distinct:
  assumes "mem_inv s"
  shows "distinct (map f_Fingerprint (filter (\<lambda>r. f_Module r = m \<and> P r) (gm_vals (ms_recs s))))"
proof -
  have "distinct (map f_Fingerprint (filter (\<lambda>r. f_Module r = m \<and> P r) (map snd recs)))"
    if "gm_ok recs" "\<forall>(k, r) \<in> set recs. k = mem_key (f_Module r) (f_Fingerprint r)" for recs
    using that
  proof (induction recs)
    case (Cons kr recs)
    obtain k r where kr: "kr = (k, r)" by fastforce
    have "f_Fingerprint r \<noteq> f_Fingerprint q" if "(k', q) \<in> set recs" "f_Module q = f_Module r" for k' q
      using Cons.prems that by (force simp: kr)
    then have "f_Fingerprint r \<notin> f_Fingerprint ` set (filter (\<lambda>q. f_Module q = f_Module r \<and> P q) (map snd recs))"
      by fastforce
    with Cons show ?case by (auto simp: kr)
  qed simp
  with assms show ?thesis by (auto simp: mem_inv_def)
qed

lemma mem_Upsert_inv:
  assumes "mem_inv s" "nul_free (f_Module r)" "mem_Upsert s r = Inr s'"
  shows "mem_inv s'"
proof -
  let ?k = "mem_key (f_Module r) (f_Fingerprint r)"
  have s': "s' = s\<lparr>ms_recs := gm_set ?k r (ms_recs s)\<rparr>" using assms(3) by (simp add: mem_Upsert_def)
  have ok: "gm_ok (ms_recs s')" using assms(1) by (simp add: s' mem_inv_def)
  have "k = mem_key (f_Module q) (f_Fingerprint q) \<and> nul_free (f_Module q)" if "(k, q) \<in> set (ms_recs s')" for k q
  proof -
    have "gm_get (ms_recs s') k = Some q" using that ok by (rule map_of_is_SomeI [rotated])
    then have "gm_get (gm_set ?k r (ms_recs s)) k = Some q" by (simp add: s')
    then have "k = ?k \<and> q = r \<or> (k, q) \<in> set (ms_recs s)"
      by (auto split: if_splits dest: map_of_SomeD)
    with assms(1,2) show ?thesis by (auto simp: mem_inv_def)
  qed
  with ok show ?thesis by (auto simp: mem_inv_def)
qed

lemma mem_Upsert_view:
  assumes "nul_free (f_Module r)" "mem_Upsert s r = Inr s'"
  shows "mem_view s' = view_put (mem_view s) r"
proof (intro ext)
  fix m fp
  have "mem_key m fp = mem_key (f_Module r) (f_Fingerprint r) \<longleftrightarrow> m = f_Module r \<and> fp = f_Fingerprint r"
    if "nul_free m" using mem_key_inj [OF that assms(1)] by blast
  with assms show "mem_view s' m fp = view_put (mem_view s) r m fp"
    by (cases "nul_free m") (auto simp: mem_Upsert_def mem_view_def view_put_apply)
qed

lemma mem_view_named: "mem_view s m fp = Some r \<Longrightarrow> nul_free m"
  by (simp add: mem_view_def split: if_splits)

interpretation mem: finding_store mem_iface mem_inv mem_view "\<lambda>ev. ev" "\<lambda>_. True" nul_free
proof
  fix s m t assume s: "mem_inv s"
  show "\<exists>rs. si_ListByTarget mem_iface s m t = Inr rs \<and> distinct (map f_Fingerprint rs) \<and>
      (\<forall>r. r \<in> set rs \<longleftrightarrow> mem_view s m (f_Fingerprint r) = Some r \<and> f_Target r = t)"
    using mem_inv_vals_distinct [OF s] by (auto simp: mem_ListByTarget_def mem_view_Some_iff [OF s])
  show "\<exists>rs. si_ListOpen mem_iface s m = Inr rs \<and> distinct (map f_Fingerprint rs) \<and>
      (\<forall>r. r \<in> set rs \<longleftrightarrow> mem_view s m (f_Fingerprint r) = Some r \<and> f_Status r = StatusOpen)"
    using mem_inv_vals_distinct [OF s] by (auto simp: mem_ListOpen_def mem_view_Some_iff [OF s])
  show "\<exists>rs. si_ListAll mem_iface s m = Inr rs \<and> distinct (map f_Fingerprint rs) \<and>
      (\<forall>r. r \<in> set rs \<longleftrightarrow> mem_view s m (f_Fingerprint r) = Some r)"
    using mem_inv_vals_distinct [OF s, of m "\<lambda>_. True"] by (auto simp: mem_ListAll_def mem_view_Some_iff [OF s])
next
  fix s m fp r assume s: "mem_inv s"
  show "si_Get mem_iface s m fp = Inr (mem_view s m fp)" if "nul_free m"
    using that by (simp add: mem_Get_def mem_view_def)
  show "f_Module r = m \<and> f_Fingerprint r = fp \<and> True \<and> f_Evidence r = f_Evidence r"
    if "mem_view s m fp = Some r"
    using that by (simp add: mem_view_Some_iff [OF s])
next
  fix s and r :: frecord assume s: "mem_inv s" and nm: "nul_free (f_Module r)"
  show "\<exists>s'. si_Upsert mem_iface s r = Inr s' \<and> mem_inv s' \<and> mem_view s' = view_put (mem_view s) (stored (\<lambda>ev. ev) r)"
    using mem_Upsert_inv [OF s nm] mem_Upsert_view [OF nm] by (auto simp: mem_Upsert_def stored_id)
next
  fix s and r r0 :: frecord assume s: "mem_inv s" and old: "mem_view s (f_Module r) (f_Fingerprint r) = Some r0"
  have nm: "nul_free (f_Module r)" by (rule mem_view_named [OF old])
  show "\<exists>s'. si_Upsert mem_iface s r = Inr s' \<and> mem_inv s' \<and> mem_view s' = view_put (mem_view s) (stored (\<lambda>ev. ev) r)"
    using mem_Upsert_inv [OF s nm] mem_Upsert_view [OF nm] by (auto simp: mem_Upsert_def stored_id)
next
  fix s s' and r :: frecord assume s: "mem_inv s" and nm: "nul_free (f_Module r)" and up: "si_Upsert mem_iface s r = Inr s'"
  then show "mem_inv s' \<and> (\<forall>m fp. m \<noteq> f_Module r \<or> fp \<noteq> f_Fingerprint r \<longrightarrow> mem_view s' m fp = mem_view s m fp)"
    using mem_Upsert_inv [OF s nm] mem_Upsert_view [OF nm] by (auto simp: view_put_apply)
qed

lemma mem_SaveTarget_view:
  "\<exists>s'. mem_SaveTarget s m raw canonical = Inr s' \<and>
     mem_targets s' = (mem_targets s)(m := add_target (mem_targets s m) (raw, canonical))"
proof -
  define tm where "tm = (case ms_targets s of None \<Rightarrow> [] | Some tm \<Rightarrow> tm)"
  define s0 where "s0 = s\<lparr>ms_targets := Some tm\<rparr>"
  have same: "mem_targets s0 = mem_targets s"
    by (rule ext) (simp add: s0_def tm_def mem_targets_def split: option.split)
  have put: "mem_targets (s0\<lparr>ms_targets := Some (gm_set m ts tm)\<rparr>) = (mem_targets s)(m := ts)" for ts
    by (rule ext) (simp add: s0_def tm_def mem_targets_def split: option.split)
  have eq: "mem_SaveTarget s m raw canonical =
      (if canonical \<in> snd ` set (mem_targets s m) then Inr s0
       else Inr (s0\<lparr>ms_targets := Some (gm_set m (mem_targets s m @ [(raw, canonical)]) tm)\<rparr>))"
    by (auto simp: mem_SaveTarget_def Let_def tm_def [symmetric] s0_def [symmetric] same list_ex_iff)
  show ?thesis unfolding eq by (auto simp: add_target_def same put)
qed

interpretation mem_targets: target_store mem_target_iface mem_targets mem_tinv
proof
  fix s m raw canonical assume s: "mem_tinv s"
  obtain s' where s': "mem_SaveTarget s m raw canonical = Inr s'"
      "mem_targets s' = (mem_targets s)(m := add_target (mem_targets s m) (raw, canonical))"
    using mem_SaveTarget_view by blast
  have "mem_tinv s'" using s by (auto simp: mem_tinv_def s'(2) add_target_def)
  with s' show "\<exists>s'. ti_SaveTarget mem_target_iface s m raw canonical = Inr s' \<and> mem_tinv s' \<and>
      mem_targets s' = (mem_targets s)(m := add_target (mem_targets s m) (raw, canonical))" by auto
next
  fix s m canonical assume s: "mem_tinv s" and "mem_targets s m \<noteq> []"
  then obtain tm where tm: "ms_targets s = Some tm" by (cases "ms_targets s") (auto simp: mem_targets_def)
  let ?out = "filter (\<lambda>t. snd t \<noteq> canonical) (mem_targets s m)"
  have put: "mem_targets (s\<lparr>ms_targets := Some (gm_set m ?out tm)\<rparr>) = (mem_targets s)(m := ?out)"
    by (rule ext) (simp add: mem_targets_def tm)
  then show "\<exists>s'. ti_DeleteTarget mem_target_iface s m canonical = Inr s' \<and> mem_tinv s' \<and>
      mem_targets s' = (mem_targets s)(m := ?out)"
    using s by (auto simp: mem_DeleteTarget_def tm mem_tinv_def distinct_map_filter)
next
  fix s m assume s: "mem_tinv s"
  show "ti_ListSavedTargets mem_target_iface s m = Inr (map fst (mem_targets s m))"
    by (simp add: mem_ListSavedTargets_def)
  show "distinct (map snd (mem_targets s m))" using s by (simp add: mem_tinv_def)
qed

section \<open>Properties\<close>

lemma new_mem_store: "mem_inv NewMemStore" "mem_view NewMemStore m fp = None"
  by (simp_all add: mem_inv_def mem_view_def NewMemStore_def)

definition mem_sample_engine :: "mem_store engine" where
  "mem_sample_engine = \<lparr>e_store = mem_iface, e_newID = sample_ids, e_marshal = \<lambda>_. Some []\<rparr>"

text \<open>
  One scan on the in-memory store: under the same conditions \<^verbatim>\<open>Reconcile\<close> has the same effect as on the SQLite store, evidence being kept
  as it is, for modules whose identifier has no zero byte, the separator of the map's keys.
\<close>

lemma memory_scan:
  assumes "e_store e = mem_iface" "mem_inv s" "ids_fresh (e_newID e) now n (mem_view s)"
    and "vf = valid_fresh (e_marshal e) fresh" "distinct (map f_Fingerprint vf)"
    and "\<forall>f \<in> set vf. \<forall>r. mem_view s (mi_ID mi) (f_Fingerprint f) = Some r \<longrightarrow> f_Target r = tgt"
    and "nul_free (mi_ID mi)"
  shows "\<exists>st. Reconcile e mi tgt fresh now s n = (st, None) \<and> mem_inv (st_store st) \<and>
     (\<forall>m fp. after_scan (e_newID e) (\<lambda>ev. ev) mi now tgt vf m fp (mem_view s m fp) (mem_view (st_store st) m fp)) \<and>
     map f_Fingerprint (rr_NewlyOpen (st_res st)) =
       map f_Fingerprint (filter (\<lambda>f. opens (mem_view s (mi_ID mi) (f_Fingerprint f))) vf) \<and>
     set (rr_Resolved (st_res st)) = {finding.truncate (age_record mi now r) |r.
        mem_view s (mi_ID mi) (f_Fingerprint r) = Some r \<and> f_Target r = tgt \<and>
        f_Fingerprint r \<notin> f_Fingerprint ` set vf \<and> resolves mi r} \<and>
     map fst (rr_Rejected (st_res st)) = filter (\<lambda>f. ValidateForIngest f \<noteq> None) fresh"
proof -
  have "\<forall>f \<in> set vf. True" by simp
  from mem.reconcile_effect [OF assms(1-6) this assms(7)] show ?thesis by (elim exE conjE) (intro exI conjI, assumption+)
qed

lemma memory_scan_witness:
  "\<exists>st. Reconcile mem_sample_engine sample_module ''d.e'' [sample_finding] 7 NewMemStore 0 = (st, None) \<and>
     map f_Fingerprint (rr_NewlyOpen (st_res st)) = [''fp'']"
proof -
  have "ids_fresh (e_newID mem_sample_engine) 7 0 (mem_view NewMemStore)"
    unfolding mem_sample_engine_def engine.simps by (rule sample_ids_fresh) (simp add: new_mem_store)
  from memory_scan [of mem_sample_engine, OF _ new_mem_store(1) this refl, of "[sample_finding]" sample_module "''d.e''"]
  show ?thesis by (auto simp: mem_sample_engine_def new_mem_store opens_def nul_free_def)
qed

text \<open>
  Deleting a target from the in-memory store panics exactly while no target was ever saved in it, which storing findings does not change;
  after any save it removes the targets with that canonical form from the module and keeps all others.
\<close>

lemma memory_delete_target:
  "(mem_DeleteTarget s m c = Inl nil_map_panic \<longleftrightarrow> ms_targets s = None) \<and>
   (\<forall>r. \<exists>s'. mem_Upsert s r = Inr s' \<and> ms_targets s' = ms_targets s) \<and>
   (\<exists>s'. mem_SaveTarget s m' raw c' = Inr s' \<and> (\<exists>s''. mem_DeleteTarget s' m c = Inr s'' \<and>
      mem_targets s'' = (mem_targets s')(m := filter (\<lambda>t. snd t \<noteq> c) (mem_targets s' m))))"
proof (intro conjI allI)
  show "mem_DeleteTarget s m c = Inl nil_map_panic \<longleftrightarrow> ms_targets s = None"
    by (simp add: mem_DeleteTarget_def Let_def split: option.split)
  show "\<exists>s'. mem_Upsert s r = Inr s' \<and> ms_targets s' = ms_targets s" for r by (simp add: mem_Upsert_def)
  have "\<exists>s' tm. mem_SaveTarget s m' raw c' = Inr s' \<and> ms_targets s' = Some tm"
    by (simp add: mem_SaveTarget_def Let_def)
  then obtain s' tm where s': "mem_SaveTarget s m' raw c' = Inr s'" "ms_targets s' = Some tm" by (elim exE conjE)
  have "mem_targets (s'\<lparr>ms_targets := Some (gm_set m out tm)\<rparr>) = (mem_targets s')(m := out)" for out
    by (rule ext) (simp add: mem_targets_def s'(2))
  then show "\<exists>s'. mem_SaveTarget s m' raw c' = Inr s' \<and> (\<exists>s''. mem_DeleteTarget s' m c = Inr s'' \<and>
      mem_targets s'' = (mem_targets s')(m := filter (\<lambda>t. snd t \<noteq> c) (mem_targets s' m)))"
    using s' by (simp add: mem_DeleteTarget_def Let_def)
qed

end
