(* ===== verification/Sqlite_Store.thy ===== *)
theory Sqlite_Store
  imports Store_Engine Target_Store
begin

text \<open>
  The production store (\<^verbatim>\<open>store/sqlite.go\<close>): the tables \<^verbatim>\<open>findings\<close> and \<^verbatim>\<open>targets\<close> as lists of rows, the
  statements the store sends as functions on them, and the conversion between rows and records.

  A statement of the source is read as SQL defines it: \<^verbatim>\<open>INSERT ... ON CONFLICT(module, fingerprint) DO
  UPDATE\<close> updates the listed columns of the row with that key, and otherwise inserts unless the primary
  key is taken. Instants are kept as instants: the database driver writes and reads them in UTC. A
  row list is in the order of the rowids; a \<^verbatim>\<open>SELECT\<close> without \<^verbatim>\<open>ORDER BY\<close> may return another order, and
  nothing below depends on it. \<^verbatim>\<open>json.Marshal\<close> and \<^verbatim>\<open>json.Unmarshal\<close> on evidence are the arguments \<open>mar\<close>
  and \<open>unm\<close>, \<open>None\<close> where they return an error.
\<close>

section \<open>Rows and tables\<close>

record frow =
  fr_id :: string
  fr_fingerprint :: string
  fr_module :: string
  fr_target :: string
  fr_check_id :: string
  fr_title :: string
  fr_severity :: string
  fr_status :: string
  fr_remediation :: string
  fr_evidence :: "string option"
  fr_group_id :: "string option"
  fr_first_seen :: time
  fr_last_seen :: time
  fr_resolved_at :: "time option"
  fr_absent_streak :: int

record sqlite_db =
  db_findings :: "frow list"
  db_targets :: "(string \<times> string \<times> string) list"

type_synonym marshal = "(string \<times> gany) list \<Rightarrow> string option"
type_synonym unmarshal = "string \<Rightarrow> evidence option"

definition NewSQLiteStore :: sqlite_db where
  "NewSQLiteStore = \<lparr>db_findings = [], db_targets = []\<rparr>"

section \<open>Operations\<close>

definition marshalEvidence :: "marshal \<Rightarrow> evidence \<Rightarrow> error + string option" where
  "marshalEvidence mar ev =
     (case ev of
        None \<Rightarrow> Inr None
      | Some m \<Rightarrow> (case mar m of None \<Rightarrow> Inl ''marshal evidence'' | Some b \<Rightarrow> Inr (Some b)))"

definition scanRecord :: "unmarshal \<Rightarrow> frow \<Rightarrow> frecord" where
  "scanRecord unm x =
     \<lparr>f_Fingerprint = fr_fingerprint x, f_Target = fr_target x, f_Check = fr_check_id x,
      f_Title = fr_title x, f_Severity = fr_severity x, f_Remediation = fr_remediation x,
      f_Evidence = (case fr_evidence x of
         None \<Rightarrow> None
       | Some b \<Rightarrow> if b = [] then None else (case unm b of
           None \<Rightarrow> Some [(''_error'', GStr ''stored evidence unreadable'')]
         | Some ev \<Rightarrow> ev)),
      f_ID = fr_id x, f_Module = fr_module x, f_Status = fr_status x, f_GroupID = fr_group_id x,
      f_FirstSeen = fr_first_seen x, f_LastSeen = fr_last_seen x, f_ResolvedAt = fr_resolved_at x,
      r_AbsentStreak = fr_absent_streak x\<rparr>"

abbreviation scanRecords :: "unmarshal \<Rightarrow> frow list \<Rightarrow> frecord list" where
  "scanRecords unm rows \<equiv> map (scanRecord unm) rows"

definition insert_row :: "frecord \<Rightarrow> string option \<Rightarrow> frow" where
  "insert_row r ev =
     \<lparr>fr_id = f_ID r, fr_fingerprint = f_Fingerprint r, fr_module = f_Module r, fr_target = f_Target r,
      fr_check_id = f_Check r, fr_title = f_Title r, fr_severity = f_Severity r, fr_status = f_Status r,
      fr_remediation = f_Remediation r, fr_evidence = ev, fr_group_id = f_GroupID r,
      fr_first_seen = f_FirstSeen r, fr_last_seen = f_LastSeen r, fr_resolved_at = f_ResolvedAt r,
      fr_absent_streak = r_AbsentStreak r\<rparr>"

text \<open>The columns named after \<^verbatim>\<open>DO UPDATE SET\<close>; identifier, target, check and first sighting stay.\<close>

definition update_row :: "frow \<Rightarrow> frow \<Rightarrow> frow" where
  "update_row excluded x =
     x\<lparr>fr_title := fr_title excluded, fr_severity := fr_severity excluded, fr_status := fr_status excluded,
       fr_remediation := fr_remediation excluded, fr_evidence := fr_evidence excluded,
       fr_group_id := fr_group_id excluded, fr_last_seen := fr_last_seen excluded,
       fr_resolved_at := fr_resolved_at excluded, fr_absent_streak := fr_absent_streak excluded\<rparr>"

definition same_key :: "frow \<Rightarrow> frow \<Rightarrow> bool" where
  "same_key y x \<longleftrightarrow> fr_module x = fr_module y \<and> fr_fingerprint x = fr_fingerprint y"

definition sq_Upsert :: "marshal \<Rightarrow> sqlite_db \<Rightarrow> frecord \<Rightarrow> error + sqlite_db" where
  "sq_Upsert mar db r =
     (case marshalEvidence mar (f_Evidence r) of
        Inl err \<Rightarrow> Inl err
      | Inr ev \<Rightarrow>
          (let y = insert_row r ev; rows = db_findings db in
           if list_ex (same_key y) rows
           then Inr (db\<lparr>db_findings := map (\<lambda>x. if same_key y x then update_row y x else x) rows\<rparr>)
           else if list_ex (\<lambda>x. fr_id x = fr_id y) rows then Inl ''UNIQUE constraint failed: findings.id''
           else Inr (db\<lparr>db_findings := rows @ [y]\<rparr>)))"

definition sq_ListByTarget :: "unmarshal \<Rightarrow> sqlite_db \<Rightarrow> string \<Rightarrow> string \<Rightarrow> error + frecord list" where
  "sq_ListByTarget unm db mdl target =
     Inr (scanRecords unm (filter (\<lambda>x. fr_module x = mdl \<and> fr_target x = target) (db_findings db)))"

definition sq_ListOpen :: "unmarshal \<Rightarrow> sqlite_db \<Rightarrow> string \<Rightarrow> error + frecord list" where
  "sq_ListOpen unm db mdl =
     Inr (scanRecords unm (filter (\<lambda>x. fr_module x = mdl \<and> fr_status x = StatusOpen) (db_findings db)))"

definition sq_Get :: "unmarshal \<Rightarrow> sqlite_db \<Rightarrow> string \<Rightarrow> string \<Rightarrow> error + frecord option" where
  "sq_Get unm db mdl fingerprint =
     (case filter (\<lambda>x. fr_module x = mdl \<and> fr_fingerprint x = fingerprint) (db_findings db) of
        [] \<Rightarrow> Inr None
      | x # _ \<Rightarrow> Inr (Some (scanRecord unm x)))"

definition sq_ListAll :: "unmarshal \<Rightarrow> sqlite_db \<Rightarrow> string \<Rightarrow> error + frecord list" where
  "sq_ListAll unm db mdl =
     Inr (scanRecords unm
       (sort_key (\<lambda>x. - fr_last_seen x) (filter (\<lambda>x. fr_module x = mdl) (db_findings db))))"

text \<open>The new database and the number of rows deleted.\<close>

definition prunable :: "time \<Rightarrow> frow \<Rightarrow> bool" where
  "prunable cutoff x \<longleftrightarrow> fr_status x = StatusResolved \<and>
     (case fr_resolved_at x of None \<Rightarrow> False | Some t \<Rightarrow> t < cutoff)"

definition PruneResolvedBefore :: "sqlite_db \<Rightarrow> time \<Rightarrow> sqlite_db \<times> int" where
  "PruneResolvedBefore db cutoff =
     (db\<lparr>db_findings := filter (\<lambda>x. \<not> prunable cutoff x) (db_findings db)\<rparr>,
      int (length (filter (prunable cutoff) (db_findings db))))"

definition sqlite_iface :: "marshal \<Rightarrow> unmarshal \<Rightarrow> sqlite_db store_iface" where
  "sqlite_iface mar unm = \<lparr>si_ListByTarget = sq_ListByTarget unm, si_Upsert = sq_Upsert mar, si_Get = sq_Get unm,
     si_ListOpen = sq_ListOpen unm, si_ListAll = sq_ListAll unm\<rparr>"

definition sq_SaveTarget :: "sqlite_db \<Rightarrow> string \<Rightarrow> string \<Rightarrow> string \<Rightarrow> error + sqlite_db" where
  "sq_SaveTarget db mdl raw canonical =
     Inr (if list_ex (\<lambda>(m, _, c). m = mdl \<and> c = canonical) (db_targets db) then db
          else db\<lparr>db_targets := db_targets db @ [(mdl, raw, canonical)]\<rparr>)"

definition sq_DeleteTarget :: "sqlite_db \<Rightarrow> string \<Rightarrow> string \<Rightarrow> error + sqlite_db" where
  "sq_DeleteTarget db mdl canonical =
     Inr (db\<lparr>db_targets := filter (\<lambda>(m, _, c). \<not> (m = mdl \<and> c = canonical)) (db_targets db)\<rparr>)"

definition sq_ListSavedTargets :: "sqlite_db \<Rightarrow> string \<Rightarrow> error + string list" where
  "sq_ListSavedTargets db mdl =
     Inr (map (\<lambda>(_, raw, _). raw) (filter (\<lambda>(m, _, _). m = mdl) (db_targets db)))"

definition sqlite_target_iface :: "sqlite_db target_iface" where
  "sqlite_target_iface = \<lparr>ti_SaveTarget = sq_SaveTarget, ti_DeleteTarget = sq_DeleteTarget,
     ti_ListSavedTargets = sq_ListSavedTargets\<rparr>"

section \<open>Invariant and view\<close>

text \<open>
  What the store relies on in package \<^verbatim>\<open>encoding/json\<close>: the text of a map is not empty and reads back
  as a map, which is written and read back unchanged (the first reading turns every number into a
  \<^verbatim>\<open>float64\<close> and every list into \<^verbatim>\<open>[]any\<close>; a second one changes nothing more).
\<close>

definition json_stable :: "marshal \<Rightarrow> unmarshal \<Rightarrow> bool" where
  "json_stable mar unm \<longleftrightarrow> (\<forall>m b. mar m = Some b \<longrightarrow> b \<noteq> [] \<and>
     (\<exists>m' b'. unm b = Some (Some m') \<and> mar m' = Some b' \<and> b' \<noteq> [] \<and> unm b' = Some (Some m')))"

definition sq_storable :: "marshal \<Rightarrow> evidence \<Rightarrow> bool" where
  "sq_storable mar ev \<longleftrightarrow> (case ev of None \<Rightarrow> True | Some m \<Rightarrow> mar m \<noteq> None)"

definition sq_nrm :: "marshal \<Rightarrow> unmarshal \<Rightarrow> evidence \<Rightarrow> evidence" where
  "sq_nrm mar unm ev = (case ev of None \<Rightarrow> None | Some m \<Rightarrow>
     (case mar m of None \<Rightarrow> None | Some b \<Rightarrow> (case unm b of None \<Rightarrow> None | Some ev' \<Rightarrow> ev')))"

definition evidence_ok :: "marshal \<Rightarrow> frow \<Rightarrow> bool" where
  "evidence_ok mar x \<longleftrightarrow> (case fr_evidence x of None \<Rightarrow> True | Some b \<Rightarrow> \<exists>m. mar m = Some b)"

definition sq_inv :: "marshal \<Rightarrow> unmarshal \<Rightarrow> sqlite_db \<Rightarrow> bool" where
  "sq_inv mar unm db \<longleftrightarrow> json_stable mar unm \<and> distinct (map fr_id (db_findings db)) \<and>
     distinct (map (\<lambda>x. (fr_module x, fr_fingerprint x)) (db_findings db)) \<and>
     (\<forall>x \<in> set (db_findings db). evidence_ok mar x)"

definition sq_view :: "unmarshal \<Rightarrow> sqlite_db \<Rightarrow> string \<Rightarrow> string \<Rightarrow> frecord option" where
  "sq_view unm db m fp =
     map_option (scanRecord unm) (find (\<lambda>x. fr_module x = m \<and> fr_fingerprint x = fp) (db_findings db))"

definition sq_targets :: "sqlite_db \<Rightarrow> string \<Rightarrow> (string \<times> string) list" where
  "sq_targets db mdl = map snd (filter (\<lambda>t. fst t = mdl) (db_targets db))"

definition sq_tinv :: "sqlite_db \<Rightarrow> bool" where
  "sq_tinv db \<longleftrightarrow> distinct (map (\<lambda>(m, _, c). (m, c)) (db_targets db))"

section \<open>Lemmas\<close>

lemma sqlite_iface_fields [simp]:
  "si_ListByTarget (sqlite_iface mar unm) = sq_ListByTarget unm" "si_Upsert (sqlite_iface mar unm) = sq_Upsert mar"
  "si_Get (sqlite_iface mar unm) = sq_Get unm" "si_ListOpen (sqlite_iface mar unm) = sq_ListOpen unm"
  "si_ListAll (sqlite_iface mar unm) = sq_ListAll unm"
  by (simp_all add: sqlite_iface_def)

lemma sqlite_target_iface_fields [simp]:
  "ti_SaveTarget sqlite_target_iface = sq_SaveTarget" "ti_DeleteTarget sqlite_target_iface = sq_DeleteTarget"
  "ti_ListSavedTargets sqlite_target_iface = sq_ListSavedTargets"
  by (simp_all add: sqlite_target_iface_def)

lemma scanRecord_fields [simp]:
  "f_Fingerprint (scanRecord unm x) = fr_fingerprint x" "f_Target (scanRecord unm x) = fr_target x"
  "f_ID (scanRecord unm x) = fr_id x" "f_Module (scanRecord unm x) = fr_module x"
  "f_Status (scanRecord unm x) = fr_status x" "f_ResolvedAt (scanRecord unm x) = fr_resolved_at x"
  "f_LastSeen (scanRecord unm x) = fr_last_seen x" "f_FirstSeen (scanRecord unm x) = fr_first_seen x"
  "f_Check (scanRecord unm x) = fr_check_id x"
  by (simp_all add: scanRecord_def)

lemma insert_row_fields [simp]:
  "fr_id (insert_row r ev) = f_ID r" "fr_module (insert_row r ev) = f_Module r"
  "fr_fingerprint (insert_row r ev) = f_Fingerprint r" "fr_evidence (insert_row r ev) = ev"
  by (simp_all add: insert_row_def)

lemma update_row_fields [simp]:
  "fr_id (update_row y x) = fr_id x" "fr_module (update_row y x) = fr_module x"
  "fr_fingerprint (update_row y x) = fr_fingerprint x" "fr_evidence (update_row y x) = fr_evidence y"
  by (simp_all add: update_row_def)

lemma find_unique:
  "distinct (map k xs) \<Longrightarrow> find (\<lambda>x. k x = a) xs = Some x \<longleftrightarrow> x \<in> set xs \<and> k x = a"
  by (induction xs) (auto simp: rev_image_eqI)

lemma sq_view_Some_iff:
  assumes "sq_inv mar unm db"
  shows "sq_view unm db m fp = Some r \<longleftrightarrow>
     (\<exists>x \<in> set (db_findings db). r = scanRecord unm x \<and> fr_module x = m \<and> fr_fingerprint x = fp)"
proof -
  have d: "distinct (map (\<lambda>x. (fr_module x, fr_fingerprint x)) (db_findings db))"
    using assms by (simp add: sq_inv_def)
  show ?thesis using find_unique [OF d, of "(m, fp)"] by (auto simp: sq_view_def)
qed

lemma distinct_key_fingerprint:
  "distinct (map (\<lambda>x. (fr_module x, fr_fingerprint x)) xs) \<Longrightarrow>
     distinct (map fr_fingerprint (filter (\<lambda>x. fr_module x = m \<and> P x) xs))"
  by (induction xs) (auto intro: rev_image_eqI)

lemma sq_fingerprints_distinct:
  "sq_inv mar unm db \<Longrightarrow> distinct (map (f_Fingerprint \<circ> scanRecord unm)
     (filter (\<lambda>x. fr_module x = m \<and> P x) (db_findings db)))"
  using distinct_key_fingerprint [of "db_findings db" m P] by (simp add: sq_inv_def comp_def)

lemma scan_evidence:
  assumes "json_stable mar unm" "evidence_ok mar x"
  shows "sq_storable mar (f_Evidence (scanRecord unm x))"
    and "sq_nrm mar unm (f_Evidence (scanRecord unm x)) = f_Evidence (scanRecord unm x)"
proof -
  have "sq_storable mar (f_Evidence (scanRecord unm x)) \<and>
      sq_nrm mar unm (f_Evidence (scanRecord unm x)) = f_Evidence (scanRecord unm x)"
  proof (cases "fr_evidence x")
    case (Some b)
    with assms(2) obtain m where "mar m = Some b" by (auto simp: evidence_ok_def)
    with assms(1) obtain m' b' where "b \<noteq> []" "unm b = Some (Some m')" "mar m' = Some b'" "unm b' = Some (Some m')"
      unfolding json_stable_def by blast
    with Some show ?thesis by (simp add: scanRecord_def sq_storable_def sq_nrm_def)
  qed (simp add: scanRecord_def sq_storable_def sq_nrm_def)
  then show "sq_storable mar (f_Evidence (scanRecord unm x))"
    "sq_nrm mar unm (f_Evidence (scanRecord unm x)) = f_Evidence (scanRecord unm x)" by blast+
qed

text \<open>Marshalling storable evidence gives a column that reads back as the normal form.\<close>

lemma marshal_storable:
  assumes "json_stable mar unm" "sq_storable mar ev"
  obtains col where "marshalEvidence mar ev = Inr col"
    "(case col of None \<Rightarrow> True | Some b \<Rightarrow> \<exists>m. mar m = Some b)"
    "(case col of None \<Rightarrow> None | Some b \<Rightarrow> if b = [] then None else (case unm b of
       None \<Rightarrow> Some [(''_error'', GStr ''stored evidence unreadable'')] | Some ev' \<Rightarrow> ev')) = sq_nrm mar unm ev"
proof (cases ev)
  case None
  then show thesis using that [of None] by (simp add: marshalEvidence_def sq_nrm_def)
next
  case (Some m)
  then obtain b where b: "mar m = Some b" using assms(2) by (auto simp: sq_storable_def)
  then obtain m' where "b \<noteq> []" "unm b = Some (Some m')" using assms(1) unfolding json_stable_def by blast
  with Some b show thesis using that [of "Some b"] by (auto simp: marshalEvidence_def sq_nrm_def)
qed

lemma scan_insert_row:
  assumes "(case col of None \<Rightarrow> None | Some b \<Rightarrow> if b = [] then None else (case unm b of
       None \<Rightarrow> Some [(''_error'', GStr ''stored evidence unreadable'')] | Some ev' \<Rightarrow> ev')) = nm (f_Evidence r)"
  shows "scanRecord unm (insert_row r col) = stored nm r"
  using assms by (simp add: scanRecord_def insert_row_def stored_def)

lemma marshal_row:
  assumes "json_stable mar unm" "sq_storable mar (f_Evidence r)"
  obtains col where "marshalEvidence mar (f_Evidence r) = Inr col"
    "scanRecord unm (insert_row r col) = stored (sq_nrm mar unm) r"
proof (rule marshal_storable [OF assms])
  fix col
  assume "marshalEvidence mar (f_Evidence r) = Inr col"
    and "(case col of None \<Rightarrow> None | Some b \<Rightarrow> if b = [] then None else (case unm b of
       None \<Rightarrow> Some [(''_error'', GStr ''stored evidence unreadable'')] | Some ev' \<Rightarrow> ev')) =
      sq_nrm mar unm (f_Evidence r)"
  then show thesis by (intro that scan_insert_row)
qed

lemma update_row_identity:
  assumes "same_identity r (scanRecord unm x)"
  shows "update_row (insert_row r col) x = insert_row r col"
  using assms by (simp add: same_identity_def update_row_def insert_row_def)

lemma find_map_key:
  assumes "\<And>x. k (f x) = k x"
  shows "find (\<lambda>x. k x = a) (map f xs) = map_option f (find (\<lambda>x. k x = a) xs)"
  by (induction xs) (simp_all add: assms)

abbreviation row_key :: "frow \<Rightarrow> string \<times> string" where
  "row_key x \<equiv> (fr_module x, fr_fingerprint x)"

lemma sq_view_find: "sq_view unm db m fp = map_option (scanRecord unm) (find (\<lambda>x. row_key x = (m, fp)) (db_findings db))"
  by (simp add: sq_view_def)

lemma same_key_iff: "same_key y x \<longleftrightarrow> row_key x = row_key y"
  by (simp add: same_key_def)

definition replace_row :: "frow \<Rightarrow> frow \<Rightarrow> frow" where
  "replace_row y x = (if same_key y x then update_row y x else x)"

lemma replace_row_key [simp]: "row_key (replace_row y x) = row_key x" "fr_id (replace_row y x) = fr_id x"
  by (simp_all add: replace_row_def)

text \<open>The three outcomes of the upsert statement.\<close>

lemma sq_Upsert_cases:
  assumes "sq_Upsert mar db r = Inr db'"
  obtains col where "marshalEvidence mar (f_Evidence r) = Inr col"
    "db_findings db' = map (replace_row (insert_row r col)) (db_findings db)"
    "row_key (insert_row r col) \<in> row_key ` set (db_findings db)" "db_targets db' = db_targets db"
  | col where "marshalEvidence mar (f_Evidence r) = Inr col"
    "db_findings db' = db_findings db @ [insert_row r col]"
    "row_key (insert_row r col) \<notin> row_key ` set (db_findings db)"
    "f_ID r \<notin> fr_id ` set (db_findings db)" "db_targets db' = db_targets db"
proof -
  obtain col where col: "marshalEvidence mar (f_Evidence r) = Inr col"
    using assms by (auto simp: sq_Upsert_def split: sum.splits)
  have there: "list_ex (same_key y) rows \<longleftrightarrow> row_key y \<in> row_key ` set rows" for y rows
    by (auto simp: list_ex_iff same_key_iff intro: rev_image_eqI)
  have used: "list_ex (\<lambda>x. fr_id x = i) rows \<longleftrightarrow> i \<in> fr_id ` set rows" for i rows
    by (auto simp: list_ex_iff)
  have rep: "(\<lambda>x. if same_key y x then update_row y x else x) = replace_row y" for y
    by (simp add: replace_row_def fun_eq_iff)
  show thesis
  proof (cases "row_key (insert_row r col) \<in> row_key ` set (db_findings db)")
    case True
    then show thesis using assms that(1) [OF col]
      by (auto simp: sq_Upsert_def col Let_def there rep simp del: insert_row_fields)
  next
    case False
    then show thesis using assms that(2) [OF col]
      by (auto simp: sq_Upsert_def col Let_def there used split: if_splits)
  qed
qed

lemma marshalEvidence_ok:
  "marshalEvidence mar ev = Inr col \<Longrightarrow> case col of None \<Rightarrow> True | Some b \<Rightarrow> \<exists>m. mar m = Some b"
  by (auto simp: marshalEvidence_def split: option.splits)

lemma sq_Upsert_inv:
  assumes "sq_inv mar unm db" "sq_Upsert mar db r = Inr db'"
  shows "sq_inv mar unm db'"
  using assms(2)
proof (cases rule: sq_Upsert_cases)
  case (1 col)
  have keys: "map row_key (db_findings db') = map row_key (db_findings db)"
    and ids: "map fr_id (db_findings db') = map fr_id (db_findings db)" by (simp_all add: 1(2))
  have "\<forall>x \<in> set (db_findings db'). evidence_ok mar x"
    using assms(1) marshalEvidence_ok [OF 1(1)] by (auto simp: sq_inv_def 1(2) evidence_ok_def replace_row_def)
  with assms(1) show ?thesis unfolding sq_inv_def keys ids by blast
next
  case (2 col)
  with assms(1) marshalEvidence_ok [OF 2(1)] show ?thesis
    by (simp add: sq_inv_def evidence_ok_def)
qed

lemma sq_Upsert_frame:
  assumes "sq_inv mar unm db" "sq_Upsert mar db r = Inr db'" "(m, fp) \<noteq> (f_Module r, f_Fingerprint r)"
  shows "sq_view unm db' m fp = sq_view unm db m fp"
  using assms(2)
proof (cases rule: sq_Upsert_cases)
  case (1 col)
  have "replace_row (insert_row r col) x = x" if "find (\<lambda>x. row_key x = (m, fp)) (db_findings db) = Some x" for x
    using that assms(3) by (auto simp: find_Some_iff replace_row_def same_key_def)
  then show ?thesis
    unfolding sq_view_find 1(2) find_map_key [where k = row_key, OF replace_row_key(1)]
    by (cases "find (\<lambda>x. row_key x = (m, fp)) (db_findings db)") auto
next
  case (2 col)
  have "find P (xs @ [y]) = find P xs" if "\<not> P y" for P :: "frow \<Rightarrow> bool" and xs y
    using that by (induction xs) auto
  from this [of "\<lambda>x. row_key x = (m, fp)"] show ?thesis using assms(3) by (auto simp: sq_view_find 2(2))
qed

lemma sq_row_of_view:
  assumes "sq_inv mar unm db" "sq_view unm db m fp = Some r0"
  obtains x where "find (\<lambda>x. row_key x = (m, fp)) (db_findings db) = Some x" "r0 = scanRecord unm x"
    "x \<in> set (db_findings db)" "row_key x = (m, fp)"
proof -
  from assms(2) obtain x where x: "find (\<lambda>x. row_key x = (m, fp)) (db_findings db) = Some x" "r0 = scanRecord unm x"
    by (auto simp: sq_view_find)
  from x(1) have "x \<in> set (db_findings db)" "row_key x = (m, fp)" by (auto simp: find_Some_iff)
  with x that show thesis by blast
qed

lemma sq_update_law:
  assumes inv: "sq_inv mar unm db" and old: "sq_view unm db (f_Module r) (f_Fingerprint r) = Some r0"
    and same: "same_identity r r0" and st: "sq_storable mar (f_Evidence r)"
  shows "\<exists>db'. sq_Upsert mar db r = Inr db' \<and> sq_inv mar unm db' \<and>
     sq_view unm db' = view_put (sq_view unm db) (stored (sq_nrm mar unm) r)"
proof -
  have js: "json_stable mar unm" using inv by (simp add: sq_inv_def)
  obtain col where col: "marshalEvidence mar (f_Evidence r) = Inr col"
      "scanRecord unm (insert_row r col) = stored (sq_nrm mar unm) r"
    by (rule marshal_row [OF js st])
  obtain x where x: "find (\<lambda>x. row_key x = (f_Module r, f_Fingerprint r)) (db_findings db) = Some x"
      "r0 = scanRecord unm x" "x \<in> set (db_findings db)" "row_key x = (f_Module r, f_Fingerprint r)"
    by (rule sq_row_of_view [OF inv old])
  let ?y = "insert_row r col"
  have "list_ex (same_key ?y) (db_findings db)" using x(3,4) by (auto simp: list_ex_iff same_key_iff)
  then obtain db' where up: "sq_Upsert mar db r = Inr db'"
      and rows: "db_findings db' = map (replace_row ?y) (db_findings db)"
    by (simp add: sq_Upsert_def col(1) Let_def replace_row_def [abs_def])
  have "replace_row ?y x = ?y"
    using x(4) same update_row_identity by (simp add: replace_row_def same_key_iff x(2))
  then have "sq_view unm db' (f_Module r) (f_Fingerprint r) = Some (stored (sq_nrm mar unm) r)"
    unfolding sq_view_find rows find_map_key [where k = row_key, OF replace_row_key(1)] x(1) by (simp add: col(2))
  then have "sq_view unm db' = view_put (sq_view unm db) (stored (sq_nrm mar unm) r)"
    using sq_Upsert_frame [OF inv up] by (auto simp: fun_eq_iff view_put_apply)
  with up sq_Upsert_inv [OF inv up] show ?thesis by blast
qed

lemma sq_insert_law:
  assumes inv: "sq_inv mar unm db" and new: "sq_view unm db (f_Module r) (f_Fingerprint r) = None"
    and id: "id_unused (sq_view unm db) (f_ID r)" and st: "sq_storable mar (f_Evidence r)"
  shows "\<exists>db'. sq_Upsert mar db r = Inr db' \<and> sq_inv mar unm db' \<and>
     sq_view unm db' = view_put (sq_view unm db) (stored (sq_nrm mar unm) r)"
proof -
  have js: "json_stable mar unm" using inv by (simp add: sq_inv_def)
  obtain col where col: "marshalEvidence mar (f_Evidence r) = Inr col"
      "scanRecord unm (insert_row r col) = stored (sq_nrm mar unm) r"
    by (rule marshal_row [OF js st])
  let ?y = "insert_row r col"
  have none: "find (\<lambda>x. row_key x = (f_Module r, f_Fingerprint r)) (db_findings db) = None"
    using new by (simp add: sq_view_find)
  then have no_key: "\<not> list_ex (same_key ?y) (db_findings db)"
    by (simp add: list_ex_iff same_key_iff find_None_iff)
  have "fr_id x \<noteq> f_ID r" if "x \<in> set (db_findings db)" for x
  proof -
    from that have "sq_view unm db (fr_module x) (fr_fingerprint x) = Some (scanRecord unm x)"
      by (auto simp: sq_view_Some_iff [OF inv])
    with id have "f_ID (scanRecord unm x) \<noteq> f_ID r" unfolding id_unused_def by blast
    then show ?thesis by simp
  qed
  then have no_id: "\<not> list_ex (\<lambda>x. fr_id x = f_ID r) (db_findings db)" by (simp add: list_ex_iff)
  obtain db' where up: "sq_Upsert mar db r = Inr db'" and rows: "db_findings db' = db_findings db @ [?y]"
    using no_key no_id by (simp add: sq_Upsert_def col(1) Let_def)
  have "find P (xs @ [y]) = (if P y then Some y else None)" if "find P xs = None" for P :: "frow \<Rightarrow> bool" and xs y
    using that by (induction xs) (auto split: if_splits)
  from this [OF none] have "sq_view unm db' (f_Module r) (f_Fingerprint r) = Some (stored (sq_nrm mar unm) r)"
    unfolding sq_view_find rows by (simp add: col(2))
  then have "sq_view unm db' = view_put (sq_view unm db) (stored (sq_nrm mar unm) r)"
    using sq_Upsert_frame [OF inv up] by (auto simp: fun_eq_iff view_put_apply)
  with up sq_Upsert_inv [OF inv up] show ?thesis by blast
qed

lemma sq_listing:
  assumes inv: "sq_inv mar unm db"
    and perm: "mset ys = mset (filter (\<lambda>x. fr_module x = m \<and> P x) (db_findings db))"
    and P: "\<And>x. P x \<longleftrightarrow> Q (scanRecord unm x)"
  shows "distinct (map f_Fingerprint (map (scanRecord unm) ys))"
    and "r \<in> set (map (scanRecord unm) ys) \<longleftrightarrow> sq_view unm db m (f_Fingerprint r) = Some r \<and> Q r"
proof -
  have "mset (map (f_Fingerprint \<circ> scanRecord unm) ys) =
      mset (map (f_Fingerprint \<circ> scanRecord unm) (filter (\<lambda>x. fr_module x = m \<and> P x) (db_findings db)))"
    by (simp add: perm)
  then show "distinct (map f_Fingerprint (map (scanRecord unm) ys))"
    using sq_fingerprints_distinct [OF inv, of m P] by (metis map_map mset_eq_imp_distinct_iff)
  have "set ys = set (filter (\<lambda>x. fr_module x = m \<and> P x) (db_findings db))"
    using perm by (metis set_mset_mset)
  then show "r \<in> set (map (scanRecord unm) ys) \<longleftrightarrow> sq_view unm db m (f_Fingerprint r) = Some r \<and> Q r"
    by (auto simp: sq_view_Some_iff [OF inv] P)
qed

interpretation sq: finding_store "sqlite_iface mar unm" "sq_inv mar unm" "sq_view unm" "sq_nrm mar unm"
  "sq_storable mar" "\<lambda>_. True"
proof
  fix db m t assume inv: "sq_inv mar unm db"
  show "\<exists>rs. si_ListByTarget (sqlite_iface mar unm) db m t = Inr rs \<and> distinct (map f_Fingerprint rs) \<and>
      (\<forall>r. r \<in> set rs \<longleftrightarrow> sq_view unm db m (f_Fingerprint r) = Some r \<and> f_Target r = t)"
    using sq_listing [OF inv refl, where m = m and P = "\<lambda>x. fr_target x = t" and Q = "\<lambda>r. f_Target r = t"]
    by (simp add: sq_ListByTarget_def)
  show "\<exists>rs. si_ListOpen (sqlite_iface mar unm) db m = Inr rs \<and> distinct (map f_Fingerprint rs) \<and>
      (\<forall>r. r \<in> set rs \<longleftrightarrow> sq_view unm db m (f_Fingerprint r) = Some r \<and> f_Status r = StatusOpen)"
    using sq_listing [OF inv refl, where m = m and P = "\<lambda>x. fr_status x = StatusOpen" and
        Q = "\<lambda>r. f_Status r = StatusOpen"]
    by (simp add: sq_ListOpen_def)
  show "\<exists>rs. si_ListAll (sqlite_iface mar unm) db m = Inr rs \<and> distinct (map f_Fingerprint rs) \<and>
      (\<forall>r. r \<in> set rs \<longleftrightarrow> sq_view unm db m (f_Fingerprint r) = Some r)"
    using sq_listing [OF inv, where m = m and P = "\<lambda>_. True" and Q = "\<lambda>_. True" and
        ys = "sort_key (\<lambda>x. - fr_last_seen x) (filter (\<lambda>x. fr_module x = m) (db_findings db))"] by (simp add: sq_ListAll_def)
next
  fix db m fp and r :: frecord assume inv: "sq_inv mar unm db"
  have "(case filter (\<lambda>x. fr_module x = m \<and> fr_fingerprint x = fp) xs of [] \<Rightarrow> Inr None
      | x # _ \<Rightarrow> Inr (Some (scanRecord unm x))) =
      (Inr (map_option (scanRecord unm) (find (\<lambda>x. row_key x = (m, fp)) xs)) :: error + frecord option)" for xs
    by (induction xs) auto
  then show "si_Get (sqlite_iface mar unm) db m fp = Inr (sq_view unm db m fp)"
    by (simp add: sq_Get_def sq_view_find)
  show "f_Module r = m \<and> f_Fingerprint r = fp \<and> sq_storable mar (f_Evidence r) \<and>
      sq_nrm mar unm (f_Evidence r) = f_Evidence r" if v: "sq_view unm db m fp = Some r"
  proof (rule sq_row_of_view [OF inv v])
    fix x assume x: "r = scanRecord unm x" "x \<in> set (db_findings db)" "row_key x = (m, fp)"
    with inv have "json_stable mar unm" "evidence_ok mar x" by (auto simp: sq_inv_def)
    with x show ?thesis using scan_evidence by auto
  qed
next
  fix db and r r0 :: frecord assume "sq_inv mar unm db" "sq_storable mar (f_Evidence r)"
  then show "\<exists>s'. si_Upsert (sqlite_iface mar unm) db r = Inr s' \<and> sq_inv mar unm s' \<and>
      sq_view unm s' = view_put (sq_view unm db) (stored (sq_nrm mar unm) r)"
    if "sq_view unm db (f_Module r) (f_Fingerprint r) = Some r0" "same_identity r r0"
    using that sq_update_law by auto
  show "\<exists>s'. si_Upsert (sqlite_iface mar unm) db r = Inr s' \<and> sq_inv mar unm s' \<and>
      sq_view unm s' = view_put (sq_view unm db) (stored (sq_nrm mar unm) r)"
    if "sq_view unm db (f_Module r) (f_Fingerprint r) = None" "id_unused (sq_view unm db) (f_ID r)"
    using that sq_insert_law \<open>sq_inv mar unm db\<close> \<open>sq_storable mar (f_Evidence r)\<close> by auto
next
  fix db db' and r :: frecord assume "sq_inv mar unm db" "si_Upsert (sqlite_iface mar unm) db r = Inr db'"
  then show "sq_inv mar unm db' \<and> (\<forall>m fp. m \<noteq> f_Module r \<or> fp \<noteq> f_Fingerprint r \<longrightarrow>
      sq_view unm db' m fp = sq_view unm db m fp)"
    using sq_Upsert_inv sq_Upsert_frame by auto
qed

section \<open>Pruning\<close>

definition expired :: "time \<Rightarrow> frecord \<Rightarrow> bool" where
  "expired cutoff r \<longleftrightarrow> f_Status r = StatusResolved \<and>
     (case f_ResolvedAt r of None \<Rightarrow> False | Some t \<Rightarrow> t < cutoff)"

lemma expired_scan [simp]: "expired cutoff (scanRecord unm x) = prunable cutoff x"
  by (simp add: expired_def prunable_def)

lemma prune_inv: "sq_inv mar unm db \<Longrightarrow> sq_inv mar unm (fst (PruneResolvedBefore db cutoff))"
  by (auto simp: sq_inv_def PruneResolvedBefore_def distinct_map_filter)

lemma prune_view:
  assumes "sq_inv mar unm db"
  shows "sq_view unm (fst (PruneResolvedBefore db cutoff)) m fp =
     (case sq_view unm db m fp of None \<Rightarrow> None | Some r \<Rightarrow> if expired cutoff r then None else Some r)"
proof -
  have gone: "find (\<lambda>x. row_key x = k) (filter (\<lambda>x. \<not> P x) xs) =
      (case find (\<lambda>x. row_key x = k) xs of None \<Rightarrow> None | Some x \<Rightarrow> if P x then None else Some x)"
    if "distinct (map row_key xs)" for k P xs
    using that
  proof (induction xs)
    case (Cons x xs)
    have "find (\<lambda>x. row_key x = k) xs = None" if "row_key x = k"
      using Cons.prems that by (auto simp: find_None_iff intro: rev_image_eqI)
    with Cons show ?case by (cases "row_key x = k") auto
  qed simp
  have "distinct (map row_key (db_findings db))" using assms by (simp add: sq_inv_def)
  from gone [OF this, of "(m, fp)" "prunable cutoff"] show ?thesis
    unfolding sq_view_find PruneResolvedBefore_def
    by (cases "find (\<lambda>x. row_key x = (m, fp)) (db_findings db)") auto
qed

section \<open>Targets\<close>

lemma sq_targets_snoc:
  "sq_targets (db\<lparr>db_targets := db_targets db @ [(m, raw, c)]\<rparr>) = (sq_targets db)(m := sq_targets db m @ [(raw, c)])"
  by (auto simp: sq_targets_def)

lemma sq_targets_canonicals:
  "sq_tinv db \<Longrightarrow> distinct (map snd (sq_targets db m))"
proof -
  have "distinct (map snd (map snd (filter (\<lambda>t. fst t = m) ts)))"
    if "distinct (map (\<lambda>(m, _, c). (m, c)) ts)" for ts :: "(string \<times> string \<times> string) list"
    using that by (induction ts) (force simp: image_iff)+
  then show "sq_tinv db \<Longrightarrow> distinct (map snd (sq_targets db m))"
    unfolding sq_tinv_def sq_targets_def by blast
qed

interpretation sq_targets: target_store sqlite_target_iface sq_targets sq_tinv
proof
  fix db m raw canonical assume inv: "sq_tinv db"
  have there: "list_ex (\<lambda>(m', _, c). m' = m \<and> c = canonical) (db_targets db) = (canonical \<in> snd ` set (sq_targets db m))"
    by (force simp: list_ex_iff sq_targets_def)
  have eq: "sq_SaveTarget db m raw canonical = Inr (if canonical \<in> snd ` set (sq_targets db m) then db
      else db\<lparr>db_targets := db_targets db @ [(m, raw, canonical)]\<rparr>)"
    by (simp only: sq_SaveTarget_def there)
  have new: "sq_tinv (db\<lparr>db_targets := db_targets db @ [(m, raw, canonical)]\<rparr>)"
    if "canonical \<notin> snd ` set (sq_targets db m)"
    using inv that by (force simp: sq_tinv_def sq_targets_def)
  show "\<exists>s'. ti_SaveTarget sqlite_target_iface db m raw canonical = Inr s' \<and> sq_tinv s' \<and>
      sq_targets s' = (sq_targets db)(m := add_target (sq_targets db m) (raw, canonical))"
  proof (cases "canonical \<in> snd ` set (sq_targets db m)")
    case True
    then show ?thesis using inv by (simp add: eq add_target_def)
  next
    case False
    then show ?thesis using new by (simp add: eq add_target_def sq_targets_snoc)
  qed
next
  fix db m canonical assume inv: "sq_tinv db"
  let ?db = "db\<lparr>db_targets := filter (\<lambda>(m', _, c). \<not> (m' = m \<and> c = canonical)) (db_targets db)\<rparr>"
  have "sq_targets ?db = (sq_targets db)(m := filter (\<lambda>t. snd t \<noteq> canonical) (sq_targets db m))"
    by (auto simp: sq_targets_def fun_eq_iff filter_map comp_def intro!: arg_cong [of _ _ "map snd"] filter_cong)
  moreover have "sq_tinv ?db" using inv by (simp add: sq_tinv_def distinct_map_filter)
  ultimately show "\<exists>s'. ti_DeleteTarget sqlite_target_iface db m canonical = Inr s' \<and> sq_tinv s' \<and>
      sq_targets s' = (sq_targets db)(m := filter (\<lambda>t. snd t \<noteq> canonical) (sq_targets db m))"
    by (auto simp: sq_DeleteTarget_def)
next
  fix db m assume "sq_tinv db"
  then show "distinct (map snd (sq_targets db m))" by (rule sq_targets_canonicals)
  show "ti_ListSavedTargets sqlite_target_iface db m = Inr (map fst (sq_targets db m))"
    by (simp add: sq_ListSavedTargets_def sq_targets_def comp_def case_prod_beta')
qed

section \<open>Properties\<close>

definition sample_mar :: marshal where "sample_mar ev = Some ''{}''"

definition sample_unm :: unmarshal where "sample_unm b = Some (Some [])"

definition sample_engine :: "sqlite_db engine" where
  "sample_engine = \<lparr>e_store = sqlite_iface sample_mar sample_unm, e_newID = sample_ids, e_marshal = sample_mar\<rparr>"

definition sample_db :: sqlite_db where
  "sample_db = projr (sq_Upsert sample_mar NewSQLiteStore sample_record)"

lemma sample_engine_fields [simp]: "e_store sample_engine = sqlite_iface sample_mar sample_unm"
  "e_newID sample_engine = sample_ids" "e_marshal sample_engine = sample_mar"
  by (simp_all add: sample_engine_def)

lemma empty_db: "json_stable mar unm \<Longrightarrow> sq_inv mar unm NewSQLiteStore" "sq_view unm NewSQLiteStore m fp = None"
  by (simp_all add: sq_inv_def sq_view_def NewSQLiteStore_def)

lemma sample_json: "json_stable sample_mar sample_unm"
  by (simp add: json_stable_def sample_mar_def sample_unm_def)

lemma sample_db_facts:
  "sq_inv sample_mar sample_unm sample_db" "sq_view sample_unm sample_db m fp = (if m = ''m'' \<and> fp = ''fp'' then Some sample_record else None)"
proof -
  have nrm: "stored (sq_nrm sample_mar sample_unm) sample_record = sample_record"
    by (rule stored_id) (simp add: sq_nrm_def)
  obtain db where db: "sq_Upsert sample_mar NewSQLiteStore sample_record = Inr db" "sq_inv sample_mar sample_unm db"
    "sq_view sample_unm db = view_put (sq_view sample_unm NewSQLiteStore) sample_record"
    using sq.insert_law [OF empty_db(1) [OF sample_json], of sample_record] nrm
    by (auto simp: empty_db(2) id_unused_def sq_storable_def)
  then have "sample_db = db" by (simp add: sample_db_def)
  with db show "sq_inv sample_mar sample_unm sample_db"
    "sq_view sample_unm sample_db m fp = (if m = ''m'' \<and> fp = ''fp'' then Some sample_record else None)"
    by (simp_all add: view_put_apply empty_db(2))
qed

lemma sample_db_ids: "ids_fresh sample_ids now n (sq_view sample_unm sample_db)"
  by (rule sample_ids_fresh) (simp add: sample_db_facts split: if_splits)



text \<open>
  C3. Resolution by absence on the SQLite store: over any sequence of successful scans of its target that do not report a live finding,
  the finding keeps its identity and its status until the number of its absences reaches the module's threshold, and is
  resolved from then on.
\<close>

theorem absent_findings_resolve:
  assumes "scans e mi tgt db n hist db' n'" "e_store e = sqlite_iface mar unm" "sq_inv mar unm db"
    and "\<forall>(now, fresh) \<in> set hist. fp \<notin> reported (e_marshal e) fresh"
    and "sq_view unm db (mi_ID mi) fp = Some r" "f_Target r = tgt" "live r"
    and "0 \<le> r_AbsentStreak r" "r_AbsentStreak r + int (length hist) < 2 ^ 63" "r_AbsentStreak r < ResolveAfterOrDefault mi"
  shows "\<exists>r'. sq_view unm db' (mi_ID mi) fp = Some r' \<and> f_ID r' = f_ID r \<and> f_Target r' = tgt \<and>
     f_Status r' = (if ResolveAfterOrDefault mi \<le> r_AbsentStreak r + int (length hist)
                    then StatusResolved else f_Status r)"
  using assms by (intro sq.absences_resolve [of e mi tgt db n hist db' n']) simp_all

theorem absent_findings_resolve_witness:
  "\<exists>r db. sq_view sample_unm db ''m'' ''fp'' = Some r \<and> f_ID r = ''id'' \<and> f_Status r = StatusResolved"
proof -
  let ?R = "Reconcile sample_engine sample_module ''d.e'' []"
  define st1 where "st1 = fst (?R 7 sample_db 0)"
  define st2 where "st2 = fst (?R 8 (st_store st1) (st_ids st1))"
  have "snd (?R 7 sample_db 0) = None" by code_simp
  then have 1: "?R 7 sample_db 0 = (st1, None)" by (simp add: st1_def prod_eq_iff)
  have "snd (?R 8 (st_store st1) (st_ids st1)) = None" unfolding st1_def by code_simp
  then have 2: "?R 8 (st_store st1) (st_ids st1) = (st2, None)" by (simp add: st2_def prod_eq_iff)
  have "scans sample_engine sample_module ''d.e'' sample_db 0 [(7, []), (8, [])] (st_store st2) (st_ids st2)"
    by (rule scans.more [OF 1 scans.more [OF 2 scans.none]])
  from absent_findings_resolve [OF this, of sample_mar sample_unm "''fp''" sample_record] show ?thesis
    by (auto simp: sample_db_facts reported_eq live_def)
qed

text \<open>
  C31. Whatever its outcome, also when it stops at an error of the store, \<^verbatim>\<open>Reconcile\<close> keeps the invariant of the SQLite store and leaves
  alone every finding of another module, and every finding of the module that belongs to another target and was not reported.
\<close>

theorem sqlite_scan_frame:
  assumes "e_store e = sqlite_iface mar unm" "sq_inv mar unm db" "Reconcile e mi tgt fresh now db n = (st, res)"
  shows "sq_inv mar unm (st_store st) \<and>
     (\<forall>m fp. m \<noteq> mi_ID mi \<or> fp \<notin> reported (e_marshal e) fresh \<and> (\<forall>r. sq_view unm db m fp = Some r \<longrightarrow> f_Target r \<noteq> tgt) \<longrightarrow>
        sq_view unm (st_store st) m fp = sq_view unm db m fp)"
  using sq.reconcile_frame [OF assms(1,2) TrueI assms(3)] by blast

theorem sqlite_scan_frame_witness:
  "sq_view sample_unm (st_store (fst (Reconcile sample_engine sample_module ''other'' [] 7 sample_db 0))) ''m'' ''fp'' = Some sample_record"
proof -
  obtain st res where run: "Reconcile sample_engine sample_module ''other'' [] 7 sample_db 0 = (st, res)" by fastforce
  from sqlite_scan_frame [OF _ sample_db_facts(1) run] show ?thesis by (simp add: run sample_db_facts(2) reported_eq)
qed




definition suppressed_db :: sqlite_db where
  "suppressed_db = projr (sq_Upsert sample_mar sample_db (sample_record\<lparr>f_Status := StatusSuppressed\<rparr>))"

lemma suppressed_db_facts:
  "sq_inv sample_mar sample_unm suppressed_db"
  "sq_view sample_unm suppressed_db m fp = (if m = ''m'' \<and> fp = ''fp'' then Some (sample_record\<lparr>f_Status := StatusSuppressed\<rparr>) else None)"
proof -
  let ?r = "sample_record\<lparr>f_Status := StatusSuppressed\<rparr>"
  have nrm: "stored (sq_nrm sample_mar sample_unm) ?r = ?r" by (rule stored_id) (simp add: sq_nrm_def)
  have old: "sq_view sample_unm sample_db (f_Module ?r) (f_Fingerprint ?r) = Some sample_record" by (simp add: sample_db_facts)
  obtain db where db: "sq_Upsert sample_mar sample_db ?r = Inr db" "sq_inv sample_mar sample_unm db"
    "sq_view sample_unm db = view_put (sq_view sample_unm sample_db) ?r"
    using sq.update_law [OF sample_db_facts(1) old] nrm by (auto simp: same_identity_def sq_storable_def)
  then have "suppressed_db = db" by (simp add: suppressed_db_def)
  with db show "sq_inv sample_mar sample_unm suppressed_db"
    "sq_view sample_unm suppressed_db m fp = (if m = ''m'' \<and> fp = ''fp'' then Some ?r else None)"
    by (simp_all add: view_put_apply sample_db_facts(2))
qed


text \<open>
  Retention: pruning before a cutoff removes exactly the resolved findings whose resolution lies before it, leaves every other finding
  as it was, keeps the invariant, and returns the number of rows it removed.
\<close>

lemma prune_removes_expired:
  assumes "sq_inv mar unm db"
  shows "sq_inv mar unm (fst (PruneResolvedBefore db cutoff)) \<and>
     (\<forall>m fp. sq_view unm (fst (PruneResolvedBefore db cutoff)) m fp =
        (case sq_view unm db m fp of None \<Rightarrow> None | Some r \<Rightarrow> if expired cutoff r then None else Some r)) \<and>
     int (length (db_findings (fst (PruneResolvedBefore db cutoff)))) + snd (PruneResolvedBefore db cutoff) = int (length (db_findings db))"
proof -
  have "length (filter (\<lambda>x. \<not> P x) xs) + length (filter P xs) = length xs" for P and xs :: "frow list"
    using sum_length_filter_compl [of P xs] by simp
  from this [of "prunable cutoff" "db_findings db"] show ?thesis using prune_inv [OF assms] prune_view [OF assms]
    by (simp add: PruneResolvedBefore_def flip: of_nat_add)
qed

lemma prune_removes_expired_witness:
  "sq_view sample_unm (fst (PruneResolvedBefore sample_db 99)) ''m'' ''fp'' = Some sample_record"
  using prune_removes_expired [OF sample_db_facts(1)] by (simp add: sample_db_facts(2) expired_def)

text \<open>
  The configured targets survive a restart on the SQLite store: saving targets with different canonical forms for a module that has none makes
  the store list their raw inputs in the order of the saves, the targets of other modules stay, and saving then deleting a new target
  changes no list.
\<close>

lemma saved_targets_round_trip:
  assumes "sq_tinv db" "sq_targets db m = []" "distinct (map snd us)"
  shows "(\<exists>db'. save_all sqlite_target_iface m db us = (db', None) \<and> sq_tinv db' \<and> sq_ListSavedTargets db' m = Inr (map fst us) \<and>
       (\<forall>m'. m' \<noteq> m \<longrightarrow> sq_ListSavedTargets db' m' = sq_ListSavedTargets db m')) \<and>
     (\<forall>raw can. \<exists>db1 db2. sq_SaveTarget db m raw can = Inr db1 \<and> sq_DeleteTarget db1 m can = Inr db2 \<and>
       (\<forall>m'. sq_ListSavedTargets db2 m' = sq_ListSavedTargets db m'))"
  using sq_targets.saved_targets_restore [OF assms] sq_targets.delete_saved [OF assms(1), of _ m] assms(2) by simp

lemma saved_targets_round_trip_witness:
  "\<exists>db. save_all sqlite_target_iface ''m'' NewSQLiteStore [(''D.e'', ''d.e''), (''f.g'', ''f.g'')] = (db, None) \<and>
     sq_ListSavedTargets db ''m'' = Inr [''D.e'', ''f.g'']"
  using saved_targets_round_trip [of NewSQLiteStore "''m''" "[(''D.e'', ''d.e''), (''f.g'', ''f.g'')]"]
  by (auto simp: NewSQLiteStore_def sq_tinv_def sq_targets_def)

end
