(* ===== verification/Dmarc_Report.thy ===== *)
theory Dmarc_Report
  imports Prelude
begin

text \<open>
  Package \<^verbatim>\<open>dmarcrep\<close> (\<^verbatim>\<open>dmarcrep/dmarcrep.go\<close>): aggregate reports and their parser.

  The decoders of the standard library are the fields of \<open>parser_env\<close>: \<open>pe_xml\<close> is the non-strict XML decoding into the
  wire structs, \<open>pe_zip\<close> the directory of an archive, \<open>pe_gzip\<close> the stream a gzip reader yields, \<open>pe_ip\<close>
  is \<^verbatim>\<open>net.ParseIP\<close> followed by \<^verbatim>\<open>IP.String\<close>, \<open>pe_lower\<close> the case table of non-ASCII runes. A stream is what it yields before
  its end and the error it ends with, if any.

  \<^verbatim>\<open>ParseFile\<close> calls itself on the members of an archive, and nothing bounds how deep archives nest, so
  the model counts the nesting it still follows; \<open>None\<close> is a run that has not returned at that depth.
\<close>

section \<open>Data\<close>

record rrecord =
  rc_SourceIP :: string
  rc_Count :: int
  rc_Disposition :: string
  rc_EvalDKIM :: string
  rc_EvalSPF :: string
  rc_HeaderFrom :: string
  rc_AuthDKIM :: string
  rc_AuthSPF :: string

record report =
  rp_Org :: string
  rp_Email :: string
  rp_ReportID :: string
  rp_Begin :: time
  rp_End :: time
  rp_Domain :: string
  rp_Policy :: string
  rp_SubPolicy :: string
  rp_Pct :: int
  rp_Records :: "rrecord list"

definition Aligned :: "rrecord \<Rightarrow> bool" where
  "Aligned r \<longleftrightarrow> EqualFold (rc_EvalDKIM r) ''pass'' \<or> EqualFold (rc_EvalSPF r) ''pass''"

definition FailsBoth :: "rrecord \<Rightarrow> bool" where
  "FailsBoth r \<longleftrightarrow> \<not> Aligned r"

definition Key :: "report \<Rightarrow> string" where
  "Key r = rp_Org r @ ''|'' @ rp_ReportID r @ ''|'' @ rp_Domain r"

text \<open>The wire structs, flattened; of the authentication results only the domains are read.\<close>

record xml_record =
  xr_SourceIP :: string
  xr_Count :: int
  xr_Disposition :: string
  xr_DKIM :: string
  xr_SPF :: string
  xr_HeaderFrom :: string
  xr_AuthDKIM :: "string list"
  xr_AuthSPF :: "string list"

record xml_feedback =
  xf_OrgName :: string
  xf_Email :: string
  xf_ReportID :: string
  xf_Begin :: int
  xf_End :: int
  xf_Domain :: string
  xf_P :: string
  xf_SP :: string
  xf_Pct :: "int option"
  xf_Records :: "xml_record list"

text \<open>An error and whether \<^verbatim>\<open>errors.Is(err, ErrNotAReport)\<close> holds of it.\<close>

datatype perror = PError (is_not_a_report: bool) (perror_text: string)

type_synonym stream = "string \<times> error option"

record zip_member =
  zm_Name :: string
  zm_IsDir :: bool
  zm_Open :: "error + stream"

record parser_env =
  pe_xml :: "string \<Rightarrow> error + xml_feedback"
  pe_zip :: "string \<Rightarrow> error + zip_member list"
  pe_gzip :: "string \<Rightarrow> error + stream"
  pe_ip :: "string \<Rightarrow> string option"
  pe_lower :: "string \<Rightarrow> string"

section \<open>Parsing\<close>

definition MaxDecompressedBytes :: nat where "MaxDecompressedBytes = 32 * 2 ^ 20"

definition ErrNotAReport :: string where "ErrNotAReport = ''not a DMARC aggregate report''"

definition not_a_report :: "string \<Rightarrow> perror" where
  "not_a_report why = PError True (ErrNotAReport @ '': '' @ why)"

definition wrap_error :: "string \<Rightarrow> perror \<Rightarrow> perror" where
  "wrap_error prefix e = PError (is_not_a_report e) (prefix @ '': '' @ perror_text e)"

text \<open>\<^verbatim>\<open>io.ReadAll(io.LimitReader(r, n))\<close>: what follows the first \<open>n\<close> bytes is not read, nor is an error there.\<close>

definition read_limited :: "nat \<Rightarrow> stream \<Rightarrow> error + string" where
  "read_limited n s =
     (if n \<le> length (fst s) then Inr (take n (fst s))
      else case snd s of None \<Rightarrow> Inr (fst s) | Some err \<Rightarrow> Inl err)"

definition gunzip :: "parser_env \<Rightarrow> string \<Rightarrow> error + string" where
  "gunzip env data =
     (case pe_gzip env data of
        Inl err \<Rightarrow> Inl err
      | Inr gr \<Rightarrow>
          (case read_limited (MaxDecompressedBytes + 1) gr of
             Inl err \<Rightarrow> Inl err
           | Inr out \<Rightarrow>
               if length out > MaxDecompressedBytes then Inl ''decompressed payload exceeds size cap''
               else Inr out))"

definition normalizeIP :: "parser_env \<Rightarrow> string \<Rightarrow> string" where
  "normalizeIP env s =
     (let s = TrimSpace s in case pe_ip env s of Some ip \<Rightarrow> ip | None \<Rightarrow> s)"

definition parse_record :: "parser_env \<Rightarrow> xml_record \<Rightarrow> rrecord" where
  "parse_record env xr =
     (let low = ToLower (pe_lower env) in
      \<lparr>rc_SourceIP = normalizeIP env (xr_SourceIP xr),
       rc_Count = (if xr_Count xr \<le> 0 then 1 else xr_Count xr),
       rc_Disposition = low (TrimSpace (xr_Disposition xr)),
       rc_EvalDKIM = low (TrimSpace (xr_DKIM xr)),
       rc_EvalSPF = low (TrimSpace (xr_SPF xr)),
       rc_HeaderFrom = low (TrimSpace (xr_HeaderFrom xr)),
       rc_AuthDKIM = (case xr_AuthDKIM xr of [] \<Rightarrow> [] | d # _ \<Rightarrow> low d),
       rc_AuthSPF = (case xr_AuthSPF xr of [] \<Rightarrow> [] | d # _ \<Rightarrow> low d)\<rparr>)"

definition ParseXML :: "parser_env \<Rightarrow> string \<Rightarrow> perror + report" where
  "ParseXML env data =
     (case pe_xml env data of
        Inl err \<Rightarrow> Inl (not_a_report err)
      | Inr fb \<Rightarrow>
          (let low = ToLower (pe_lower env); domain = low (TrimSpace (xf_Domain fb)) in
           if xf_OrgName fb = [] \<and> xf_ReportID fb = [] then Inl (not_a_report ''missing report_metadata'')
           else if domain = [] then Inl (not_a_report ''missing policy_published>domain'')
           else if xf_Records fb = [] then Inl (not_a_report ''no records'')
           else
             (let recs = filter (\<lambda>r. rc_SourceIP r \<noteq> []) (map (parse_record env) (xf_Records fb)) in
              if recs = [] then Inl (not_a_report ''all records lacked a source_ip'')
              else Inr
                \<lparr>rp_Org = TrimSpace (xf_OrgName fb), rp_Email = TrimSpace (xf_Email fb),
                 rp_ReportID = TrimSpace (xf_ReportID fb),
                 rp_Begin = time_Unix (xf_Begin fb), rp_End = time_Unix (xf_End fb),
                 rp_Domain = domain, rp_Policy = low (TrimSpace (xf_P fb)),
                 rp_SubPolicy = low (TrimSpace (xf_SP fb)),
                 rp_Pct = (case xf_Pct fb of None \<Rightarrow> 100 | Some p \<Rightarrow> p),
                 rp_Records = recs\<rparr>)))"

text \<open>
  The loop over the members of an archive; \<open>parse\<close> is the call of \<^verbatim>\<open>ParseFile\<close> on a member. A member is
  \<open>readable\<close> when the loop reaches that call.
\<close>

definition member_data :: "parser_env \<Rightarrow> zip_member \<Rightarrow> string option" where
  "member_data env f =
     (let name = ToLower (pe_lower env) (zm_Name f) in
      if zm_IsDir f then None
      else if \<not> HasSuffix name ''.xml'' \<and> \<not> HasSuffix name ''.xml.gz'' then None
      else case zm_Open f of
             Inl err \<Rightarrow> None
           | Inr rc \<Rightarrow>
               (case read_limited (MaxDecompressedBytes + 1) rc of
                  Inl err \<Rightarrow> None
                | Inr member \<Rightarrow> if length member > MaxDecompressedBytes then None else Some member))"

fun zip_loop ::
  "parser_env \<Rightarrow> (string \<Rightarrow> string \<Rightarrow> (perror + report list) option) \<Rightarrow>
   report list \<Rightarrow> perror option \<Rightarrow> zip_member list \<Rightarrow> (report list \<times> perror option) option" where
  "zip_loop env parse out firstErr [] = Some (out, firstErr)"
| "zip_loop env parse out firstErr (f # fs) =
     (case member_data env f of
        None \<Rightarrow> zip_loop env parse out firstErr fs
      | Some member \<Rightarrow>
          (case parse (zm_Name f) member of
             None \<Rightarrow> None
           | Some (Inl err) \<Rightarrow>
               zip_loop env parse out (case firstErr of None \<Rightarrow> Some err | Some e \<Rightarrow> Some e) fs
           | Some (Inr reps) \<Rightarrow> zip_loop env parse (out @ reps) firstErr fs))"

definition parseZip ::
  "parser_env \<Rightarrow> (string \<Rightarrow> string \<Rightarrow> (perror + report list) option) \<Rightarrow> string \<Rightarrow> string \<Rightarrow>
   (perror + report list) option" where
  "parseZip env parse filename data =
     (case pe_zip env data of
        Inl err \<Rightarrow> Some (Inl (PError False (filename @ '': zip: '' @ err)))
      | Inr files \<Rightarrow>
          (case zip_loop env parse [] None files of
             None \<Rightarrow> None
           | Some (out, firstErr) \<Rightarrow>
               if out = [] then
                 (case firstErr of
                    Some err \<Rightarrow> Some (Inl err)
                  | None \<Rightarrow> Some (Inl (wrap_error filename (not_a_report ''zip contains no report XML''))))
               else Some (Inr out)))"

definition is_zip :: "string \<Rightarrow> bool" where
  "is_zip data \<longleftrightarrow> length data \<ge> 4 \<and> take 2 data = ''PK''"

definition is_gzip :: "string \<Rightarrow> bool" where
  "is_gzip data \<longleftrightarrow> length data \<ge> 2 \<and> take 2 data = [CHR 0x1F, CHR 0x8B]"

definition parse_one :: "parser_env \<Rightarrow> string \<Rightarrow> string \<Rightarrow> perror + report list" where
  "parse_one env filename data =
     (case ParseXML env data of
        Inl err \<Rightarrow> Inl (wrap_error filename err)
      | Inr rep \<Rightarrow> Inr [rep])"

fun ParseFile :: "parser_env \<Rightarrow> nat \<Rightarrow> string \<Rightarrow> string \<Rightarrow> (perror + report list) option" where
  "ParseFile env 0 filename data = None"
| "ParseFile env (Suc n) filename data =
     (if is_zip data then parseZip env (ParseFile env n) filename data
      else if is_gzip data then
        (case gunzip env data of
           Inl err \<Rightarrow> Some (Inl (PError False (filename @ '': gzip: '' @ err)))
         | Inr xmlBytes \<Rightarrow> Some (parse_one env filename xmlBytes))
      else Some (parse_one env filename data))"

section \<open>Well-formed reports\<close>

definition record_ok :: "rrecord \<Rightarrow> bool" where
  "record_ok r \<longleftrightarrow> rc_SourceIP r \<noteq> [] \<and> 1 \<le> rc_Count r"

definition report_ok :: "report \<Rightarrow> bool" where
  "report_ok rep \<longleftrightarrow> rp_Domain rep \<noteq> [] \<and> rp_Records rep \<noteq> [] \<and> list_all record_ok (rp_Records rep)"

lemma parse_record_ok: "rc_SourceIP (parse_record env xr) \<noteq> [] \<Longrightarrow> record_ok (parse_record env xr)"
  by (simp add: record_ok_def parse_record_def Let_def)

lemma ParseXML_ok: "ParseXML env data = Inr rep \<Longrightarrow> report_ok rep"
  by (auto simp: ParseXML_def Let_def report_ok_def list_all_iff parse_record_ok split: sum.splits if_splits)

lemma ParseXML_error: "ParseXML env data = Inl err \<Longrightarrow> is_not_a_report err"
  by (auto simp: ParseXML_def Let_def not_a_report_def split: sum.splits if_splits)

text \<open>When a decoded payload is accepted, and which rows are kept.\<close>

lemma ParseXML_accepts_iff:
  assumes "pe_xml env data = Inr fb"
  shows "(\<exists>rep. ParseXML env data = Inr rep) \<longleftrightarrow>
     (xf_OrgName fb \<noteq> [] \<or> xf_ReportID fb \<noteq> []) \<and>
     ToLower (pe_lower env) (TrimSpace (xf_Domain fb)) \<noteq> [] \<and>
     (\<exists>xr \<in> set (xf_Records fb). normalizeIP env (xr_SourceIP xr) \<noteq> [])"
proof -
  have "filter (\<lambda>r. rc_SourceIP r \<noteq> []) (map (parse_record env) xs) = [] \<longleftrightarrow>
      \<not> (\<exists>xr \<in> set xs. normalizeIP env (xr_SourceIP xr) \<noteq> [])" for xs
    by (auto simp: filter_empty_conv parse_record_def Let_def)
  then show ?thesis using assms by (auto simp: ParseXML_def Let_def)
qed

lemma zip_loop_out:
  assumes "zip_loop env parse out fe fs = Some (out', fe')"
    and "\<And>n d reps. parse n d = Some (Inr reps) \<Longrightarrow> list_all P reps" "list_all P out"
  shows "list_all P out'"
  using assms
proof (induction fs arbitrary: out fe)
  case (Cons f fs)
  from Cons.prems(1) obtain out1 fe1 where step: "zip_loop env parse out1 fe1 fs = Some (out', fe')"
      and "out1 = out \<or> (\<exists>d reps. parse (zm_Name f) d = Some (Inr reps) \<and> out1 = out @ reps)"
    by (auto split: option.splits sum.splits)
  then have "list_all P out1" using Cons.prems(2,3) by auto
  then show ?case by (rule Cons.IH [OF step Cons.prems(2), rotated])
qed simp

lemma ParseFile_ok:
  "ParseFile env n filename data = Some (Inr reps) \<Longrightarrow> reps \<noteq> [] \<and> list_all report_ok reps"
proof (induction n arbitrary: filename data reps)
  case (Suc n)
  show ?case
  proof (cases "is_zip data")
    case True
    with Suc.prems obtain fs fe where "zip_loop env (ParseFile env n) [] None fs = Some (reps, fe)" "reps \<noteq> []"
      by (auto simp: parseZip_def split: sum.splits option.splits if_splits)
    moreover have "list_all report_ok reps"
      by (rule zip_loop_out [OF calculation(1)]) (simp_all add: Suc.IH)
    ultimately show ?thesis by simp
  next
    case False
    with Suc.prems show ?thesis
      by (auto simp: parse_one_def ParseXML_ok split: sum.splits if_splits)
  qed
qed simp

section \<open>Nesting depth\<close>

lemma zip_loop_mono:
  assumes "zip_loop env p out fe fs = Some r" and "\<And>f d x. p f d = Some x \<Longrightarrow> q f d = Some x"
  shows "zip_loop env q out fe fs = Some r"
  using assms(1)
proof (induction fs arbitrary: out fe)
  case (Cons f fs)
  then show ?case using assms(2) by (auto split: option.splits sum.splits)
qed simp

lemma ParseFile_Suc:
  "ParseFile env n filename data = Some r \<Longrightarrow> ParseFile env (Suc n) filename data = Some r"
proof (induction n arbitrary: filename data r)
  case (Suc n)
  show ?case
  proof (cases "is_zip data")
    case True
    have mono: "zip_loop env (ParseFile env (Suc n)) out fe fs = Some x"
      if "zip_loop env (ParseFile env n) out fe fs = Some x" for out fe fs x
      by (rule zip_loop_mono [OF that Suc.IH])
    have "parseZip env (ParseFile env n) filename data = Some r" using Suc.prems True by simp
    then have "parseZip env (ParseFile env (Suc n)) filename data = Some r"
      by (auto simp: parseZip_def mono split: sum.splits option.splits prod.splits)
    with True show ?thesis by (simp only: ParseFile.simps(2) if_True)
  next
    case False
    with Suc.prems show ?thesis by simp
  qed
qed simp

lemma ParseFile_mono:
  assumes "ParseFile env n filename data = Some r" "n \<le> m"
  shows "ParseFile env m filename data = Some r"
  using assms(2,1)
proof (induction m rule: dec_induct)
  case (step m)
  from step.IH [OF step.prems] show ?case by (rule ParseFile_Suc)
qed simp

lemma zip_loop_returns:
  assumes "\<And>f d. f \<in> set fs \<Longrightarrow> member_data env f = Some d \<Longrightarrow> parse (zm_Name f) d \<noteq> None"
  shows "\<exists>r. zip_loop env parse out fe fs = Some r"
  using assms
proof (induction fs arbitrary: out fe)
  case (Cons f fs)
  have rest: "\<exists>r. zip_loop env parse out fe fs = Some r" for out fe
    using Cons.IH Cons.prems by simp
  show ?case using Cons.prems [of f] rest by (auto split: option.split sum.split)
qed simp

text \<open>An archive whose nesting is bounded by a depth function parses within that depth.\<close>

lemma ParseFile_depth:
  assumes "\<And>d fs f d'. is_zip d \<Longrightarrow> pe_zip env d = Inr fs \<Longrightarrow> f \<in> set fs \<Longrightarrow> member_data env f = Some d' \<Longrightarrow>
      depth d' < (depth d :: nat)"
  shows "depth data < n \<Longrightarrow> \<exists>r. ParseFile env n filename data = Some r"
proof (induction n arbitrary: filename data)
  case (Suc n)
  show ?case
  proof (cases "is_zip data")
    case True
    show ?thesis
    proof (cases "pe_zip env data")
      case (Inl err)
      with True show ?thesis by (simp add: parseZip_def)
    next
      case (Inr fs)
      have "\<exists>r. zip_loop env (ParseFile env n) [] None fs = Some r"
      proof (rule zip_loop_returns)
        fix f d assume "f \<in> set fs" "member_data env f = Some d"
        then have "depth d < n" using assms [OF True Inr] Suc.prems by fastforce
        from Suc.IH [OF this] show "ParseFile env n (zm_Name f) d \<noteq> None" by auto
      qed
      then obtain out fe where "zip_loop env (ParseFile env n) [] None fs = Some (out, fe)" by auto
      with True Inr show ?thesis by (simp add: parseZip_def split: option.split)
    qed
  next
    case False
    then show ?thesis by (simp split: sum.split)
  qed
qed simp

lemma zip_loop_stuck:
  "f \<in> set fs \<Longrightarrow> member_data env f = Some d \<Longrightarrow> parse (zm_Name f) d = None \<Longrightarrow>
     zip_loop env parse out fe fs = None"
  by (induction fs arbitrary: out fe) (auto split: option.splits sum.splits)

text \<open>An archive that contains itself under a name the loop accepts is never done with.\<close>

lemma ParseFile_self_containing:
  assumes "is_zip data" "pe_zip env data = Inr fs" "f \<in> set fs" "member_data env f = Some data"
  shows "ParseFile env n filename data = None"
proof (induction n arbitrary: filename)
  case (Suc n)
  have "zip_loop env (ParseFile env n) [] None fs = None"
    by (rule zip_loop_stuck [of f fs env data]) (rule assms(3,4) Suc.IH)+
  with assms(1,2) show ?case by (simp add: parseZip_def)
qed simp

section \<open>Properties\<close>

definition sample_feedback :: xml_feedback where
  "sample_feedback = \<lparr>xf_OrgName = ''o'', xf_Email = [], xf_ReportID = ''1'', xf_Begin = 0, xf_End = 86400, xf_Domain = ''d.e'',
     xf_P = ''none'', xf_SP = [], xf_Pct = None,
     xf_Records = [\<lparr>xr_SourceIP = ''1.2.3.4'', xr_Count = 2, xr_Disposition = ''none'', xr_DKIM = ''PASS'', xr_SPF = ''fail'',
       xr_HeaderFrom = ''d.e'', xr_AuthDKIM = [], xr_AuthSPF = []\<rparr>]\<rparr>"

text \<open>An environment in which the text \<^verbatim>\<open>x\<close> is a report and every archive holds one member with the given content.\<close>

definition sample_parser :: "string \<Rightarrow> parser_env" where
  "sample_parser member = \<lparr>pe_xml = \<lambda>d. if d = ''x'' then Inr sample_feedback else Inl ''EOF'',
     pe_zip = \<lambda>_. Inr [\<lparr>zm_Name = ''a.xml'', zm_IsDir = False, zm_Open = Inr (member, None)\<rparr>],
     pe_gzip = \<lambda>_. Inl ''invalid header'', pe_ip = Some, pe_lower = id\<rparr>"

lemma lower_name: "ToLower id ''a.xml'' = ''a.xml''"
  by (simp add: ascii_eval)

definition sample_parsed :: report where
  "sample_parsed = \<lparr>rp_Org = ''o'', rp_Email = [], rp_ReportID = ''1'', rp_Begin = time_Unix 0, rp_End = time_Unix 86400, rp_Domain = ''d.e'',
     rp_Policy = ''none'', rp_SubPolicy = [], rp_Pct = 100,
     rp_Records = [\<lparr>rc_SourceIP = ''1.2.3.4'', rc_Count = 2, rc_Disposition = ''none'', rc_EvalDKIM = ''pass'', rc_EvalSPF = ''fail'',
       rc_HeaderFrom = ''d.e'', rc_AuthDKIM = [], rc_AuthSPF = []\<rparr>]\<rparr>"

lemma sample_parse: "ParseXML (sample_parser m) ''x'' = Inr sample_parsed"
  by (simp add: ParseXML_def sample_parser_def sample_feedback_def sample_parsed_def parse_record_def normalizeIP_def Let_def ascii_eval)

lemma sample_member:
  assumes "length member < 10"
  shows "member_data (sample_parser m) \<lparr>zm_Name = ''a.xml'', zm_IsDir = False, zm_Open = Inr (member, None)\<rparr> = Some member"
  using assms
  by (simp add: member_data_def sample_parser_def lower_name HasSuffix_def read_limited_def MaxDecompressedBytes_def)

text \<open>
  C11. What the parser accepts: a decoded payload gives a report exactly when it names an organisation or a report
  identifier, a domain, and at least one row with a source address. The report then has a domain and at least one row,
  every row an address and a count of at least 1, its rows are the payload's rows with an address, in their order, and every
  refusal is marked as not a report.
\<close>

theorem parser_accepts:
  assumes "pe_xml env data = Inr fb"
  shows "((\<exists>rep. ParseXML env data = Inr rep) \<longleftrightarrow>
       (xf_OrgName fb \<noteq> [] \<or> xf_ReportID fb \<noteq> []) \<and> ToLower (pe_lower env) (TrimSpace (xf_Domain fb)) \<noteq> [] \<and>
       (\<exists>xr \<in> set (xf_Records fb). normalizeIP env (xr_SourceIP xr) \<noteq> [])) \<and>
     (\<forall>rep. ParseXML env data = Inr rep \<longrightarrow> report_ok rep \<and>
        rp_Records rep = map (parse_record env) (filter (\<lambda>xr. normalizeIP env (xr_SourceIP xr) \<noteq> []) (xf_Records fb))) \<and>
     (\<forall>err. ParseXML env data = Inl err \<longrightarrow> is_not_a_report err)"
proof (intro conjI allI impI)
  fix rep assume ok: "ParseXML env data = Inr rep"
  show "report_ok rep" by (rule ParseXML_ok [OF ok])
  have "filter (\<lambda>r. rc_SourceIP r \<noteq> []) (map (parse_record env) xs) =
      map (parse_record env) (filter (\<lambda>xr. normalizeIP env (xr_SourceIP xr) \<noteq> []) xs)" for xs
    by (simp add: filter_map comp_def parse_record_def Let_def)
  with ok assms show "rp_Records rep = map (parse_record env) (filter (\<lambda>xr. normalizeIP env (xr_SourceIP xr) \<noteq> []) (xf_Records fb))"
    by (auto simp: ParseXML_def Let_def split: if_splits)
qed (simp_all only: ParseXML_accepts_iff [OF assms] ParseXML_error)

theorem parser_accepts_witness: "\<exists>rep. ParseXML (sample_parser []) ''x'' = Inr rep"
proof -
  have "pe_xml (sample_parser []) ''x'' = Inr sample_feedback" by (simp add: sample_parser_def)
  moreover have "ToLower (pe_lower (sample_parser [])) (TrimSpace (xf_Domain sample_feedback)) \<noteq> []"
    by (simp add: sample_parser_def sample_feedback_def ascii_eval)
  moreover have "\<exists>xr \<in> set (xf_Records sample_feedback). normalizeIP (sample_parser []) (xr_SourceIP xr) \<noteq> []"
    by (simp add: sample_parser_def sample_feedback_def normalizeIP_def ascii_eval)
  ultimately show ?thesis using parser_accepts [of "sample_parser []" "''x''" sample_feedback]
    by (simp add: sample_feedback_def)
qed



text \<open>
  C33. Nothing else stops the recursion: on an archive that contains itself under a name the loop follows, no
  nesting depth is enough, so the call never returns.
\<close>

theorem self_containing_archive_diverges:
  assumes "is_zip data" "pe_zip env data = Inr fs" "f \<in> set fs" "member_data env f = Some data"
  shows "\<forall>n. ParseFile env n filename data = None"
  using ParseFile_self_containing [OF assms] by blast

theorem self_containing_archive_diverges_witness: "\<forall>n. ParseFile (sample_parser ''PK34'') n ''f'' ''PK34'' = None"
proof -
  let ?f = "\<lparr>zm_Name = ''a.xml'', zm_IsDir = False, zm_Open = Inr (''PK34'', None)\<rparr>"
  have "is_zip ''PK34''" "pe_zip (sample_parser ''PK34'') ''PK34'' = Inr [?f]" by (simp_all add: is_zip_def sample_parser_def)
  moreover have "member_data (sample_parser ''PK34'') ?f = Some ''PK34''" by (rule sample_member) simp
  ultimately show ?thesis using self_containing_archive_diverges [of "''PK34''" "sample_parser ''PK34''" "[?f]" ?f "''f''"] by simp
qed

end
