(* ===== verification/Report_Store.thy ===== *)
theory Report_Store
  imports Dmarc_Report
begin

text \<open>
  The report stores of package \<^verbatim>\<open>dmarcwatch\<close>: the aggregate view \<^verbatim>\<open>Overview\<close> and the interface \<^verbatim>\<open>Store\<close>
  (\<^verbatim>\<open>dmarcwatch/dmarcwatch.go\<close>), stated as a specification over the stored reports and as the locale
  \<open>report_store\<close>, with the consequences every lawful store shares.
\<close>

section \<open>Aggregates\<close>

record source_stat =
  ss_IP :: string
  ss_Msgs :: int
  ss_Aligned :: int
  ss_FailBoth :: int
  ss_FirstEver :: time
  ss_LastSeen :: time

record overview =
  ov_HasData :: bool
  ov_Policy :: string
  ov_Pct :: int
  ov_FirstSeen :: time
  ov_LastEnd :: time
  ov_Orgs30 :: int
  ov_Msgs30 :: int
  ov_Aligned30 :: int
  ov_Msgs7 :: int
  ov_Aligned7 :: int
  ov_Sources :: "source_stat list"

definition zero_overview :: overview where
  "zero_overview = \<lparr>ov_HasData = False, ov_Policy = [], ov_Pct = 0, ov_FirstSeen = 0, ov_LastEnd = 0,
     ov_Orgs30 = 0, ov_Msgs30 = 0, ov_Aligned30 = 0, ov_Msgs7 = 0, ov_Aligned7 = 0, ov_Sources = []\<rparr>"

definition windowLong :: duration where "windowLong = 30 * Day"
definition windowRecent :: duration where "windowRecent = 7 * Day"

record 's report_iface =
  ri_PutReport :: "'s \<Rightarrow> report \<Rightarrow> error + 's \<times> bool"
  ri_Overview :: "'s \<Rightarrow> string \<Rightarrow> time \<Rightarrow> error + overview"
  ri_Prune :: "'s \<Rightarrow> time \<Rightarrow> error + 's"

section \<open>What an overview has to say\<close>

text \<open>The rows of a list of reports, and the messages of the rows that satisfy a condition.\<close>

definition rows_of :: "report list \<Rightarrow> (report \<times> rrecord) list" where
  "rows_of R = concat (map (\<lambda>rep. map (Pair rep) (rp_Records rep)) R)"

definition msgs :: "(report \<times> rrecord \<Rightarrow> bool) \<Rightarrow> report list \<Rightarrow> int" where
  "msgs P R = sum_list (map (\<lambda>x. if P x then rc_Count (snd x) else 0) (rows_of R))"

definition total_msgs :: "report list \<Rightarrow> int" where
  "total_msgs R = msgs (\<lambda>_. True) R"

definition ending_from :: "time \<Rightarrow> report list \<Rightarrow> report list" where
  "ending_from t R = filter (\<lambda>rep. t \<le> rp_End rep) R"

definition from_ip :: "string \<Rightarrow> report \<times> rrecord \<Rightarrow> bool" where
  "from_ip ip x \<longleftrightarrow> rc_SourceIP (snd x) = ip"

definition passes :: "report \<times> rrecord \<Rightarrow> bool" where
  "passes x \<longleftrightarrow> Aligned (snd x)"

definition ips_of :: "report list \<Rightarrow> string set" where
  "ips_of R = (\<lambda>x. rc_SourceIP (snd x)) ` set (rows_of R)"

definition reports_from :: "string \<Rightarrow> report list \<Rightarrow> report set" where
  "reports_from ip R = {rep \<in> set R. \<exists>r \<in> set (rp_Records rep). rc_SourceIP r = ip}"

text \<open>The aggregate of one source: counts over the window \<open>W\<close>, first sighting over all of \<open>R\<close>.\<close>

definition stat_of :: "report list \<Rightarrow> report list \<Rightarrow> string \<Rightarrow> source_stat" where
  "stat_of R W ip =
     \<lparr>ss_IP = ip, ss_Msgs = msgs (from_ip ip) W, ss_Aligned = msgs (\<lambda>x. from_ip ip x \<and> passes x) W,
      ss_FailBoth = msgs (\<lambda>x. from_ip ip x \<and> \<not> passes x) W,
      ss_FirstEver = Min (rp_Begin ` reports_from ip R), ss_LastSeen = Max (rp_End ` reports_from ip W)\<rparr>"

text \<open>
  An overview of the reports \<open>R\<close> of a domain for windows that begin at \<open>long\<close> and \<open>recent\<close>. The order of
  the sources and the choice among reports that end last are left to the store.
\<close>

definition is_overview :: "report list \<Rightarrow> time \<Rightarrow> time \<Rightarrow> overview \<Rightarrow> bool" where
  "is_overview R long recent ov \<longleftrightarrow>
     (if R = [] then ov = zero_overview
      else
        (let L = ending_from long R; S = ending_from recent R in
         ov_HasData ov \<and>
         ov_FirstSeen ov = Min (rp_Begin ` set R) \<and>
         ov_LastEnd ov = Max (rp_End ` set R) \<and>
         (\<exists>rep \<in> set R. rp_End rep = ov_LastEnd ov \<and> ov_Policy ov = rp_Policy rep \<and> ov_Pct ov = rp_Pct rep) \<and>
         ov_Orgs30 ov = int (card (rp_Org ` set L)) \<and>
         ov_Msgs30 ov = total_msgs L \<and> ov_Aligned30 ov = msgs passes L \<and>
         ov_Msgs7 ov = total_msgs S \<and> ov_Aligned7 ov = msgs passes S \<and>
         distinct (map ss_IP (ov_Sources ov)) \<and>
         set (ov_Sources ov) = stat_of R L ` ips_of L))"

section \<open>The contract\<close>

definition same_report :: "report \<Rightarrow> report \<Rightarrow> bool" where
  "same_report r q \<longleftrightarrow> rp_Org r = rp_Org q \<and> rp_ReportID r = rp_ReportID q \<and> rp_Domain r = rp_Domain q"

text \<open>
  Reports for which the two implementations agree with the contract: organisation and report identifier
  hold no \<^verbatim>\<open>|\<close>, the period is in whole seconds from the Unix epoch on and far from the end of the 64-bit
  range, and a result that folds to \<^verbatim>\<open>pass\<close> is spelled that way. \<open>ParseXML\<close> produces lower-case results.
\<close>

definition instant_ok :: "time \<Rightarrow> bool" where
  "instant_ok t \<longleftrightarrow> t mod 10 ^ 9 = 0 \<and> unixToInternal * 10 ^ 9 \<le> t \<and> t < 2 ^ 62 * 10 ^ 9"

definition spelled :: "string \<Rightarrow> bool" where
  "spelled s \<longleftrightarrow> EqualFold s ''pass'' = (s = ''pass'')"

definition acceptable :: "report \<Rightarrow> bool" where
  "acceptable rep \<longleftrightarrow> CHR ''|'' \<notin> set (rp_Org rep) \<and> CHR ''|'' \<notin> set (rp_ReportID rep) \<and>
     instant_ok (rp_Begin rep) \<and> instant_ok (rp_End rep) \<and>
     list_all (\<lambda>r. 1 \<le> rc_Count r \<and> spelled (rc_EvalDKIM r) \<and> spelled (rc_EvalSPF r)) (rp_Records rep)"

definition now_ok :: "time \<Rightarrow> bool" where
  "now_ok now \<longleftrightarrow> (unixToInternal + 366 * 86400 * 2) * 10 ^ 9 \<le> now \<and> now < 2 ^ 62 * 10 ^ 9"

text \<open>
  The stored reports are a list of which only the multiset matters. \<open>keep\<close> is what a store keeps of a
  report, \<open>cut\<close> the precision to which it compares instants.
\<close>

locale report_store =
  fixes I :: "'s report_iface"
    and sinv :: "'s \<Rightarrow> bool"
    and reports :: "'s \<Rightarrow> report list"
    and cut :: "time \<Rightarrow> time"
    and keep :: "report \<Rightarrow> report"
  assumes acceptable_law: "sinv s \<Longrightarrow> rep \<in> set (reports s) \<Longrightarrow> acceptable rep"
    and unique_law: "sinv s \<Longrightarrow> rep \<in> set (reports s) \<Longrightarrow> q \<in> set (reports s) \<Longrightarrow> same_report rep q \<Longrightarrow> rep = q"
    and distinct_law: "sinv s \<Longrightarrow> distinct (reports s)"
    and put_law: "sinv s \<Longrightarrow> acceptable rep \<Longrightarrow> \<exists>s' b. ri_PutReport I s rep = Inr (s', b) \<and> sinv s' \<and>
      (b \<longleftrightarrow> \<not> (\<exists>q \<in> set (reports s). same_report rep q)) \<and>
      (if b then mset (reports s') = add_mset (keep rep) (mset (reports s)) else reports s' = reports s)"
    and overview_law: "sinv s \<Longrightarrow> now_ok now \<Longrightarrow> total_msgs (reports s) < 2 ^ 63 \<Longrightarrow>
      \<exists>ov. ri_Overview I s domain now = Inr ov \<and>
        is_overview (filter (\<lambda>rep. rp_Domain rep = domain) (reports s))
          (cut (now - windowLong)) (cut (now - windowRecent)) ov"
    and prune_law: "sinv s \<Longrightarrow> 0 \<le> t \<Longrightarrow> t < 2 ^ 62 * 10 ^ 9 \<Longrightarrow> \<exists>s'. ri_Prune I s t = Inr s' \<and> sinv s' \<and>
      reports s' = filter (\<lambda>rep. cut t \<le> rp_End rep) (reports s)"
    and cut_law: "t \<le> u \<Longrightarrow> cut t \<le> cut u"
    and keep_law: "same_report rep (keep rep)"

section \<open>Lemmas on rows and sums\<close>

lemma rows_of_Nil [simp]: "rows_of [] = []"
  by (simp add: rows_of_def)

lemma rows_of_append [simp]: "rows_of (R @ S) = rows_of R @ rows_of S"
  by (simp add: rows_of_def)

lemma rows_of_single [simp]: "rows_of [rep] = map (Pair rep) (rp_Records rep)"
  by (simp add: rows_of_def)

lemma rows_of_Cons: "rows_of (rep # R) = map (Pair rep) (rp_Records rep) @ rows_of R"
  by (simp add: rows_of_def)

lemma set_rows_of: "set (rows_of R) = {(rep, r). rep \<in> set R \<and> r \<in> set (rp_Records rep)}"
  by (auto simp: rows_of_def)

lemma msgs_append [simp]: "msgs P (R @ S) = msgs P R + msgs P S"
  by (simp add: msgs_def)

lemma msgs_Nil [simp]: "msgs P [] = 0"
  by (simp add: msgs_def)

lemma msgs_Cons: "msgs P (rep # R) = msgs P [rep] + msgs P R"
  by (simp add: msgs_def rows_of_Cons)

definition counted :: "report list \<Rightarrow> bool" where
  "counted R \<longleftrightarrow> (\<forall>rep \<in> set R. \<forall>r \<in> set (rp_Records rep). 1 \<le> rc_Count r)"

lemma acceptable_counted: "\<forall>rep \<in> set R. acceptable rep \<Longrightarrow> counted R"
  by (auto simp: counted_def acceptable_def list_all_iff)

lemma counted_filter [simp]: "counted R \<Longrightarrow> counted (filter P R)"
  by (auto simp: counted_def)

lemma counted_rows: "counted R \<Longrightarrow> x \<in> set (rows_of R) \<Longrightarrow> 1 \<le> rc_Count (snd x)"
  by (auto simp: counted_def set_rows_of)

lemma sum_list_if_mono:
  assumes "\<And>x. x \<in> set xs \<Longrightarrow> P x \<Longrightarrow> Q x" "\<And>x. x \<in> set xs \<Longrightarrow> 0 \<le> (f x :: int)"
  shows "sum_list (map (\<lambda>x. if P x then f x else 0) xs) \<le> sum_list (map (\<lambda>x. if Q x then f x else 0) xs)"
  by (rule sum_list_mono) (use assms in auto)

lemma msgs_mono:
  assumes "counted R" "\<And>x. P x \<Longrightarrow> Q x"
  shows "msgs P R \<le> msgs Q R"
  unfolding msgs_def by (rule sum_list_if_mono) (use assms counted_rows in force)+

lemma msgs_nonneg: "counted R \<Longrightarrow> 0 \<le> msgs P R"
  unfolding msgs_def by (rule sum_list_nonneg) (use counted_rows in force)

lemma msgs_filter_le:
  assumes "counted R"
  shows "msgs P (filter F R) \<le> msgs P R"
  using assms
proof (induction R)
  case (Cons rep R)
  then have "counted [rep]" "counted R" by (simp_all add: counted_def)
  with Cons.IH msgs_nonneg [of "[rep]" P] show ?case
    using msgs_Cons [of P rep R] msgs_Cons [of P rep "filter F R"] by simp
qed simp

lemma msgs_split: "msgs (\<lambda>x. P x \<and> Q x) R + msgs (\<lambda>x. P x \<and> \<not> Q x) R = msgs P R"
proof -
  have "sum_list (map (\<lambda>x. if P x \<and> Q x then f x else 0) xs) + sum_list (map (\<lambda>x. if P x \<and> \<not> Q x then f x else 0) xs) =
      sum_list (map (\<lambda>x. if P x then (f x :: int) else 0) xs)" for f :: "report \<times> rrecord \<Rightarrow> int" and xs
    by (induction xs) auto
  then show ?thesis by (simp add: msgs_def)
qed

lemma msgs_by_source:
  assumes "finite A" "ips_of R \<subseteq> A"
  shows "(\<Sum>ip \<in> A. msgs (\<lambda>x. from_ip ip x \<and> P x) R) = msgs P R"
proof -
  have "(\<Sum>ip \<in> A. sum_list (map (\<lambda>x. if from_ip ip x \<and> P x then rc_Count (snd x) else 0) xs)) =
      sum_list (map (\<lambda>x. if P x then rc_Count (snd x) else 0) xs)"
    if "(\<lambda>x. rc_SourceIP (snd x)) ` set xs \<subseteq> A" for xs :: "(report \<times> rrecord) list"
    using that
  proof (induction xs)
    case (Cons x xs)
    have "(\<Sum>ip \<in> A. if from_ip ip x \<and> P x then rc_Count (snd x) else 0) = (if P x then rc_Count (snd x) else 0)"
      using assms(1) Cons.prems by (cases "P x") (simp_all add: from_ip_def sum.delta)
    with Cons show ?case by (simp add: sum.distrib)
  qed simp
  with assms(2) show ?thesis by (simp add: msgs_def ips_of_def)
qed

lemma ending_from_filter [simp]: "set (ending_from t R) \<subseteq> set R"
  by (auto simp: ending_from_def)

lemma ending_from_mono: "t \<le> u \<Longrightarrow> ending_from u R = filter (\<lambda>rep. u \<le> rp_End rep) (ending_from t R)"
  by (auto simp: ending_from_def intro: filter_cong)

lemma finite_ips_of [simp]: "finite (ips_of R)"
  by (simp add: ips_of_def)

section \<open>Consequences of the contract\<close>

lemma msgs_source_pos:
  assumes "counted R" "ip \<in> ips_of R"
  shows "0 < msgs (from_ip ip) R"
proof -
  obtain x where x: "x \<in> set (rows_of R)" "from_ip ip x" using assms(2) by (auto simp: ips_of_def from_ip_def)
  let ?f = "\<lambda>x. if from_ip ip x then rc_Count (snd x) else 0"
  have "?f x \<le> sum_list (map ?f (rows_of R))"
    by (rule member_le_sum_list) (use x(1) counted_rows [OF assms(1)] in force)+
  with x counted_rows [OF assms(1) x(1)] show ?thesis by (simp add: msgs_def)
qed

lemma stat_of_fields [simp]:
  "ss_IP (stat_of R W ip) = ip" "ss_Msgs (stat_of R W ip) = msgs (from_ip ip) W"
  "ss_Aligned (stat_of R W ip) = msgs (\<lambda>x. from_ip ip x \<and> passes x) W"
  "ss_FailBoth (stat_of R W ip) = msgs (\<lambda>x. from_ip ip x \<and> \<not> passes x) W"
  by (simp_all add: stat_of_def)

lemma sum_over_sources:
  assumes "distinct (map ss_IP ss)" "set ss = stat_of R W ` ips_of W"
  shows "sum_list (map f ss) = (\<Sum>ip \<in> ips_of W. f (stat_of R W ip))"
proof -
  have "distinct ss" using assms(1) by (simp add: distinct_map)
  then have "sum_list (map f ss) = sum f (set ss)" by (simp add: sum_list_distinct_conv_sum_set)
  also have "\<dots> = (\<Sum>ip \<in> ips_of W. f (stat_of R W ip))"
    unfolding assms(2) by (rule sum.reindex_cong [OF _ refl]) (auto intro: inj_on_inverseI [of _ ss_IP])
  finally show ?thesis .
qed

text \<open>Every message of the window is counted once: by its result, and under its source.\<close>

lemma overview_windows:
  assumes ov: "is_overview R long recent ov" and R: "counted R" and w: "long \<le> recent"
  shows "0 \<le> ov_Aligned7 ov" "ov_Aligned7 ov \<le> ov_Msgs7 ov" "ov_Aligned7 ov \<le> ov_Aligned30 ov"
    "ov_Msgs7 ov \<le> ov_Msgs30 ov" "ov_Aligned30 ov \<le> ov_Msgs30 ov" "ov_Msgs30 ov \<le> total_msgs R"
proof -
  let ?L = "ending_from long R" and ?S = "ending_from recent R"
  have c: "counted ?L" "counted ?S" using R by (simp_all add: ending_from_def)
  have le: "msgs P ?S \<le> msgs P ?L" for P
    using msgs_filter_le [OF c(1)] by (simp add: ending_from_mono [OF w, of R])
  have le': "msgs P ?L \<le> msgs P R" for P
    using msgs_filter_le [OF R] by (simp add: ending_from_def)
  have "R \<noteq> [] \<Longrightarrow> ov_Aligned7 ov = msgs passes ?S \<and> ov_Msgs7 ov = total_msgs ?S \<and>
      ov_Aligned30 ov = msgs passes ?L \<and> ov_Msgs30 ov = total_msgs ?L"
    using ov by (simp add: is_overview_def Let_def)
  moreover have "R = [] \<Longrightarrow> ov = zero_overview" using ov by (simp add: is_overview_def)
  ultimately show "0 \<le> ov_Aligned7 ov" "ov_Aligned7 ov \<le> ov_Msgs7 ov" "ov_Aligned7 ov \<le> ov_Aligned30 ov"
    "ov_Msgs7 ov \<le> ov_Msgs30 ov" "ov_Aligned30 ov \<le> ov_Msgs30 ov" "ov_Msgs30 ov \<le> total_msgs R"
    using le le' c msgs_nonneg [OF c(2)] msgs_mono [OF c(1), of passes "\<lambda>_. True"] msgs_mono [OF c(2), of passes "\<lambda>_. True"]
    by (cases "R = []"; simp add: total_msgs_def zero_overview_def)+
qed

lemma overview_sources:
  assumes ov: "is_overview R long recent ov" and R: "counted R"
  shows "sum_list (map ss_Msgs (ov_Sources ov)) = ov_Msgs30 ov"
    "sum_list (map ss_Aligned (ov_Sources ov)) = ov_Aligned30 ov"
    "s \<in> set (ov_Sources ov) \<Longrightarrow> ss_Aligned s + ss_FailBoth s = ss_Msgs s \<and> 0 \<le> ss_Aligned s \<and>
       0 \<le> ss_FailBoth s \<and> 0 < ss_Msgs s \<and> ss_Msgs s \<le> ov_Msgs30 ov"
proof -
  let ?L = "ending_from long R"
  have c: "counted ?L" using R by (simp add: ending_from_def)
  have src: "R \<noteq> [] \<Longrightarrow> distinct (map ss_IP (ov_Sources ov)) \<and> set (ov_Sources ov) = stat_of R ?L ` ips_of ?L \<and>
      ov_Msgs30 ov = total_msgs ?L \<and> ov_Aligned30 ov = msgs passes ?L"
    using ov by (simp add: is_overview_def Let_def)
  have none: "R = [] \<Longrightarrow> ov = zero_overview" using ov by (simp add: is_overview_def)
  show "sum_list (map ss_Msgs (ov_Sources ov)) = ov_Msgs30 ov"
    using src none sum_over_sources [of "ov_Sources ov" R ?L ss_Msgs] msgs_by_source [of "ips_of ?L" ?L "\<lambda>_. True"]
    by (cases "R = []") (simp_all add: total_msgs_def zero_overview_def)
  show "sum_list (map ss_Aligned (ov_Sources ov)) = ov_Aligned30 ov"
    using src none sum_over_sources [of "ov_Sources ov" R ?L ss_Aligned] msgs_by_source [of "ips_of ?L" ?L passes]
    by (cases "R = []") (simp_all add: zero_overview_def)
  assume s: "s \<in> set (ov_Sources ov)"
  with none have "R \<noteq> []" by (auto simp: zero_overview_def)
  with src s obtain ip where ip: "s = stat_of R ?L ip" "ip \<in> ips_of ?L" and m: "ov_Msgs30 ov = total_msgs ?L" by auto
  show "ss_Aligned s + ss_FailBoth s = ss_Msgs s \<and> 0 \<le> ss_Aligned s \<and>
       0 \<le> ss_FailBoth s \<and> 0 < ss_Msgs s \<and> ss_Msgs s \<le> ov_Msgs30 ov"
    using msgs_split [of "from_ip ip" passes ?L] msgs_nonneg [OF c] msgs_source_pos [OF c ip(2)]
      msgs_mono [OF c, of "from_ip ip" "\<lambda>_. True"]
    by (simp add: ip(1) m total_msgs_def)
qed

context report_store
begin

lemma put_twice:
  assumes "sinv s" "acceptable rep"
  shows "\<exists>s1 b. ri_PutReport I s rep = Inr (s1, b) \<and>
     (\<exists>s2. ri_PutReport I s1 rep = Inr (s2, False) \<and> reports s2 = reports s1)"
proof -
  obtain s1 b where 1: "ri_PutReport I s rep = Inr (s1, b)" "sinv s1"
      "b \<longleftrightarrow> \<not> (\<exists>q \<in> set (reports s). same_report rep q)"
      "if b then mset (reports s1) = add_mset (keep rep) (mset (reports s)) else reports s1 = reports s"
    using put_law [OF assms] by blast
  have "\<exists>q \<in> set (reports s1). same_report rep q"
  proof (cases b)
    case True
    then have "keep rep \<in># mset (reports s1)" using 1(4) by simp
    then show ?thesis using keep_law by (intro bexI [of _ "keep rep"]) simp_all
  next
    case False
    with 1(3,4) show ?thesis by simp
  qed
  moreover obtain s2 b2 where 2: "ri_PutReport I s1 rep = Inr (s2, b2)"
      "b2 \<longleftrightarrow> \<not> (\<exists>q \<in> set (reports s1). same_report rep q)"
      "if b2 then mset (reports s2) = add_mset (keep rep) (mset (reports s1)) else reports s2 = reports s1"
    using put_law [OF 1(2) assms(2)] by blast
  ultimately have "\<not> b2" by simp
  with 1(1) 2 show ?thesis by auto
qed

lemma overview_lawful:
  assumes "sinv s" "now_ok now" "total_msgs (reports s) < 2 ^ 63"
  obtains ov R where "ri_Overview I s domain now = Inr ov"
    "is_overview R (cut (now - windowLong)) (cut (now - windowRecent)) ov" "counted R"
    "R = filter (\<lambda>rep. rp_Domain rep = domain) (reports s)" "total_msgs R \<le> total_msgs (reports s)"
proof -
  let ?R = "filter (\<lambda>rep. rp_Domain rep = domain) (reports s)"
  obtain ov where ov: "ri_Overview I s domain now = Inr ov"
      "is_overview ?R (cut (now - windowLong)) (cut (now - windowRecent)) ov"
    using overview_law [OF assms] by blast
  have c: "counted (reports s)" using acceptable_law [OF assms(1)] by (blast intro: acceptable_counted)
  have "total_msgs ?R \<le> total_msgs (reports s)" unfolding total_msgs_def by (rule msgs_filter_le [OF c])
  with that [OF ov _ refl] c show thesis by simp
qed

lemma windows_ordered: "cut (now - windowLong) \<le> cut (now - windowRecent)"
  by (rule cut_law) (simp add: windowLong_def windowRecent_def duration_defs)

end

section \<open>Sample data\<close>

definition sample_instant :: "int \<Rightarrow> time" where
  "sample_instant sec = (unixToInternal + sec) * 10 ^ 9"

definition sample_row :: "string \<Rightarrow> int \<Rightarrow> string \<Rightarrow> rrecord" where
  "sample_row ip n res = \<lparr>rc_SourceIP = ip, rc_Count = n, rc_Disposition = ''none'', rc_EvalDKIM = res, rc_EvalSPF = ''fail'',
     rc_HeaderFrom = ''d.e'', rc_AuthDKIM = [], rc_AuthSPF = []\<rparr>"

definition sample_report :: report where
  "sample_report = \<lparr>rp_Org = ''o'', rp_Email = [], rp_ReportID = ''1'', rp_Begin = sample_instant 1499900000,
     rp_End = sample_instant 1499990000, rp_Domain = ''d.e'', rp_Policy = ''none'', rp_SubPolicy = [], rp_Pct = 100,
     rp_Records = [sample_row ''1.2.3.4'' 20 ''fail'', sample_row ''5.6.7.8'' 3 ''pass'']\<rparr>"

abbreviation sample_now :: time where "sample_now \<equiv> sample_instant 1500000000"

lemma sample_now_ok: "now_ok sample_now"
  by (simp add: now_ok_def sample_instant_def unixToInternal_def)

lemma sample_acceptable: "acceptable sample_report"
proof -
  have "spelled ''pass''" "spelled ''fail''" by (simp_all add: spelled_def) code_simp+
  then show ?thesis
    by (simp add: acceptable_def sample_report_def sample_row_def instant_ok_def sample_instant_def unixToInternal_def)
qed

lemma sample_total: "total_msgs [sample_report] = 23"
  by (simp add: total_msgs_def msgs_def rows_of_def sample_report_def sample_row_def)

end
