(* ===== verification/Report_Mem.thy ===== *)
theory Report_Mem
  imports Report_Store
begin

text \<open>
  The in-memory report store (\<^verbatim>\<open>dmarcwatch/memstore.go\<close>): a Go map from \<^verbatim>\<open>Report.Key\<close> to reports, and the loop
  that computes an overview, with its maps of sources, first sightings and organisations. Additions
  wrap at 64 bits as in Go. The store is shown to satisfy the contract \<open>report_store\<close>.
\<close>

section \<open>State and operations\<close>

type_synonym rmem = "(string, report) gomap"

definition rm_NewMemStore :: rmem where "rm_NewMemStore = []"

definition rm_PutReport :: "rmem \<Rightarrow> report \<Rightarrow> error + rmem \<times> bool" where
  "rm_PutReport m rep =
     (case gm_get m (Key rep) of
        Some _ \<Rightarrow> Inr (m, False)
      | None \<Rightarrow> Inr (gm_set (Key rep) rep m, True))"

record ov_acc =
  oa_ov :: overview
  oa_sources :: "(string, source_stat) gomap"
  oa_first :: "(string, time) gomap"
  oa_orgs :: "string list"

definition ov_init :: ov_acc where
  "ov_init = \<lparr>oa_ov = zero_overview, oa_sources = [], oa_first = [], oa_orgs = []\<rparr>"

definition first_step :: "report \<Rightarrow> (string, time) gomap \<Rightarrow> rrecord \<Rightarrow> (string, time) gomap" where
  "first_step rep m r =
     (case gm_get m (rc_SourceIP r) of
        None \<Rightarrow> gm_set (rc_SourceIP r) (rp_Begin rep) m
      | Some fe \<Rightarrow> if rp_Begin rep < fe then gm_set (rc_SourceIP r) (rp_Begin rep) m else m)"

text \<open>The update of the aggregate of a source by one record; \<open>None\<close> is a source not met before.\<close>

definition add_stat :: "report \<Rightarrow> rrecord \<Rightarrow> source_stat option \<Rightarrow> source_stat" where
  "add_stat rep r prev =
     (let a = (case prev of Some a \<Rightarrow> a | None \<Rightarrow>
            \<lparr>ss_IP = rc_SourceIP r, ss_Msgs = 0, ss_Aligned = 0, ss_FailBoth = 0, ss_FirstEver = 0, ss_LastSeen = 0\<rparr>);
          a = a\<lparr>ss_Msgs := wrap64 (ss_Msgs a + rc_Count r)\<rparr>;
          a = (if Aligned r then a\<lparr>ss_Aligned := wrap64 (ss_Aligned a + rc_Count r)\<rparr>
               else a\<lparr>ss_FailBoth := wrap64 (ss_FailBoth a + rc_Count r)\<rparr>)
      in if rp_End rep > ss_LastSeen a then a\<lparr>ss_LastSeen := rp_End rep\<rparr> else a)"

definition record_step :: "time \<Rightarrow> report \<Rightarrow> ov_acc \<Rightarrow> rrecord \<Rightarrow> ov_acc" where
  "record_step recent rep st r =
     (let ov = oa_ov st;
          ov = ov\<lparr>ov_Msgs30 := wrap64 (ov_Msgs30 ov + rc_Count r)\<rparr>;
          ov = (if Aligned r then ov\<lparr>ov_Aligned30 := wrap64 (ov_Aligned30 ov + rc_Count r)\<rparr> else ov);
          ov = (if \<not> rp_End rep < recent
                then (let ov = ov\<lparr>ov_Msgs7 := wrap64 (ov_Msgs7 ov + rc_Count r)\<rparr> in
                      if Aligned r then ov\<lparr>ov_Aligned7 := wrap64 (ov_Aligned7 ov + rc_Count r)\<rparr> else ov)
                else ov);
          ip = rc_SourceIP r
      in st\<lparr>oa_ov := ov, oa_sources := gm_set ip (add_stat rep r (gm_get (oa_sources st) ip)) (oa_sources st)\<rparr>)"

text \<open>The report-level facts: earliest begin, latest end with its policy.\<close>

definition note_report :: "report \<Rightarrow> overview \<Rightarrow> overview" where
  "note_report rep ov =
     (let ov = (if \<not> ov_HasData ov \<or> rp_Begin rep < ov_FirstSeen ov then ov\<lparr>ov_FirstSeen := rp_Begin rep\<rparr> else ov);
          ov = (if rp_End rep > ov_LastEnd ov
                then ov\<lparr>ov_LastEnd := rp_End rep, ov_Policy := rp_Policy rep, ov_Pct := rp_Pct rep\<rparr> else ov)
      in ov\<lparr>ov_HasData := True\<rparr>)"

definition report_step :: "string \<Rightarrow> time \<Rightarrow> time \<Rightarrow> ov_acc \<Rightarrow> report \<Rightarrow> ov_acc" where
  "report_step domain long recent st rep =
     (if rp_Domain rep \<noteq> domain then st
      else
        (let st = st\<lparr>oa_ov := note_report rep (oa_ov st), oa_first := foldl (first_step rep) (oa_first st) (rp_Records rep)\<rparr>
         in if rp_End rep < long then st
            else foldl (record_step recent rep) (st\<lparr>oa_orgs := List.insert (rp_Org rep) (oa_orgs st)\<rparr>) (rp_Records rep)))"

definition rm_Overview :: "rmem \<Rightarrow> string \<Rightarrow> time \<Rightarrow> error + overview" where
  "rm_Overview m domain now =
     (let long = time_Add now (- windowLong); recent = time_Add now (- windowRecent);
          st = foldl (report_step domain long recent) ov_init (gm_vals m)
      in Inr ((oa_ov st)\<lparr>ov_Orgs30 := int (length (oa_orgs st)),
           ov_Sources := map (\<lambda>(ip, a). a\<lparr>ss_FirstEver :=
             (case gm_get (oa_first st) ip of Some t \<Rightarrow> t | None \<Rightarrow> 0)\<rparr>) (oa_sources st)\<rparr>))"

definition rm_Prune :: "rmem \<Rightarrow> time \<Rightarrow> error + rmem" where
  "rm_Prune m olderThan = Inr (filter (\<lambda>(k, rep). \<not> rp_End rep < olderThan) m)"

definition rmem_iface :: "rmem report_iface" where
  "rmem_iface = \<lparr>ri_PutReport = rm_PutReport, ri_Overview = rm_Overview, ri_Prune = rm_Prune\<rparr>"

section \<open>The loop over reports\<close>

lemma note_report_sums [simp]:
  "ov_Msgs30 (note_report rep ov) = ov_Msgs30 ov" "ov_Aligned30 (note_report rep ov) = ov_Aligned30 ov"
  "ov_Msgs7 (note_report rep ov) = ov_Msgs7 ov" "ov_Aligned7 (note_report rep ov) = ov_Aligned7 ov"
  by (simp_all add: note_report_def Let_def)

lemma rmem_iface_fields [simp]:
  "ri_PutReport rmem_iface = rm_PutReport" "ri_Overview rmem_iface = rm_Overview" "ri_Prune rmem_iface = rm_Prune"
  by (simp_all add: rmem_iface_def)

text \<open>What the loop over the records leaves alone.\<close>

lemma record_loop_frame:
  "ov_HasData (oa_ov (foldl (record_step recent rep) st rs)) = ov_HasData (oa_ov st) \<and>
   ov_FirstSeen (oa_ov (foldl (record_step recent rep) st rs)) = ov_FirstSeen (oa_ov st) \<and>
   ov_LastEnd (oa_ov (foldl (record_step recent rep) st rs)) = ov_LastEnd (oa_ov st) \<and>
   ov_Policy (oa_ov (foldl (record_step recent rep) st rs)) = ov_Policy (oa_ov st) \<and>
   ov_Pct (oa_ov (foldl (record_step recent rep) st rs)) = ov_Pct (oa_ov st) \<and>
   oa_first (foldl (record_step recent rep) st rs) = oa_first st \<and>
   oa_orgs (foldl (record_step recent rep) st rs) = oa_orgs st"
  by (induction rs arbitrary: st) (simp_all add: record_step_def Let_def)

definition wadd :: "('x \<Rightarrow> int) \<Rightarrow> int \<Rightarrow> 'x list \<Rightarrow> int" where
  "wadd f a xs = wrap64 (a + sum_list (map f xs))"

lemma wadd_Nil: "int64_ok a \<Longrightarrow> wadd f a [] = a"
  by (simp add: wadd_def wrap64_id)

lemma wadd_Cons: "wadd f a (x # xs) = wadd f (wrap64 (a + f x)) xs"
  by (simp add: wadd_def wrap64_add_left add.assoc)

abbreviation cnt_if :: "bool \<Rightarrow> rrecord \<Rightarrow> int" where
  "cnt_if b r \<equiv> (if b then rc_Count r else 0)"

definition sums_ok :: "overview \<Rightarrow> bool" where
  "sums_ok ov \<longleftrightarrow> int64_ok (ov_Msgs30 ov) \<and> int64_ok (ov_Aligned30 ov) \<and> int64_ok (ov_Msgs7 ov) \<and> int64_ok (ov_Aligned7 ov)"

lemma record_step_sums:
  assumes "sums_ok (oa_ov st)"
  shows "ov_Msgs30 (oa_ov (record_step recent rep st r)) = wrap64 (ov_Msgs30 (oa_ov st) + rc_Count r)"
    "ov_Aligned30 (oa_ov (record_step recent rep st r)) = wrap64 (ov_Aligned30 (oa_ov st) + cnt_if (Aligned r) r)"
    "ov_Msgs7 (oa_ov (record_step recent rep st r)) = wrap64 (ov_Msgs7 (oa_ov st) + cnt_if (recent \<le> rp_End rep) r)"
    "ov_Aligned7 (oa_ov (record_step recent rep st r)) =
       wrap64 (ov_Aligned7 (oa_ov st) + cnt_if (recent \<le> rp_End rep \<and> Aligned r) r)"
    "sums_ok (oa_ov (record_step recent rep st r))"
  using assms by (auto simp: record_step_def Let_def sums_ok_def wrap64_id not_less)

lemma record_loop_sums:
  assumes "sums_ok (oa_ov st)"
  shows "sums_ok (oa_ov (foldl (record_step recent rep) st rs)) \<and>
    ov_Msgs30 (oa_ov (foldl (record_step recent rep) st rs)) = wadd rc_Count (ov_Msgs30 (oa_ov st)) rs \<and>
    ov_Aligned30 (oa_ov (foldl (record_step recent rep) st rs)) =
       wadd (\<lambda>r. cnt_if (Aligned r) r) (ov_Aligned30 (oa_ov st)) rs \<and>
    ov_Msgs7 (oa_ov (foldl (record_step recent rep) st rs)) =
       wadd (\<lambda>r. cnt_if (recent \<le> rp_End rep) r) (ov_Msgs7 (oa_ov st)) rs \<and>
    ov_Aligned7 (oa_ov (foldl (record_step recent rep) st rs)) =
       wadd (\<lambda>r. cnt_if (recent \<le> rp_End rep \<and> Aligned r) r) (ov_Aligned7 (oa_ov st)) rs"
  using assms
proof (induction rs arbitrary: st)
  case Nil
  then show ?case by (simp add: wadd_Nil sums_ok_def)
next
  case (Cons r rs)
  from Cons.IH [OF record_step_sums(5) [OF Cons.prems, of recent rep r]] show ?case
    unfolding wadd_Cons foldl_Cons record_step_sums(1-4) [OF Cons.prems, of recent rep r] .
qed

lemma record_loop_sources:
  "oa_sources (foldl (record_step recent rep) st rs) =
     foldl (\<lambda>m (rep, r). gm_set (rc_SourceIP r) (add_stat rep r (gm_get m (rc_SourceIP r))) m)
       (oa_sources st) (map (Pair rep) rs)"
  by (induction rs arbitrary: st) (simp_all add: record_step_def Let_def)

text \<open>The state after the loop over the reports \<open>xs\<close>, field by field.\<close>

definition after :: "string \<Rightarrow> time \<Rightarrow> time \<Rightarrow> report list \<Rightarrow> ov_acc" where
  "after domain long recent xs = foldl (report_step domain long recent) ov_init xs"

abbreviation of_domain :: "string \<Rightarrow> report list \<Rightarrow> report list" where
  "of_domain domain xs \<equiv> filter (\<lambda>rep. rp_Domain rep = domain) xs"

lemma after_Nil [simp]: "after d l t [] = ov_init"
  by (simp add: after_def)

lemma after_snoc: "after d l t (xs @ [x]) = report_step d l t (after d l t xs) x"
  by (simp add: after_def)

definition bounds :: "report list \<Rightarrow> overview \<Rightarrow> bool" where
  "bounds R ov \<longleftrightarrow>
     (if R = [] then \<not> ov_HasData ov \<and> ov_FirstSeen ov = 0 \<and> ov_LastEnd ov = 0 \<and> ov_Policy ov = [] \<and> ov_Pct ov = 0
      else ov_HasData ov \<and> ov_FirstSeen ov = Min (rp_Begin ` set R) \<and> ov_LastEnd ov = Max (rp_End ` set R) \<and>
        (\<exists>rep \<in> set R. rp_End rep = ov_LastEnd ov \<and> ov_Policy ov = rp_Policy rep \<and> ov_Pct ov = rp_Pct rep))"

lemma Min_snoc: "xs \<noteq> [] \<Longrightarrow> Min (f ` set (xs @ [x])) = min (f x) (Min (f ` set xs))"
  by simp

lemma Max_snoc: "xs \<noteq> [] \<Longrightarrow> Max (f ` set (xs @ [x])) = max (f x) (Max (f ` set xs))"
  by simp

lemma bounds_note_report:
  assumes "bounds R ov" "0 < rp_End x"
  shows "bounds (R @ [x]) (note_report x ov)"
proof (cases "R = []")
  case True
  with assms show ?thesis by (simp add: bounds_def note_report_def Let_def)
next
  case False
  with assms have b: "ov_HasData ov" "ov_FirstSeen ov = Min (rp_Begin ` set R)" "ov_LastEnd ov = Max (rp_End ` set R)"
    "\<exists>rep \<in> set R. rp_End rep = ov_LastEnd ov \<and> ov_Policy ov = rp_Policy rep \<and> ov_Pct ov = rp_Pct rep"
    by (auto simp: bounds_def)
  have "ov_FirstSeen (note_report x ov) = min (rp_Begin x) (ov_FirstSeen ov)"
    "ov_LastEnd (note_report x ov) = max (rp_End x) (ov_LastEnd ov)" "ov_HasData (note_report x ov)"
    using b(1) by (simp_all add: note_report_def Let_def min_def max_def)
  moreover have "\<exists>rep \<in> set (R @ [x]). rp_End rep = ov_LastEnd (note_report x ov) \<and>
      ov_Policy (note_report x ov) = rp_Policy rep \<and> ov_Pct (note_report x ov) = rp_Pct rep"
    using b(4) by (auto simp: note_report_def Let_def)
  ultimately show ?thesis
    unfolding bounds_def Min_snoc [OF False] Max_snoc [OF False] b(2,3) by simp
qed

lemma bounds_cong:
  "bounds R ov = bounds R ov'" if "ov_HasData ov = ov_HasData ov'" "ov_FirstSeen ov = ov_FirstSeen ov'"
    "ov_LastEnd ov = ov_LastEnd ov'" "ov_Policy ov = ov_Policy ov'" "ov_Pct ov = ov_Pct ov'"
  using that by (simp add: bounds_def)

lemma after_bounds:
  assumes "\<forall>rep \<in> set xs. 0 < rp_End rep"
  shows "bounds (of_domain d xs) (oa_ov (after d l t xs))"
  using assms
proof (induction xs rule: rev_induct)
  case Nil
  then show ?case by (simp add: bounds_def ov_init_def zero_overview_def)
next
  case (snoc x xs)
  show ?case
  proof (cases "rp_Domain x = d")
    case False
    with snoc show ?thesis by (simp add: after_snoc report_step_def)
  next
    case True
    have "bounds (of_domain d xs @ [x]) (note_report x (oa_ov (after d l t xs)))"
      by (rule bounds_note_report) (use snoc in simp_all)
    then have "bounds (of_domain d xs @ [x]) (oa_ov (after d l t (xs @ [x])))"
      using True by (subst bounds_cong [of _ "note_report x (oa_ov (after d l t xs))"])
        (simp_all add: after_snoc report_step_def Let_def record_loop_frame)
    with True show ?thesis by simp
  qed
qed

lemma after_orgs:
  "set (oa_orgs (after d l t xs)) = rp_Org ` set (ending_from l (of_domain d xs)) \<and> distinct (oa_orgs (after d l t xs))"
proof (induction xs rule: rev_induct)
  case (snoc x xs)
  then show ?case
    by (auto simp: after_snoc report_step_def Let_def note_report_def record_loop_frame ending_from_def distinct_insert not_less)
qed (simp add: ov_init_def ending_from_def)

lemma after_sources:
  "oa_sources (after d l t xs) =
     foldl (\<lambda>m (rep, r). gm_set (rc_SourceIP r) (add_stat rep r (gm_get m (rc_SourceIP r))) m) []
       (rows_of (ending_from l (of_domain d xs)))"
proof (induction xs rule: rev_induct)
  case (snoc x xs)
  then show ?case
    by (simp add: after_snoc report_step_def Let_def record_loop_sources ending_from_def not_less)
qed (simp add: ov_init_def ending_from_def)

lemma after_first:
  "oa_first (after d l t xs) = foldl (\<lambda>m (rep, r). first_step rep m r) [] (rows_of (of_domain d xs))"
proof (induction xs rule: rev_induct)
  case (snoc x xs)
  have "foldl (\<lambda>m (rep, r). first_step rep m r) m (map (Pair rep) rs) = foldl (first_step rep) m rs" for m rep rs
    by (induction rs arbitrary: m) simp_all
  with snoc show ?case
    by (simp add: after_snoc report_step_def Let_def note_report_def record_loop_frame)
qed (simp add: ov_init_def)

lemma sum_rows_single:
  "msgs P [rep] = sum_list (map (\<lambda>r. cnt_if (P (rep, r)) r) (rp_Records rep))"
  by (auto simp: msgs_def comp_def intro!: arg_cong [of _ _ sum_list])

lemma after_sums:
  assumes "W = ending_from l (of_domain d xs)"
  shows "sums_ok (oa_ov (after d l t xs)) \<and>
    ov_Msgs30 (oa_ov (after d l t xs)) = wrap64 (msgs (\<lambda>_. True) W) \<and>
    ov_Aligned30 (oa_ov (after d l t xs)) = wrap64 (msgs passes W) \<and>
    ov_Msgs7 (oa_ov (after d l t xs)) = wrap64 (msgs (\<lambda>x. t \<le> rp_End (fst x)) W) \<and>
    ov_Aligned7 (oa_ov (after d l t xs)) = wrap64 (msgs (\<lambda>x. t \<le> rp_End (fst x) \<and> passes x) W)"
  using assms
proof (induction xs arbitrary: W rule: rev_induct)
  case Nil
  then show ?case by (simp add: ov_init_def zero_overview_def ending_from_def sums_ok_def wrap64_id int64_ok_def)
next
  case (snoc x xs)
  note IH = snoc.IH [OF refl]
  show ?case
  proof (cases "rp_Domain x = d \<and> l \<le> rp_End x")
    case False
    then have W: "W = ending_from l (of_domain d xs)" using snoc.prems by (auto simp: ending_from_def)
    from False show ?thesis using IH
      by (auto simp: W after_snoc report_step_def Let_def sums_ok_def)
  next
    case True
    let ?Q = "ending_from l (of_domain d xs)"
    have W: "W = ?Q @ [x]" using snoc.prems True by (simp add: ending_from_def)
    let ?st = "(after d l t xs)\<lparr>oa_ov := note_report x (oa_ov (after d l t xs)),
      oa_first := foldl (first_step x) (oa_first (after d l t xs)) (rp_Records x),
      oa_orgs := List.insert (rp_Org x) (oa_orgs (after d l t xs))\<rparr>"
    have step: "after d l t (xs @ [x]) = foldl (record_step t x) ?st (rp_Records x)"
      using True by (simp add: after_snoc report_step_def Let_def)
    have ok: "sums_ok (oa_ov ?st)" using IH by (simp add: sums_ok_def)
    have add: "wadd f (wrap64 (msgs P ?Q)) (rp_Records x) = wrap64 (msgs P W)"
      if "\<And>r. f r = cnt_if (P (x, r)) r" for f P
      unfolding wadd_def W msgs_append sum_rows_single that wrap64_add_left ..
    have "wadd rc_Count (wrap64 (msgs (\<lambda>_. True) ?Q)) (rp_Records x) = wrap64 (msgs (\<lambda>_. True) W)"
      "wadd (\<lambda>r. cnt_if (Aligned r) r) (wrap64 (msgs passes ?Q)) (rp_Records x) = wrap64 (msgs passes W)"
      "wadd (\<lambda>r. cnt_if (t \<le> rp_End x) r) (wrap64 (msgs (\<lambda>y. t \<le> rp_End (fst y)) ?Q)) (rp_Records x) =
         wrap64 (msgs (\<lambda>y. t \<le> rp_End (fst y)) W)"
      "wadd (\<lambda>r. cnt_if (t \<le> rp_End x \<and> Aligned r) r)
           (wrap64 (msgs (\<lambda>y. t \<le> rp_End (fst y) \<and> passes y) ?Q)) (rp_Records x) =
         wrap64 (msgs (\<lambda>y. t \<le> rp_End (fst y) \<and> passes y) W)"
      by (rule add, simp add: passes_def)+
    with record_loop_sums [OF ok, of t x "rp_Records x"] IH show ?thesis unfolding step by simp
  qed
qed

section \<open>Sources\<close>

lemma add_stat_Some:
  "add_stat rep r (Some a) =
     a\<lparr>ss_Msgs := wrap64 (ss_Msgs a + rc_Count r),
       ss_Aligned := (if Aligned r then wrap64 (ss_Aligned a + rc_Count r) else ss_Aligned a),
       ss_FailBoth := (if Aligned r then ss_FailBoth a else wrap64 (ss_FailBoth a + rc_Count r)),
       ss_LastSeen := max (rp_End rep) (ss_LastSeen a)\<rparr>"
  by (simp add: add_stat_def Let_def max_def)

lemma add_stat_None:
  "0 < rp_End rep \<Longrightarrow> add_stat rep r None =
     \<lparr>ss_IP = rc_SourceIP r, ss_Msgs = wrap64 (rc_Count r), ss_Aligned = (if Aligned r then wrap64 (rc_Count r) else 0),
      ss_FailBoth = (if Aligned r then 0 else wrap64 (rc_Count r)), ss_FirstEver = 0, ss_LastSeen = rp_End rep\<rparr>"
  by (simp add: add_stat_def Let_def)

abbreviation row_sum :: "(report \<times> rrecord \<Rightarrow> bool) \<Rightarrow> (report \<times> rrecord) list \<Rightarrow> int" where
  "row_sum P xs \<equiv> sum_list (map (\<lambda>x. if P x then rc_Count (snd x) else 0) xs)"

lemma source_fold:
  assumes "\<forall>x \<in> set xs. from_ip ip x \<and> 0 < rp_End (fst x)"
  shows "foldl (\<lambda>prev x. Some (add_stat (fst x) (snd x) prev)) None xs =
    (if xs = [] then None else Some
       \<lparr>ss_IP = ip, ss_Msgs = wrap64 (row_sum (\<lambda>_. True) xs), ss_Aligned = wrap64 (row_sum passes xs),
        ss_FailBoth = wrap64 (row_sum (\<lambda>x. \<not> passes x) xs), ss_FirstEver = 0,
        ss_LastSeen = Max ((rp_End \<circ> fst) ` set xs)\<rparr>)"
  using assms
proof (induction xs rule: rev_induct)
  case (snoc x xs)
  show ?case
  proof (cases "xs = []")
    case True
    with snoc.prems show ?thesis by (simp add: add_stat_None passes_def from_ip_def wrap64_id int64_ok_def)
  next
    case False
    with snoc show ?thesis
      by (simp add: add_stat_Some passes_def wrap64_add_left wrap64_id)
  qed
qed simp

lemma first_step_get:
  "gm_get (first_step rep m r) a = (if a = rc_SourceIP r
     then Some (case gm_get m a of None \<Rightarrow> rp_Begin rep | Some fe \<Rightarrow> min (rp_Begin rep) fe) else gm_get m a)"
  by (auto simp: first_step_def min_def split: option.split)

lemma first_fold:
  "gm_get (foldl (\<lambda>m (rep, r). first_step rep m r) [] xs) ip =
     (if filter (from_ip ip) xs = [] then None else Some (Min ((rp_Begin \<circ> fst) ` set (filter (from_ip ip) xs))))"
proof (induction xs rule: rev_induct)
  case (snoc x xs)
  show ?case
  proof (cases "from_ip ip x \<and> filter (from_ip ip) xs \<noteq> []")
    case True
    then have ne: "(rp_Begin \<circ> fst) ` set (filter (from_ip ip) xs) \<noteq> {}" by (simp only: image_is_empty set_empty simp_thms)
    from True have ip: "rc_SourceIP (snd x) = ip" by (simp add: from_ip_def)
    have min: "Min ((rp_Begin \<circ> fst) ` set (filter (from_ip ip) (xs @ [x]))) =
        min (rp_Begin (fst x)) (Min ((rp_Begin \<circ> fst) ` set (filter (from_ip ip) xs)))"
      using Min_insert [OF _ ne, of "rp_Begin (fst x)"] True by simp
    show ?thesis unfolding min using True snoc
      by (simp add: case_prod_beta first_step_get ip del: set_filter)
  next
    case False
    then consider "\<not> from_ip ip x" "rc_SourceIP (snd x) \<noteq> ip"
      | "from_ip ip x" "rc_SourceIP (snd x) = ip" "filter (from_ip ip) xs = []"
      by (auto simp: from_ip_def)
    then show ?thesis
      by cases (use snoc in \<open>simp_all add: case_prod_beta first_step_get del: set_filter\<close>)
  qed
qed simp

lemma row_sum_filter: "row_sum P (filter (from_ip ip) (rows_of W)) = msgs (\<lambda>x. from_ip ip x \<and> P x) W"
  by (simp add: msgs_def sum_list_map_filter' if_distrib cong: if_cong)
    (auto intro!: arg_cong [of _ _ sum_list])

lemma rows_from_ip:
  "fst ` set (filter (from_ip ip) (rows_of W)) = reports_from ip W"
  "filter (from_ip ip) (rows_of W) = [] \<longleftrightarrow> ip \<notin> ips_of W"
  by (force simp: set_rows_of reports_from_def from_ip_def)
    (auto simp: filter_empty_conv ips_of_def from_ip_def)

lemma image_rows_from_ip: "(f \<circ> fst) ` set (filter (from_ip ip) (rows_of W)) = f ` reports_from ip W"
  unfolding rows_from_ip(1) [symmetric] by (rule image_comp [symmetric])

lemma after_source_get:
  assumes "\<forall>rep \<in> set xs. 0 < rp_End rep" "W = ending_from l (of_domain d xs)"
  shows "gm_get (oa_sources (after d l t xs)) ip = (if ip \<notin> ips_of W then None else Some
       \<lparr>ss_IP = ip, ss_Msgs = wrap64 (msgs (from_ip ip) W), ss_Aligned = wrap64 (msgs (\<lambda>x. from_ip ip x \<and> passes x) W),
        ss_FailBoth = wrap64 (msgs (\<lambda>x. from_ip ip x \<and> \<not> passes x) W), ss_FirstEver = 0,
        ss_LastSeen = Max (rp_End ` reports_from ip W)\<rparr>)"
proof -
  have rows: "\<forall>x \<in> set (filter (from_ip ip) (rows_of W)). from_ip ip x \<and> 0 < rp_End (fst x)"
    using assms by (auto simp: set_rows_of ending_from_def)
  have "gm_get (oa_sources (after d l t xs)) ip =
      foldl (\<lambda>prev x. Some (add_stat (fst x) (snd x) prev)) None (filter (from_ip ip) (rows_of W))"
    unfolding after_sources assms(2) [symmetric] case_prod_beta
    using gm_get_foldl [of "\<lambda>x. rc_SourceIP (snd x)" "\<lambda>x. add_stat (fst x) (snd x)" "[]" "rows_of W" ip]
    by (simp add: from_ip_def [abs_def])
  then show ?thesis
    unfolding source_fold [OF rows] rows_from_ip(2) row_sum_filter image_rows_from_ip by simp
qed

lemma after_first_get:
  "gm_get (oa_first (after d l t xs)) ip = (if ip \<notin> ips_of (of_domain d xs) then None
     else Some (Min (rp_Begin ` reports_from ip (of_domain d xs))))"
  unfolding after_first first_fold rows_from_ip(2) image_rows_from_ip by simp

lemma after_sources_ok: "gm_ok (oa_sources (after d l t xs))"
  unfolding after_sources case_prod_beta
  using gm_ok_foldl [of "[]" "\<lambda>x. rc_SourceIP (snd x)" "\<lambda>x. add_stat (fst x) (snd x)"] by simp

section \<open>The in-memory store satisfies the contract\<close>

definition rm_sinv :: "rmem \<Rightarrow> bool" where
  "rm_sinv m \<longleftrightarrow> gm_ok m \<and> (\<forall>(k, rep) \<in> set m. k = Key rep \<and> acceptable rep)"

lemma Key_eq_iff: "acceptable r \<Longrightarrow> acceptable q \<Longrightarrow> Key r = Key q \<longleftrightarrow> same_report r q"
proof -
  assume a: "acceptable r" "acceptable q"
  have "same_report r q" if "Key r = Key q"
  proof -
    have eq: "rp_Org r @ CHR ''|'' # (rp_ReportID r @ CHR ''|'' # rp_Domain r) =
        rp_Org q @ CHR ''|'' # (rp_ReportID q @ CHR ''|'' # rp_Domain q)" using that by (simp add: Key_def)
    have "rp_Org r = rp_Org q \<and> rp_ReportID r @ CHR ''|'' # rp_Domain r = rp_ReportID q @ CHR ''|'' # rp_Domain q"
      by (rule split_at_first [OF _ _ eq]) (use a in \<open>simp_all add: acceptable_def\<close>)
    moreover from this have "rp_ReportID r = rp_ReportID q \<and> rp_Domain r = rp_Domain q"
      by (intro split_at_first [of "CHR ''|''"]) (use a in \<open>simp_all add: acceptable_def\<close>)
    ultimately show ?thesis by (simp add: same_report_def)
  qed
  then show ?thesis by (auto simp: Key_def same_report_def)
qed

lemma now_window:
  assumes "now_ok now"
  shows "time_Add now (- windowLong) = now - windowLong" "time_Add now (- windowRecent) = now - windowRecent"
proof -
  have "time_ok (now + - d)" if "0 \<le> d" "d \<le> 366 * Day" for d
  proof -
    have "0 \<le> now + - d" "now + - d < 2 ^ 62 * 10 ^ 9"
      using assms that by (auto simp: now_ok_def unixToInternal_def Day_def)
    then have "0 \<le> (now + - d) div 10 ^ 9" "(now + - d) div 10 ^ 9 < 2 ^ 62" by (simp_all add: div_less_iff_less_mult pos_imp_zdiv_nonneg_iff)
    then show ?thesis by (simp add: time_ok_def int64_ok_def)
  qed
  from this [of windowLong] this [of windowRecent]
  show "time_Add now (- windowLong) = now - windowLong" "time_Add now (- windowRecent) = now - windowRecent"
    by (simp_all add: time_Add_id windowLong_def windowRecent_def Day_def)
qed

lemma wrap64_total:
  assumes "counted xs" "total_msgs xs < 2 ^ 63" "W = filter F xs"
  shows "wrap64 (msgs P W) = msgs P W"
proof -
  have c: "counted W" using assms by simp
  have "msgs P W \<le> msgs (\<lambda>_. True) W" by (rule msgs_mono [OF c]) simp
  also have "\<dots> \<le> total_msgs xs" unfolding total_msgs_def assms(3) by (rule msgs_filter_le [OF assms(1)])
  finally show ?thesis using assms(2) msgs_nonneg [OF c, of P] by (simp add: wrap64_id int64_ok_def)
qed

lemma msgs_window:
  assumes "l \<le> t"
  shows "msgs (\<lambda>x. t \<le> rp_End (fst x) \<and> P x) (ending_from l R) = msgs P (ending_from t R)"
proof (induction R)
  case (Cons rep R)
  have "msgs (\<lambda>x. t \<le> rp_End (fst x) \<and> P x) [rep] = (if t \<le> rp_End rep then msgs P [rep] else 0)"
    by (simp add: sum_rows_single)
  with Cons assms show ?case
    using msgs_Cons [of "\<lambda>x. t \<le> rp_End (fst x) \<and> P x" rep "ending_from l R"] msgs_Cons [of P rep "ending_from t R"]
    by (auto simp: ending_from_def)
qed (simp add: ending_from_def)

lemma after_overview_sources:
  fixes d :: string and l t :: time
  assumes pos: "\<forall>rep \<in> set xs. 0 < rp_End rep" and cnt: "counted xs" and tot: "total_msgs xs < 2 ^ 63"
  defines "R \<equiv> of_domain d xs" and "st \<equiv> after d l t xs"
  defines "W \<equiv> ending_from l R"
  defines "ss \<equiv> map (\<lambda>(ip, a). a\<lparr>ss_FirstEver := (case gm_get (oa_first st) ip of Some t \<Rightarrow> t | None \<Rightarrow> 0)\<rparr>)
      (oa_sources st)"
  shows "map ss_IP ss = map fst (oa_sources st)" and "set ss = stat_of R W ` ips_of W"
proof -
  have WF: "W = filter (\<lambda>rep. rp_Domain rep = d \<and> l \<le> rp_End rep) xs"
    by (simp add: W_def R_def ending_from_def conj_commute)
  note wr = wrap64_total [OF cnt tot WF]
  have get: "(ip, a) \<in> set (oa_sources st) \<longleftrightarrow> ip \<in> ips_of W \<and> a = (stat_of R W ip)\<lparr>ss_FirstEver := 0\<rparr>" for ip a
    unfolding st_def gm_ok_get_iff [OF after_sources_ok] after_source_get [OF pos refl] W_def [symmetric] R_def [symmetric]
    by (auto simp: wr stat_of_def)
  have sub: "ips_of W \<subseteq> ips_of R" by (auto simp: ips_of_def set_rows_of W_def ending_from_def)
  have first: "gm_get (oa_first st) ip = Some (ss_FirstEver (stat_of R W ip))" if "ip \<in> ips_of W" for ip
    using that sub unfolding st_def after_first_get R_def [symmetric] by (auto simp: stat_of_def)
  have one: "a\<lparr>ss_FirstEver := (case gm_get (oa_first st) ip of Some t \<Rightarrow> t | None \<Rightarrow> 0)\<rparr> = stat_of R W ip"
    if "(ip, a) \<in> set (oa_sources st)" for ip a
    using that by (simp add: get first)
  show "map ss_IP ss = map fst (oa_sources st)"
    unfolding ss_def map_map by (rule map_cong [OF refl]) (auto simp: get)
  have "set ss = (\<lambda>(ip, a). stat_of R W ip) ` set (oa_sources st)"
    unfolding ss_def set_map by (rule image_cong [OF refl]) (auto simp: one)
  also have "\<dots> = stat_of R W ` ips_of W" by (force simp: get)
  finally show "set ss = stat_of R W ` ips_of W" .
qed

lemma rm_Overview_meets_spec:
  assumes acc: "\<forall>rep \<in> set xs. acceptable rep" and xs: "xs = gm_vals m" and now: "now_ok now"
    and tot: "total_msgs xs < 2 ^ 63"
  shows "\<exists>ov. rm_Overview m d now = Inr ov \<and> is_overview (of_domain d xs) (now - windowLong) (now - windowRecent) ov"
proof -
  define l t where "l = now - windowLong" and "t = now - windowRecent"
  let ?R = "of_domain d xs" and ?st = "after d l t xs"
  let ?L = "ending_from l ?R" and ?S = "ending_from t ?R"
  define ov where "ov = (oa_ov ?st)\<lparr>ov_Orgs30 := int (length (oa_orgs ?st)),
      ov_Sources := map (\<lambda>(ip, a). a\<lparr>ss_FirstEver :=
             (case gm_get (oa_first ?st) ip of Some t \<Rightarrow> t | None \<Rightarrow> 0)\<rparr>) (oa_sources ?st)\<rparr>"
  have run: "rm_Overview m d now = Inr ov"
    by (simp add: rm_Overview_def Let_def now_window [OF now] ov_def after_def l_def t_def xs)
  have pos: "\<forall>rep \<in> set xs. 0 < rp_End rep"
    using acc by (auto simp: acceptable_def instant_ok_def unixToInternal_def)
  have cnt: "counted xs" using acc by (rule acceptable_counted)
  have LF: "?L = filter (\<lambda>rep. rp_Domain rep = d \<and> l \<le> rp_End rep) xs"
    by (simp add: ending_from_def conj_commute)
  have "l \<le> t" by (simp add: l_def t_def windowLong_def windowRecent_def Day_def)
  have S: "msgs (\<lambda>x. t \<le> rp_End (fst x) \<and> P x) ?L = msgs P ?S" for P
    by (rule msgs_window [OF \<open>l \<le> t\<close>])
  have SF: "?S = filter (\<lambda>rep. rp_Domain rep = d \<and> t \<le> rp_End rep) xs"
    by (simp add: ending_from_def conj_commute)
  note wr = wrap64_total [OF cnt tot LF] wrap64_total [OF cnt tot SF]
  have sums: "ov_Msgs30 ov = total_msgs ?L" "ov_Aligned30 ov = msgs passes ?L"
      "ov_Msgs7 ov = total_msgs ?S" "ov_Aligned7 ov = msgs passes ?S"
    using after_sums [where l = l and d = d and xs = xs and t = t, OF refl] S [of "\<lambda>_. True"] S [of passes]
    by (simp_all add: ov_def wr total_msgs_def)
  have orgs: "ov_Orgs30 ov = int (card (rp_Org ` set ?L))"
    using after_orgs [of d l t xs] by (simp add: ov_def distinct_card [symmetric])
  have src: "map ss_IP (ov_Sources ov) = map fst (oa_sources ?st)" "set (ov_Sources ov) = stat_of ?R ?L ` ips_of ?L"
    using after_overview_sources [OF pos cnt tot, of d l t] by (simp_all add: ov_def)
  have b: "bounds ?R ov"
    using after_bounds [OF pos, of d l t] by (subst bounds_cong [of _ "oa_ov ?st"]) (simp_all add: ov_def)
  have "is_overview ?R l t ov"
  proof (cases "?R = []")
    case True
    have none: "ending_from u [] = []" for u by (simp add: ending_from_def)
    have "ov_Sources ov = []" using src(2) by (simp add: True none ips_of_def)
    with True b sums orgs show ?thesis
      by (intro is_overview_def [THEN iffD2]) (simp add: bounds_def none total_msgs_def zero_overview_def overview.equality)
  next
    case False
    have "ov_HasData ov" "ov_FirstSeen ov = Min (rp_Begin ` set ?R)" "ov_LastEnd ov = Max (rp_End ` set ?R)"
      "\<exists>rep \<in> set ?R. rp_End rep = ov_LastEnd ov \<and> ov_Policy ov = rp_Policy rep \<and> ov_Pct ov = rp_Pct rep"
      using b [unfolded bounds_def if_not_P [OF False]] by blast+
    moreover have "distinct (map ss_IP (ov_Sources ov))" unfolding src(1) by (rule after_sources_ok)
    ultimately show ?thesis
      unfolding is_overview_def Let_def using False sums orgs src(2) by presburger
  qed
  with run show ?thesis by (auto simp: l_def t_def)
qed

interpretation rm: report_store rmem_iface rm_sinv gm_vals "\<lambda>t. t" "\<lambda>rep. rep"
proof
  show "same_report rep rep" for rep by (simp add: same_report_def)
next
  fix m :: rmem and rep q assume inv: "rm_sinv m"
  have acc: "\<forall>rep \<in> set (gm_vals m). acceptable rep" using inv by (auto simp: rm_sinv_def)
  show "acceptable rep" if "rep \<in> set (gm_vals m)" using acc that by blast
  show "rep = q" if "rep \<in> set (gm_vals m)" "q \<in> set (gm_vals m)" "same_report rep q"
  proof -
    have "Key rep = Key q" using Key_eq_iff acc that by blast
    moreover have "gm_get m (Key x) = Some x" if "x \<in> set (gm_vals m)" for x
      using inv that by (auto simp: rm_sinv_def)
    ultimately show ?thesis using that(1,2) by (metis option.inject)
  qed
  show "distinct (gm_vals m)"
  proof -
    have "map Key (gm_vals m) = map fst m" using inv by (auto simp: rm_sinv_def)
    then have "distinct (map Key (gm_vals m))" using inv by (simp only: rm_sinv_def)
    then show ?thesis by (simp only: distinct_map)
  qed
  show "\<exists>ov. ri_Overview rmem_iface m domain now = Inr ov \<and>
      is_overview (of_domain domain (gm_vals m)) (now - windowLong) (now - windowRecent) ov"
    if "now_ok now" "total_msgs (gm_vals m) < 2 ^ 63" for domain now
    using rm_Overview_meets_spec [OF acc refl that] by simp
  show "\<exists>s'. ri_Prune rmem_iface m t = Inr s' \<and> rm_sinv s' \<and> gm_vals s' = filter (\<lambda>rep. t \<le> rp_End rep) (gm_vals m)" for t
    using inv by (auto simp: rm_Prune_def rm_sinv_def filter_map comp_def case_prod_beta' not_less distinct_map_filter)
  assume rep: "acceptable rep"
  have mem: "gm_get m (Key rep) = None \<longleftrightarrow> \<not> (\<exists>q \<in> set (gm_vals m). same_report rep q)"
  proof -
    have "gm_get m (Key rep) = None \<longleftrightarrow> Key rep \<notin> set (map fst m)" by (simp add: map_of_eq_None_iff)
    also have "map fst m = map Key (gm_vals m)" using inv by (auto simp: rm_sinv_def)
    finally show ?thesis using Key_eq_iff [OF rep] acc by (metis (no_types, lifting) imageE imageI set_map)
  qed
  show "\<exists>s' b. ri_PutReport rmem_iface m rep = Inr (s', b) \<and> rm_sinv s' \<and>
      (b \<longleftrightarrow> \<not> (\<exists>q \<in> set (gm_vals m). same_report rep q)) \<and>
      (if b then mset (gm_vals s') = add_mset rep (mset (gm_vals m)) else gm_vals s' = gm_vals m)"
  proof (cases "gm_get m (Key rep)")
    case None
    then have "Key rep \<notin> fst ` set m" by (simp add: map_of_eq_None_iff)
    then have "gm_set (Key rep) rep m = m @ [(Key rep, rep)]" "rm_sinv (m @ [(Key rep, rep)])"
      using inv rep by (auto simp: gm_set_new rm_sinv_def)
    with None mem show ?thesis by (intro exI [of _ "m @ [(Key rep, rep)]"] exI [of _ True]) (simp add: rm_PutReport_def)
  next
    case (Some q)
    with inv mem show ?thesis by (intro exI [of _ m] exI [of _ False]) (simp add: rm_PutReport_def)
  qed
qed

section \<open>Properties\<close>

lemma sample_mem: "rm_PutReport rm_NewMemStore sample_report = Inr ([(Key sample_report, sample_report)], True)"
  by (simp add: rm_PutReport_def rm_NewMemStore_def)

lemma sample_mem_ok: "rm_sinv [(Key sample_report, sample_report)]"
  by (simp add: rm_sinv_def sample_acceptable)

text \<open>
  C7. The in-memory overview is right: on a store of acceptable reports with fewer than \<open>2^63\<close> messages, the accumulation over the map returns the
  overview the specification asks for, of the domain's reports in the windows of 30 and 7 days before \<open>now\<close>: first and last instant,
  policy of a report that ends last, number of reporting organisations, messages and aligned messages of both
  windows, and one aggregate per source address.
\<close>

theorem memory_overview:
  assumes "rm_sinv m" "now_ok now" "total_msgs (gm_vals m) < 2 ^ 63"
  shows "\<exists>ov. rm_Overview m domain now = Inr ov \<and>
     is_overview (filter (\<lambda>rep. rp_Domain rep = domain) (gm_vals m)) (now - windowLong) (now - windowRecent) ov"
  using rm.overview_law [OF assms] by (simp add: rmem_iface_def)

theorem memory_overview_witness:
  "\<exists>ov. rm_Overview [(Key sample_report, sample_report)] ''d.e'' sample_now = Inr ov \<and> ov_HasData ov"
proof -
  have "total_msgs (gm_vals [(Key sample_report, sample_report)]) < 2 ^ 63" using sample_total by simp
  moreover have "rp_Domain sample_report = ''d.e''" by (simp add: sample_report_def)
  ultimately show ?thesis using memory_overview [OF sample_mem_ok sample_now_ok, of "''d.e''"]
    by (auto simp: is_overview_def Let_def)
qed

end
