(* ===== verification/Report_Sqlite.thy ===== *)
theory Report_Sqlite
  imports Report_Store
begin

text \<open>
  The production report store (\<^verbatim>\<open>dmarcwatch/sqlite.go\<close>): the tables \<^verbatim>\<open>dmarc_reports\<close> and \<^verbatim>\<open>dmarc_rows\<close> as lists of
  rows, the statements as functions on them. Instants are stored in whole seconds. \<^verbatim>\<open>SUM\<close> over integers
  is an error of the database when it leaves the 64-bit range. The argument \<open>recv\<close> is the clock
  reading that \<^verbatim>\<open>PutReport\<close> stores as \<^verbatim>\<open>received_at\<close>. A transaction either runs to its commit or leaves
  the tables as they were, so an operation is one state transition.
\<close>

section \<open>Tables\<close>

record dreport =
  dr_domain :: string
  dr_org :: string
  dr_report_id :: string
  dr_begin_at :: int
  dr_end_at :: int
  dr_policy :: string
  dr_pct :: int
  dr_received_at :: int

record drow =
  dw_domain :: string
  dw_org :: string
  dw_report_id :: string
  dw_source_ip :: string
  dw_cnt :: int
  dw_disposition :: string
  dw_eval_dkim :: string
  dw_eval_spf :: string
  dw_header_from :: string
  dw_end_at :: int
  dw_begin_at :: int

record rsql =
  rs_reports :: "dreport list"
  rs_rows :: "drow list"

definition rs_NewSQLiteStore :: rsql where
  "rs_NewSQLiteStore = \<lparr>rs_reports = [], rs_rows = []\<rparr>"

section \<open>Operations\<close>

definition report_row :: "int \<Rightarrow> report \<Rightarrow> dreport" where
  "report_row recv rep =
     \<lparr>dr_domain = rp_Domain rep, dr_org = rp_Org rep, dr_report_id = rp_ReportID rep,
      dr_begin_at = Unix (rp_Begin rep), dr_end_at = Unix (rp_End rep), dr_policy = rp_Policy rep,
      dr_pct = rp_Pct rep, dr_received_at = recv\<rparr>"

definition record_row :: "report \<Rightarrow> rrecord \<Rightarrow> drow" where
  "record_row rep r =
     \<lparr>dw_domain = rp_Domain rep, dw_org = rp_Org rep, dw_report_id = rp_ReportID rep,
      dw_source_ip = rc_SourceIP r, dw_cnt = rc_Count r, dw_disposition = rc_Disposition r,
      dw_eval_dkim = rc_EvalDKIM r, dw_eval_spf = rc_EvalSPF r, dw_header_from = rc_HeaderFrom r,
      dw_end_at = Unix (rp_End rep), dw_begin_at = Unix (rp_Begin rep)\<rparr>"

type_synonym rkey = "string \<times> string \<times> string"

definition report_key :: "dreport \<Rightarrow> rkey" where
  "report_key d = (dr_domain d, dr_org d, dr_report_id d)"

definition row_report_key :: "drow \<Rightarrow> rkey" where
  "row_report_key x = (dw_domain x, dw_org x, dw_report_id x)"

definition rs_PutReport :: "int \<Rightarrow> rsql \<Rightarrow> report \<Rightarrow> error + rsql \<times> bool" where
  "rs_PutReport recv db rep =
     (if list_ex (\<lambda>d. report_key d = report_key (report_row recv rep)) (rs_reports db) then Inr (db, False)
      else Inr (db\<lparr>rs_reports := rs_reports db @ [report_row recv rep],
                   rs_rows := rs_rows db @ map (record_row rep) (rp_Records rep)\<rparr>, True))"

definition sql_sum :: "int list \<Rightarrow> error + int" where
  "sql_sum xs = (if int64_ok (sum_list xs) then Inr (sum_list xs) else Inl ''integer overflow'')"

definition sql_pass :: "drow \<Rightarrow> bool" where
  "sql_pass x \<longleftrightarrow> dw_eval_dkim x = ''pass'' \<or> dw_eval_spf x = ''pass''"

definition sql_fail :: "drow \<Rightarrow> bool" where
  "sql_fail x \<longleftrightarrow> dw_eval_dkim x \<noteq> ''pass'' \<and> dw_eval_spf x \<noteq> ''pass''"

text \<open>\<^verbatim>\<open>SUM(cnt)\<close> and \<^verbatim>\<open>SUM(CASE WHEN ... THEN cnt ELSE 0 END)\<close> over rows.\<close>

definition sql_count :: "(drow \<Rightarrow> bool) \<Rightarrow> drow list \<Rightarrow> error + int" where
  "sql_count P xs = sql_sum (map (\<lambda>x. if P x then dw_cnt x else 0) xs)"

definition rows_since :: "rsql \<Rightarrow> string \<Rightarrow> int \<Rightarrow> drow list" where
  "rows_since db domain t = filter (\<lambda>x. dw_domain x = domain \<and> dw_end_at x \<ge> t) (rs_rows db)"

text \<open>One group of the per-source query joined with the all-history query.\<close>

definition source_row :: "rsql \<Rightarrow> string \<Rightarrow> int \<Rightarrow> string \<Rightarrow> error + source_stat" where
  "source_row db domain long ip =
     (let w = filter (\<lambda>x. dw_source_ip x = ip) (rows_since db domain long);
          h = filter (\<lambda>x. dw_domain x = domain \<and> dw_source_ip x = ip) (rs_rows db)
      in case (sql_count (\<lambda>_. True) w, sql_count sql_pass w, sql_count sql_fail w) of
           (Inr ms, Inr al, Inr fb) \<Rightarrow>
             Inr \<lparr>ss_IP = ip, ss_Msgs = ms, ss_Aligned = al, ss_FailBoth = fb,
                  ss_FirstEver = time_Unix (Min (set (map dw_begin_at h))),
                  ss_LastSeen = time_Unix (Max (set (map dw_end_at w)))\<rparr>
         | _ \<Rightarrow> Inl ''integer overflow'')"

fun all_ok :: "(error + 'x) list \<Rightarrow> error + 'x list" where
  "all_ok [] = Inr []"
| "all_ok (Inl err # xs) = Inl err"
| "all_ok (Inr x # xs) = (case all_ok xs of Inl err \<Rightarrow> Inl err | Inr ys \<Rightarrow> Inr (x # ys))"

definition rs_Overview :: "rsql \<Rightarrow> string \<Rightarrow> time \<Rightarrow> error + overview" where
  "rs_Overview db domain now =
     (let long = Unix (time_Add now (- windowLong)); recent = Unix (time_Add now (- windowRecent));
          mine = filter (\<lambda>d. dr_domain d = domain) (rs_reports db)
      in if mine = [] then Inr zero_overview
         else
           (let latest = hd (sort_key (\<lambda>d. - dr_end_at d) mine);
                w30 = rows_since db domain long; w7 = rows_since db domain recent
            in case (sql_count (\<lambda>_. True) w30, sql_count sql_pass w30,
                     sql_count (\<lambda>_. True) w7, sql_count sql_pass w7,
                     all_ok (map (source_row db domain long) (remdups (map dw_source_ip w30)))) of
                 (Inr m30, Inr a30, Inr m7, Inr a7, Inr ss) \<Rightarrow>
                   Inr \<lparr>ov_HasData = True, ov_Policy = dr_policy latest, ov_Pct = dr_pct latest,
                        ov_FirstSeen = time_Unix (Min (set (map dr_begin_at mine))),
                        ov_LastEnd = time_Unix (Max (set (map dr_end_at mine))),
                        ov_Orgs30 = int (card (set (map dr_org (filter (\<lambda>d. dr_end_at d \<ge> long) mine)))),
                        ov_Msgs30 = m30, ov_Aligned30 = a30, ov_Msgs7 = m7, ov_Aligned7 = a7,
                        ov_Sources = sort_key (\<lambda>s. - ss_Msgs s) ss\<rparr>
               | _ \<Rightarrow> Inl ''integer overflow''))"

definition rs_Prune :: "rsql \<Rightarrow> time \<Rightarrow> error + rsql" where
  "rs_Prune db olderThan =
     (let cut = Unix olderThan in
      Inr (db\<lparr>rs_rows := filter (\<lambda>x. \<not> dw_end_at x < cut) (rs_rows db),
              rs_reports := filter (\<lambda>d. \<not> dr_end_at d < cut) (rs_reports db)\<rparr>))"

definition rsql_iface :: "int \<Rightarrow> rsql report_iface" where
  "rsql_iface recv = \<lparr>ri_PutReport = rs_PutReport recv, ri_Overview = rs_Overview, ri_Prune = rs_Prune\<rparr>"

section \<open>The reports a database stands for\<close>

definition row_record :: "drow \<Rightarrow> rrecord" where
  "row_record x =
     \<lparr>rc_SourceIP = dw_source_ip x, rc_Count = dw_cnt x, rc_Disposition = dw_disposition x,
      rc_EvalDKIM = dw_eval_dkim x, rc_EvalSPF = dw_eval_spf x, rc_HeaderFrom = dw_header_from x,
      rc_AuthDKIM = [], rc_AuthSPF = []\<rparr>"

definition row_report :: "drow list \<Rightarrow> dreport \<Rightarrow> report" where
  "row_report xs d =
     \<lparr>rp_Org = dr_org d, rp_Email = [], rp_ReportID = dr_report_id d,
      rp_Begin = time_Unix (dr_begin_at d), rp_End = time_Unix (dr_end_at d), rp_Domain = dr_domain d,
      rp_Policy = dr_policy d, rp_SubPolicy = [], rp_Pct = dr_pct d,
      rp_Records = map row_record (filter (\<lambda>x. row_report_key x = report_key d) xs)\<rparr>"

definition rs_stored :: "rsql \<Rightarrow> report list" where
  "rs_stored db = map (row_report (rs_rows db)) (rs_reports db)"

text \<open>The columns hold no mail address, subdomain policy or raw authentication domains.\<close>

definition rs_keep :: "report \<Rightarrow> report" where
  "rs_keep rep = rep\<lparr>rp_Email := [], rp_SubPolicy := [],
     rp_Records := map (\<lambda>r. r\<lparr>rc_AuthDKIM := [], rc_AuthSPF := []\<rparr>) (rp_Records rep)\<rparr>"

definition seconds_ok :: "int \<Rightarrow> bool" where
  "seconds_ok n \<longleftrightarrow> 0 \<le> n \<and> n < 2 ^ 62 - unixToInternal"

definition rs_sinv :: "rsql \<Rightarrow> bool" where
  "rs_sinv db \<longleftrightarrow>
     distinct (map report_key (rs_reports db)) \<and>
     (\<forall>d \<in> set (rs_reports db). seconds_ok (dr_begin_at d) \<and> seconds_ok (dr_end_at d)) \<and>
     (\<forall>x \<in> set (rs_rows db). \<exists>d \<in> set (rs_reports db). row_report_key x = report_key d \<and>
        dw_begin_at x = dr_begin_at d \<and> dw_end_at x = dr_end_at d) \<and>
     (\<forall>rep \<in> set (rs_stored db). acceptable rep)"

text \<open>Instants are compared to the second.\<close>

definition to_second :: "time \<Rightarrow> time" where
  "to_second t = t div 10 ^ 9 * 10 ^ 9"

lemma rsql_iface_fields [simp]:
  "ri_PutReport (rsql_iface recv) = rs_PutReport recv" "ri_Overview (rsql_iface recv) = rs_Overview"
  "ri_Prune (rsql_iface recv) = rs_Prune"
  by (simp_all add: rsql_iface_def)

section \<open>Seconds and instants\<close>

lemma time_Unix_seconds: "seconds_ok n \<Longrightarrow> time_Unix n = (n + unixToInternal) * 10 ^ 9"
  by (simp add: time_Unix_def seconds_ok_def wrap64_id int64_ok_def unixToInternal_def)

lemma Unix_seconds: "seconds_ok n \<Longrightarrow> Unix (time_Unix n) = n"
  by (rule Unix_time_Unix) (simp add: seconds_ok_def int64_ok_def unixToInternal_def)

lemma Unix_in_range: "0 \<le> t \<Longrightarrow> t < 2 ^ 62 * 10 ^ 9 \<Longrightarrow> Unix t = t div 10 ^ 9 - unixToInternal"
proof -
  assume "0 \<le> t" "t < 2 ^ 62 * 10 ^ 9"
  then have "0 \<le> t div 10 ^ 9" "t div 10 ^ 9 < 2 ^ 62"
    by (simp_all add: div_less_iff_less_mult pos_imp_zdiv_nonneg_iff)
  then show ?thesis by (simp add: Unix_def wrap64_id int64_ok_def unixToInternal_def)
qed

lemma instant_seconds:
  assumes "instant_ok t"
  shows "seconds_ok (Unix t)" "time_Unix (Unix t) = t"
proof -
  have t: "0 \<le> t" "t < 2 ^ 62 * 10 ^ 9" "unixToInternal * 10 ^ 9 \<le> t" "t mod 10 ^ 9 = 0"
    using assms by (auto simp: instant_ok_def unixToInternal_def)
  have u: "Unix t = t div 10 ^ 9 - unixToInternal" by (rule Unix_in_range [OF t(1,2)])
  have "unixToInternal \<le> t div 10 ^ 9" using t(3) zdiv_mono1 [OF t(3), of "10 ^ 9"] by simp
  moreover have "t div 10 ^ 9 < 2 ^ 62" using t(2) by (simp add: div_less_iff_less_mult)
  ultimately show s: "seconds_ok (Unix t)" by (simp add: seconds_ok_def u)
  have "t div 10 ^ 9 * 10 ^ 9 = t" using div_mult_mod_eq [of t "10 ^ 9"] t(4) by (simp only: add_0_right)
  then show "time_Unix (Unix t) = t" unfolding time_Unix_seconds [OF s] unfolding u by (simp only: diff_add_cancel)
qed

lemma since_iff:
  assumes "seconds_ok n" "0 \<le> t" "t < 2 ^ 62 * 10 ^ 9"
  shows "Unix t \<le> n \<longleftrightarrow> to_second t \<le> time_Unix n"
proof -
  have "to_second t \<le> time_Unix n \<longleftrightarrow> t div 10 ^ 9 \<le> n + unixToInternal"
    unfolding to_second_def time_Unix_seconds [OF assms(1)] by (rule mult_le_cancel_right_pos) simp
  then show ?thesis unfolding Unix_in_range [OF assms(2,3)] by linarith
qed

lemma time_Unix_mono: "seconds_ok m \<Longrightarrow> seconds_ok n \<Longrightarrow> m \<le> n \<Longrightarrow> time_Unix m \<le> time_Unix n"
  by (simp add: time_Unix_seconds)

text \<open>Extremes commute with the conversion to instants.\<close>

lemma time_Unix_Min:
  assumes "finite A" "A \<noteq> {}" "\<forall>n \<in> A. seconds_ok n"
  shows "time_Unix (Min A) = Min (time_Unix ` A)"
proof (rule Min_eqI [symmetric])
  show "finite (time_Unix ` A)" using assms(1) by simp
  show "time_Unix (Min A) \<in> time_Unix ` A" using assms(1,2) by simp
  show "time_Unix (Min A) \<le> y" if "y \<in> time_Unix ` A" for y
    using that assms by (auto intro!: time_Unix_mono Min_in)
qed

lemma time_Unix_Max:
  assumes "finite A" "A \<noteq> {}" "\<forall>n \<in> A. seconds_ok n"
  shows "time_Unix (Max A) = Max (time_Unix ` A)"
proof (rule Max_eqI [symmetric])
  show "finite (time_Unix ` A)" using assms(1) by simp
  show "time_Unix (Max A) \<in> time_Unix ` A" using assms(1,2) by simp
  show "y \<le> time_Unix (Max A)" if "y \<in> time_Unix ` A" for y
    using that assms by (auto intro!: time_Unix_mono Max_in)
qed

section \<open>Rows of the table and rows of the reports\<close>

lemma mset_partition_keys:
  "distinct ks \<Longrightarrow>
     mset (concat (map (\<lambda>k. filter (\<lambda>x. key x = k) xs) ks)) = mset (filter (\<lambda>x. key x \<in> set ks) xs)"
proof (induction ks)
  case (Cons k ks)
  have "mset (filter (\<lambda>x. key x = k \<or> key x \<in> A) xs) = mset (filter (\<lambda>x. key x = k) xs) + mset (filter (\<lambda>x. key x \<in> A) xs)"
    if "k \<notin> A" for A using that by (induction xs) auto
  with Cons show ?case by simp
qed simp

text \<open>What the queries read of a row, from the table and from the reports.\<close>

definition seen_row :: "drow \<Rightarrow> string \<times> int \<times> int \<times> string \<times> int \<times> bool" where
  "seen_row x = (dw_domain x, dw_end_at x, dw_begin_at x, dw_source_ip x, dw_cnt x, sql_pass x)"

definition seen_record :: "report \<times> rrecord \<Rightarrow> string \<times> int \<times> int \<times> string \<times> int \<times> bool" where
  "seen_record y = (rp_Domain (fst y), Unix (rp_End (fst y)), Unix (rp_Begin (fst y)),
     rc_SourceIP (snd y), rc_Count (snd y), Aligned (snd y))"

lemma rs_sinvD:
  assumes "rs_sinv db" "d \<in> set (rs_reports db)" "x \<in> set (rs_rows db)" "row_report_key x = report_key d"
  shows "dw_begin_at x = dr_begin_at d" "dw_end_at x = dr_end_at d" "Aligned (row_record x) = sql_pass x"
proof -
  obtain e where e: "e \<in> set (rs_reports db)" "row_report_key x = report_key e"
      "dw_begin_at x = dr_begin_at e" "dw_end_at x = dr_end_at e"
    using assms(1,3) by (auto simp: rs_sinv_def)
  have "distinct (map report_key (rs_reports db))" using assms(1) by (simp add: rs_sinv_def)
  with e(1,2) assms(2,4) have "d = e" by (metis inj_onD distinct_map)
  with e show "dw_begin_at x = dr_begin_at d" "dw_end_at x = dr_end_at d" by simp_all
  have "row_report (rs_rows db) d \<in> set (rs_stored db)" using assms(2) by (simp add: rs_stored_def)
  then have "acceptable (row_report (rs_rows db) d)" using assms(1) unfolding rs_sinv_def by blast
  moreover have "row_record x \<in> set (rp_Records (row_report (rs_rows db) d))"
    using assms(3,4) by (auto simp: row_report_def)
  ultimately have "spelled (dw_eval_dkim x)" "spelled (dw_eval_spf x)"
    by (auto simp: acceptable_def list_all_iff row_record_def)
  then show "Aligned (row_record x) = sql_pass x" by (simp add: Aligned_def sql_pass_def spelled_def row_record_def)
qed

lemma seen_rows:
  assumes inv: "rs_sinv db"
  shows "mset (map seen_record (rows_of (rs_stored db))) = mset (map seen_row (rs_rows db))"
proof -
  let ?xs = "rs_rows db" and ?ds = "rs_reports db"
  have same: "map seen_record (map (Pair (row_report ?xs d)) (rp_Records (row_report ?xs d))) =
      map seen_row (filter (\<lambda>x. row_report_key x = report_key d) ?xs)" if d: "d \<in> set ?ds" for d
  proof -
    have "seen_record (row_report ?xs d, row_record x) = seen_row x"
      if "x \<in> set ?xs" "row_report_key x = report_key d" for x
    proof -
      have "seconds_ok (dr_begin_at d)" "seconds_ok (dr_end_at d)" using inv d by (auto simp: rs_sinv_def)
      with rs_sinvD [OF inv d that] that(2) show ?thesis
        by (simp add: seen_record_def seen_row_def row_report_def Unix_seconds row_report_key_def report_key_def)
          (simp add: row_record_def)
    qed
    then show ?thesis by (simp add: row_report_def)
  qed
  have "map seen_record (rows_of (rs_stored db)) =
      concat (map (\<lambda>d. map seen_row (filter (\<lambda>x. row_report_key x = report_key d) ?xs)) ?ds)"
    unfolding rows_of_def rs_stored_def map_map map_concat comp_def
    by (rule arg_cong [of _ _ concat], rule map_cong [OF refl], use same in \<open>simp add: comp_def\<close>)
  also have "\<dots> = map seen_row (concat (map (\<lambda>k. filter (\<lambda>x. row_report_key x = k) ?xs) (map report_key ?ds)))"
    by (simp add: map_concat comp_def)
  finally have "mset (map seen_record (rows_of (rs_stored db))) =
      image_mset seen_row (mset (filter (\<lambda>x. row_report_key x \<in> set (map report_key ?ds)) ?xs))"
    using mset_partition_keys [of "map report_key ?ds" row_report_key ?xs] inv
    by (simp only: mset_map rs_sinv_def)
  also have "filter (\<lambda>x. row_report_key x \<in> set (map report_key ?ds)) ?xs = ?xs"
    using inv by (auto simp: rs_sinv_def intro!: filter_True)
  finally show ?thesis by simp
qed

lemma seen_sum:
  assumes "rs_sinv db"
  shows "sum_list (map (\<lambda>x. f (seen_row x)) (rs_rows db)) = (sum_list (map (\<lambda>y. f (seen_record y)) (rows_of (rs_stored db))) :: int)"
proof -
  have "sum_mset (image_mset f (mset (map seen_row (rs_rows db)))) =
      sum_mset (image_mset f (mset (map seen_record (rows_of (rs_stored db)))))"
    by (simp only: seen_rows [OF assms])
  then show ?thesis by (simp only: mset_map [symmetric] map_map comp_def sum_mset_sum_list)
qed

lemma seen_set:
  assumes "rs_sinv db"
  shows "seen_row ` set (rs_rows db) = seen_record ` set (rows_of (rs_stored db))"
  using seen_rows [OF assms] by (metis set_map set_mset_mset)

lemma rows_of_filter: "rows_of (filter F R) = filter (\<lambda>y. F (fst y)) (rows_of R)"
  by (induction R) (simp_all add: rows_of_Cons filter_map comp_def)

abbreviation domain_reports :: "rsql \<Rightarrow> string \<Rightarrow> report list" where
  "domain_reports db d \<equiv> filter (\<lambda>rep. rp_Domain rep = d) (rs_stored db)"

lemma stored_seconds:
  assumes "rs_sinv db" "rep \<in> set (rs_stored db)"
  obtains b e where "seconds_ok b" "seconds_ok e" "rp_Begin rep = time_Unix b" "rp_End rep = time_Unix e"
proof -
  obtain dr where "dr \<in> set (rs_reports db)" "rep = row_report (rs_rows db) dr"
    using assms(2) by (auto simp: rs_stored_def)
  with assms(1) that [of "dr_begin_at dr" "dr_end_at dr"] show thesis by (auto simp: rs_sinv_def row_report_def)
qed

lemma stored_since:
  assumes "rs_sinv db" "rep \<in> set (rs_stored db)" "0 \<le> t" "t < 2 ^ 62 * 10 ^ 9"
  shows "Unix t \<le> Unix (rp_End rep) \<longleftrightarrow> to_second t \<le> rp_End rep"
  by (rule stored_seconds [OF assms(1,2)]) (simp only: Unix_seconds since_iff [OF _ assms(3,4)])

lemma count_since:
  assumes inv: "rs_sinv db" and t: "0 \<le> t" "t < 2 ^ 62 * 10 ^ 9"
    and P: "\<And>x. P x \<longleftrightarrow> p (seen_row x)" and Q: "\<And>y. Q y \<longleftrightarrow> p (seen_record y)"
  shows "sum_list (map (\<lambda>x. if P x then dw_cnt x else 0) (rows_since db d (Unix t))) =
     msgs Q (ending_from (to_second t) (domain_reports db d))"
proof -
  define f where "f = (\<lambda>(dom, e, b, ip, c, ps). if dom = d \<and> Unix t \<le> e \<and> p (dom, e, b, ip, c, ps) then c else (0 :: int))"
  have "sum_list (map (\<lambda>x. if P x then dw_cnt x else 0) (rows_since db d (Unix t))) =
      sum_list (map (\<lambda>x. f (seen_row x)) (rs_rows db))"
    unfolding rows_since_def sum_list_map_filter' f_def P
    by (rule arg_cong [of _ _ sum_list], rule map_cong [OF refl]) (auto simp: seen_row_def)
  also have "\<dots> = sum_list (map (\<lambda>y. f (seen_record y)) (rows_of (rs_stored db)))" by (rule seen_sum [OF inv])
  also have "\<dots> = sum_list (map (\<lambda>y. if to_second t \<le> rp_End (fst y) \<and> rp_Domain (fst y) = d
      then (if Q y then rc_Count (snd y) else 0) else 0) (rows_of (rs_stored db)))"
  proof (rule arg_cong [of _ _ sum_list], rule map_cong [OF refl])
    fix y assume "y \<in> set (rows_of (rs_stored db))"
    then have "fst y \<in> set (rs_stored db)" by (auto simp: set_rows_of)
    from stored_since [OF inv this t] show "f (seen_record y) = (if to_second t \<le> rp_End (fst y) \<and>
        rp_Domain (fst y) = d then (if Q y then rc_Count (snd y) else 0) else 0)"
      by (auto simp: f_def Q seen_record_def)
  qed
  also have "\<dots> = msgs Q (ending_from (to_second t) (domain_reports db d))"
    unfolding msgs_def ending_from_def filter_filter rows_of_filter sum_list_map_filter'
    by (rule arg_cong [of _ _ sum_list], rule map_cong [OF refl]) auto
  finally show ?thesis .
qed

lemma rs_sinv_counted: "rs_sinv db \<Longrightarrow> counted (rs_stored db)"
  by (rule acceptable_counted) (simp add: rs_sinv_def)

lemma window_in_range:
  assumes "counted xs" "total_msgs xs < 2 ^ 63"
  shows "int64_ok (msgs P (ending_from t (filter F xs)))"
proof -
  have c: "counted (filter F xs)" "counted (ending_from t (filter F xs))" using assms(1) by (simp_all add: ending_from_def)
  have "msgs P (ending_from t (filter F xs)) \<le> msgs P (filter F xs)"
    unfolding ending_from_def by (rule msgs_filter_le [OF c(1)])
  also have "\<dots> \<le> msgs P xs" by (rule msgs_filter_le [OF assms(1)])
  also have "\<dots> \<le> total_msgs xs" unfolding total_msgs_def by (rule msgs_mono [OF assms(1)]) simp
  finally show ?thesis using assms(2) msgs_nonneg [OF c(2), of P] by (simp add: int64_ok_def)
qed

lemma sql_count_since:
  assumes "rs_sinv db" "0 \<le> t" "t < 2 ^ 62 * 10 ^ 9" "total_msgs (rs_stored db) < 2 ^ 63"
    and "\<And>x. P x \<longleftrightarrow> p (seen_row x)" "\<And>y. Q y \<longleftrightarrow> p (seen_record y)"
  shows "sql_count P (rows_since db d (Unix t)) = Inr (msgs Q (ending_from (to_second t) (domain_reports db d)))"
  unfolding sql_count_def sql_sum_def count_since [where P = P, OF assms(1-3,5,6)]
  using window_in_range [OF rs_sinv_counted [OF assms(1)] assms(4)] by simp

text \<open>Restricting the rows to one source restricts the condition.\<close>

lemma sql_count_filter: "sql_count P (filter F xs) = sql_count (\<lambda>x. F x \<and> P x) xs"
proof -
  have "sum_list (map (\<lambda>x. if P x then dw_cnt x else 0) (filter F xs)) =
      sum_list (map (\<lambda>x. if F x \<and> P x then dw_cnt x else 0) xs)"
    by (induction xs) simp_all
  then show ?thesis by (simp add: sql_count_def sql_sum_def)
qed

section \<open>The overview query\<close>

lemma image_of_filter: "(\<lambda>x. h (f x)) ` {x \<in> A. q (f x)} = h ` {z \<in> f ` A. q z}"
  by auto

lemma seen_image:
  assumes "rs_sinv db"
  shows "(\<lambda>x. h (seen_row x)) ` {x \<in> set (rs_rows db). q (seen_row x)} =
     (\<lambda>y. h (seen_record y)) ` {y \<in> set (rows_of (rs_stored db)). q (seen_record y)}"
  unfolding image_of_filter [of h seen_row] image_of_filter [of h seen_record] seen_set [OF assms] ..

lemma stored_round_trip:
  assumes "rs_sinv db" "rep \<in> set (rs_stored db)"
  shows "time_Unix (Unix (rp_Begin rep)) = rp_Begin rep" "time_Unix (Unix (rp_End rep)) = rp_End rep"
    "seconds_ok (Unix (rp_Begin rep))" "seconds_ok (Unix (rp_End rep))"
  by (rule stored_seconds [OF assms]; simp add: Unix_seconds)+

text \<open>The instants of the rows that satisfy a condition on domain, end and source.\<close>

lemma row_instants:
  assumes inv: "rs_sinv db" and q: "\<And>x. F x \<longleftrightarrow> q (seen_row x)"
    and R: "\<And>rep r. rep \<in> set (rs_stored db) \<Longrightarrow> r \<in> set (rp_Records rep) \<Longrightarrow>
        q (seen_record (rep, r)) \<longleftrightarrow> rep \<in> set R \<and> rc_SourceIP r = ip"
    and sub: "set R \<subseteq> set (rs_stored db)" and ne: "reports_from ip R \<noteq> {}"
  shows "time_Unix (Min (set (map dw_begin_at (filter F (rs_rows db))))) = Min (rp_Begin ` reports_from ip R)"
    and "time_Unix (Max (set (map dw_end_at (filter F (rs_rows db))))) = Max (rp_End ` reports_from ip R)"
proof -
  have rows: "{y \<in> set (rows_of (rs_stored db)). q (seen_record y)} =
      {(rep, r). rep \<in> set R \<and> r \<in> set (rp_Records rep) \<and> rc_SourceIP r = ip}"
    using R sub by (auto simp: set_rows_of)
  have fsts: "fst ` {y \<in> set (rows_of (rs_stored db)). q (seen_record y)} = reports_from ip R"
    unfolding rows reports_from_def by (auto simp: image_iff) blast
  have stored: "reports_from ip R \<subseteq> set (rs_stored db)" using sub by (auto simp: reports_from_def)
  have b: "set (map dw_begin_at (filter F (rs_rows db))) = (Unix \<circ> rp_Begin) ` reports_from ip R"
  proof -
    have "set (map dw_begin_at (filter F (rs_rows db))) =
        (\<lambda>x. fst (snd (snd (seen_row x)))) ` {x \<in> set (rs_rows db). q (seen_row x)}"
      by (simp add: q) (simp add: seen_row_def)
    also have "\<dots> = (\<lambda>y. fst (snd (snd (seen_record y)))) ` {y \<in> set (rows_of (rs_stored db)). q (seen_record y)}"
      by (rule seen_image [OF inv])
    also have "\<dots> = (Unix \<circ> rp_Begin) ` reports_from ip R"
      unfolding fsts [symmetric] image_comp by (simp add: seen_record_def)
    finally show ?thesis .
  qed
  have e: "set (map dw_end_at (filter F (rs_rows db))) = (Unix \<circ> rp_End) ` reports_from ip R"
  proof -
    have "set (map dw_end_at (filter F (rs_rows db))) =
        (\<lambda>x. fst (snd (seen_row x))) ` {x \<in> set (rs_rows db). q (seen_row x)}"
      by (simp add: q) (simp add: seen_row_def)
    also have "\<dots> = (\<lambda>y. fst (snd (seen_record y))) ` {y \<in> set (rows_of (rs_stored db)). q (seen_record y)}"
      by (rule seen_image [OF inv])
    also have "\<dots> = (Unix \<circ> rp_End) ` reports_from ip R"
      unfolding fsts [symmetric] image_comp by (simp add: seen_record_def)
    finally show ?thesis .
  qed
  have fin: "finite (reports_from ip R)" by (simp add: reports_from_def)
  have "time_Unix ` (Unix \<circ> rp_Begin) ` reports_from ip R = rp_Begin ` reports_from ip R"
    unfolding image_comp by (rule image_cong [OF refl]) (use stored stored_round_trip [OF inv] in auto)
  then show "time_Unix (Min (set (map dw_begin_at (filter F (rs_rows db))))) = Min (rp_Begin ` reports_from ip R)"
    unfolding b using time_Unix_Min [of "(Unix \<circ> rp_Begin) ` reports_from ip R"] fin ne stored stored_round_trip(3) [OF inv]
    by auto
  have "time_Unix ` (Unix \<circ> rp_End) ` reports_from ip R = rp_End ` reports_from ip R"
    unfolding image_comp by (rule image_cong [OF refl]) (use stored stored_round_trip [OF inv] in auto)
  then show "time_Unix (Max (set (map dw_end_at (filter F (rs_rows db))))) = Max (rp_End ` reports_from ip R)"
    unfolding e using time_Unix_Max [of "(Unix \<circ> rp_End) ` reports_from ip R"] fin ne stored stored_round_trip(4) [OF inv]
    by auto
qed

lemma ips_reports_from: "ip \<in> ips_of R \<longleftrightarrow> reports_from ip R \<noteq> {}"
  by (force simp: ips_of_def reports_from_def set_rows_of)

lemma source_row_correct:
  assumes inv: "rs_sinv db" and t: "0 \<le> t" "t < 2 ^ 62 * 10 ^ 9" and tot: "total_msgs (rs_stored db) < 2 ^ 63"
    and ip: "ip \<in> ips_of (ending_from (to_second t) (domain_reports db d))"
  shows "source_row db d (Unix t) ip =
     Inr (stat_of (domain_reports db d) (ending_from (to_second t) (domain_reports db d)) ip)"
proof -
  let ?R = "domain_reports db d" and ?W = "ending_from (to_second t) (domain_reports db d)"
  let ?w = "filter (\<lambda>x. dw_source_ip x = ip) (rows_since db d (Unix t))"
  let ?h = "filter (\<lambda>x. dw_domain x = d \<and> dw_source_ip x = ip) (rs_rows db)"
  have cnt: "sql_count P ?w = Inr (msgs (\<lambda>y. from_ip ip y \<and> Q y) ?W)"
    if "\<And>x. P x \<longleftrightarrow> p (seen_row x)" "\<And>y. Q y \<longleftrightarrow> p (seen_record y)" for P Q p
    unfolding sql_count_filter
    by (rule sql_count_since [OF inv t tot, where p = "\<lambda>z. (case z of (_, _, _, i, _, _) \<Rightarrow> i = ip) \<and> p z"])
      (simp_all add: that seen_row_def seen_record_def from_ip_def)
  have "sql_count (\<lambda>_. True) ?w = Inr (msgs (from_ip ip) ?W)"
    "sql_count sql_pass ?w = Inr (msgs (\<lambda>y. from_ip ip y \<and> passes y) ?W)"
    "sql_count sql_fail ?w = Inr (msgs (\<lambda>y. from_ip ip y \<and> \<not> passes y) ?W)"
    using cnt [of "\<lambda>_. True" "\<lambda>_. True" "\<lambda>_. True"]
      cnt [of sql_pass "\<lambda>(_, _, _, _, _, ps). ps" passes]
      cnt [of sql_fail "\<lambda>(_, _, _, _, _, ps). \<not> ps" "\<lambda>y. \<not> passes y"]
    by (auto simp: seen_row_def seen_record_def passes_def sql_pass_def sql_fail_def)
  moreover have "time_Unix (Min (set (map dw_begin_at ?h))) = Min (rp_Begin ` reports_from ip ?R)"
  proof (rule row_instants(1) [OF inv, where q = "\<lambda>(dom, _, _, i, _, _). dom = d \<and> i = ip"])
    show "reports_from ip ?R \<noteq> {}"
      using ip by (auto simp: ips_reports_from reports_from_def ending_from_def)
  qed (auto simp: seen_row_def seen_record_def)
  moreover have "time_Unix (Max (set (map dw_end_at ?w))) = Max (rp_End ` reports_from ip ?W)"
    unfolding rows_since_def filter_filter
  proof (rule row_instants(2) [OF inv, where q = "\<lambda>(dom, e, _, i, _, _). (dom = d \<and> Unix t \<le> e) \<and> i = ip"])
    show "reports_from ip ?W \<noteq> {}" using ip by (simp add: ips_reports_from)
  qed (auto simp: seen_row_def seen_record_def ending_from_def stored_since [OF inv _ t])
  ultimately show ?thesis by (simp add: source_row_def Let_def stat_of_def)
qed

lemma all_ok_map: "\<forall>x \<in> set xs. f x = Inr (g x) \<Longrightarrow> all_ok (map f xs) = Inr (map g xs)"
  by (induction xs) auto

lemma row_report_fields [simp]:
  "rp_Domain (row_report xs dr) = dr_domain dr" "rp_Org (row_report xs dr) = dr_org dr"
  "rp_Policy (row_report xs dr) = dr_policy dr" "rp_Pct (row_report xs dr) = dr_pct dr"
  "rp_Begin (row_report xs dr) = time_Unix (dr_begin_at dr)" "rp_End (row_report xs dr) = time_Unix (dr_end_at dr)"
  "rp_ReportID (row_report xs dr) = dr_report_id dr"
  by (simp_all add: row_report_def)

lemma ips_since:
  assumes inv: "rs_sinv db" and t: "0 \<le> t" "t < 2 ^ 62 * 10 ^ 9"
  shows "set (map dw_source_ip (rows_since db d (Unix t))) = ips_of (ending_from (to_second t) (domain_reports db d))"
proof -
  let ?q = "\<lambda>(dom, e, _, _, _, _). dom = d \<and> Unix t \<le> e"
  have "set (map dw_source_ip (rows_since db d (Unix t))) =
      (\<lambda>x. fst (snd (snd (snd (seen_row x))))) ` {x \<in> set (rs_rows db). ?q (seen_row x)}"
    by (simp add: rows_since_def seen_row_def)
  also have "\<dots> = (\<lambda>y. fst (snd (snd (snd (seen_record y))))) ` {y \<in> set (rows_of (rs_stored db)). ?q (seen_record y)}"
    by (rule seen_image [OF inv])
  also have "{y \<in> set (rows_of (rs_stored db)). ?q (seen_record y)} =
      set (rows_of (ending_from (to_second t) (domain_reports db d)))"
    by (auto simp: set_rows_of ending_from_def seen_record_def stored_since [OF inv _ t])
  finally show ?thesis by (simp add: ips_of_def seen_record_def)
qed

text \<open>The row that \<^verbatim>\<open>ORDER BY end_at DESC LIMIT 1\<close> selects.\<close>

lemma latest_row:
  assumes "ds \<noteq> []"
  shows "hd (sort_key (\<lambda>d. - dr_end_at d) ds) \<in> set ds"
    "dr_end_at (hd (sort_key (\<lambda>d. - dr_end_at d) ds)) = Max (set (map dr_end_at ds))"
proof -
  let ?s = "sort_key (\<lambda>d. - dr_end_at d) ds"
  have ne: "?s \<noteq> []" using assms by (metis set_empty set_sort)
  then show m: "hd ?s \<in> set ds" by (metis hd_in_set set_sort)
  have "sorted (map (\<lambda>d. - dr_end_at d) ?s)" by (rule sorted_sort_key)
  then have "\<forall>x \<in> set ?s. dr_end_at x \<le> dr_end_at (hd ?s)" using ne by (cases ?s) auto
  then show "dr_end_at (hd ?s) = Max (set (map dr_end_at ds))" using m by (intro Max_eqI [symmetric]) auto
qed

lemma now_window_range:
  assumes "now_ok now" "w \<in> {windowLong, windowRecent}"
  shows "time_Add now (- w) = now - w" "0 \<le> now - w" "now - w < 2 ^ 62 * 10 ^ 9"
proof -
  show r: "0 \<le> now - w" "now - w < 2 ^ 62 * 10 ^ 9"
    using assms by (auto simp: now_ok_def unixToInternal_def windowLong_def windowRecent_def Day_def)
  then have "0 \<le> (now - w) div 10 ^ 9" "(now - w) div 10 ^ 9 < 2 ^ 62"
    by (simp_all add: div_less_iff_less_mult pos_imp_zdiv_nonneg_iff)
  then have "time_ok (now + - w)" by (simp add: time_ok_def int64_ok_def)
  from time_Add_id [OF this] show "time_Add now (- w) = now - w" by simp
qed

text \<open>The value the queries return for a domain with reports, and what its parts say of the reports; \<open>l\<close> and \<open>t\<close> are the starts of the windows.\<close>

definition sql_overview :: "rsql \<Rightarrow> string \<Rightarrow> time \<Rightarrow> time \<Rightarrow> overview" where
  "sql_overview db d l t =
     (let R = domain_reports db d; L = ending_from (to_second l) R; S = ending_from (to_second t) R;
          mine = filter (\<lambda>dr. dr_domain dr = d) (rs_reports db); latest = hd (sort_key (\<lambda>dr. - dr_end_at dr) mine)
      in \<lparr>ov_HasData = True, ov_Policy = dr_policy latest, ov_Pct = dr_pct latest,
          ov_FirstSeen = time_Unix (Min (set (map dr_begin_at mine))), ov_LastEnd = time_Unix (Max (set (map dr_end_at mine))),
          ov_Orgs30 = int (card (set (map dr_org (filter (\<lambda>dr. dr_end_at dr \<ge> Unix l) mine)))),
          ov_Msgs30 = total_msgs L, ov_Aligned30 = msgs passes L, ov_Msgs7 = total_msgs S, ov_Aligned7 = msgs passes S,
          ov_Sources = sort_key (\<lambda>s. - ss_Msgs s) (map (stat_of R L) (remdups (map dw_source_ip (rows_since db d (Unix l)))))\<rparr>)"

lemma rs_Overview_value:
  assumes inv: "rs_sinv db" and tot: "total_msgs (rs_stored db) < 2 ^ 63" and ne: "filter (\<lambda>dr. dr_domain dr = d) (rs_reports db) \<noteq> []"
    and l: "time_Add now (- windowLong) = l" "0 \<le> l" "l < 2 ^ 62 * 10 ^ 9"
    and t: "time_Add now (- windowRecent) = t" "0 \<le> t" "t < 2 ^ 62 * 10 ^ 9"
  shows "rs_Overview db d now = Inr (sql_overview db d l t)"
proof -
  let ?R = "domain_reports db d"
  let ?L = "ending_from (to_second l) ?R"
  note cl = sql_count_since [OF inv l(2,3) tot] and ct = sql_count_since [OF inv t(2,3) tot]
  have pass: "sql_pass x \<longleftrightarrow> snd (snd (snd (snd (snd (seen_row x)))))"
    "passes y \<longleftrightarrow> snd (snd (snd (snd (snd (seen_record y)))))" for x y
    by (simp_all add: seen_row_def seen_record_def passes_def)
  have srcs: "all_ok (map (source_row db d (Unix l)) (remdups (map dw_source_ip (rows_since db d (Unix l))))) =
      Inr (map (stat_of ?R ?L) (remdups (map dw_source_ip (rows_since db d (Unix l)))))"
    using source_row_correct [OF inv l(2,3) tot] ips_since [OF inv l(2,3), of d]
    by (intro all_ok_map) (simp only: set_remdups, blast)
  show ?thesis
    unfolding rs_Overview_def Let_def l(1) t(1) srcs
      cl [where P = "\<lambda>_. True" and Q = "\<lambda>_. True" and p = "\<lambda>_. True", OF refl refl] cl [OF pass]
      ct [where P = "\<lambda>_. True" and Q = "\<lambda>_. True" and p = "\<lambda>_. True", OF refl refl] ct [OF pass]
    using ne by (simp add: sql_overview_def Let_def total_msgs_def)
qed

lemma sql_overview_sources:
  assumes inv: "rs_sinv db" and l: "0 \<le> l" "l < 2 ^ 62 * 10 ^ 9"
    and R_def: "R = domain_reports db d" and L_def: "L = ending_from (to_second l) R"
  shows "distinct (map ss_IP (ov_Sources (sql_overview db d l t)))" "set (ov_Sources (sql_overview db d l t)) = stat_of R L ` ips_of L"
proof -
  let ?ips = "remdups (map dw_source_ip (rows_since db d (Unix l)))"
  have ips: "map ss_IP (map (stat_of R L) is) = is" for "is" by (induction "is") simp_all
  have "mset (map ss_IP (ov_Sources (sql_overview db d l t))) = mset (map ss_IP (map (stat_of R L) ?ips))"
    by (simp add: sql_overview_def Let_def multiset.map_comp R_def L_def)
  then show "distinct (map ss_IP (ov_Sources (sql_overview db d l t)))" unfolding ips by (metis distinct_remdups mset_eq_imp_distinct_iff)
  show "set (ov_Sources (sql_overview db d l t)) = stat_of R L ` ips_of L"
    using ips_since [OF inv l, of d] by (simp add: sql_overview_def Let_def R_def L_def)
qed

lemma sql_overview_correct:
  assumes inv: "rs_sinv db" and ne: "filter (\<lambda>dr. dr_domain dr = d) (rs_reports db) \<noteq> []" and l: "0 \<le> l" "l < 2 ^ 62 * 10 ^ 9"
  shows "is_overview (domain_reports db d) (to_second l) (to_second t) (sql_overview db d l t)"
proof -
  let ?R = "domain_reports db d" and ?mine = "filter (\<lambda>dr. dr_domain dr = d) (rs_reports db)" and ?ov = "sql_overview db d l t"
  note ov = sql_overview_def [of db d l t, unfolded Let_def]
  have mine: "?R = map (row_report (rs_rows db)) ?mine" by (simp add: rs_stored_def filter_map comp_def)
  have sec: "\<forall>dr \<in> set ?mine. seconds_ok (dr_begin_at dr) \<and> seconds_ok (dr_end_at dr)" using inv by (simp add: rs_sinv_def)
  have ex: "\<exists>x. x \<in> set (rs_reports db) \<and> dr_domain x = d" using ne by (auto simp: filter_empty_conv)
  have first: "ov_FirstSeen ?ov = Min (rp_Begin ` set ?R)"
    unfolding mine using time_Unix_Min [of "set (map dr_begin_at ?mine)"] sec ex by (simp add: ov image_comp comp_def)
  have last: "ov_LastEnd ?ov = Max (rp_End ` set ?R)"
    unfolding mine using time_Unix_Max [of "set (map dr_end_at ?mine)"] sec ex by (simp add: ov image_comp comp_def)
  have pol: "\<exists>rep \<in> set ?R. rp_End rep = ov_LastEnd ?ov \<and> ov_Policy ?ov = rp_Policy rep \<and> ov_Pct ?ov = rp_Pct rep"
    using latest_row [OF ne] unfolding mine
    by (intro bexI [of _ "row_report (rs_rows db) (hd (sort_key (\<lambda>dr. - dr_end_at dr) ?mine))"]) (simp_all add: ov)
  have "Unix l \<le> dr_end_at dr \<longleftrightarrow> to_second l \<le> time_Unix (dr_end_at dr)" if "dr \<in> set ?mine" for dr
    using sec that by (intro since_iff [OF _ l]) blast
  then have orgs: "ov_Orgs30 ?ov = int (card (rp_Org ` set (ending_from (to_second l) ?R)))"
    unfolding mine by (simp add: ov ending_from_def filter_map comp_def image_comp cong: filter_cong conj_cong)
  have "?R \<noteq> []" unfolding mine using ne by simp
  then show ?thesis unfolding is_overview_def Let_def
    using first last pol orgs sql_overview_sources [OF inv l refl refl, of d t] by (simp add: ov)
qed

lemma rs_Overview_meets_spec:
  assumes inv: "rs_sinv db" and now: "now_ok now" and tot: "total_msgs (rs_stored db) < 2 ^ 63"
  shows "\<exists>ov. rs_Overview db d now = Inr ov \<and>
     is_overview (domain_reports db d) (to_second (now - windowLong)) (to_second (now - windowRecent)) ov"
proof (cases "filter (\<lambda>dr. dr_domain dr = d) (rs_reports db) = []")
  case True
  then have "domain_reports db d = []" by (simp add: rs_stored_def filter_map comp_def)
  with True show ?thesis by (simp add: rs_Overview_def Let_def is_overview_def)
next
  case False
  have l: "time_Add now (- windowLong) = now - windowLong" "0 \<le> now - windowLong" "now - windowLong < 2 ^ 62 * 10 ^ 9"
    and t: "time_Add now (- windowRecent) = now - windowRecent" "0 \<le> now - windowRecent" "now - windowRecent < 2 ^ 62 * 10 ^ 9"
    by (rule now_window_range [OF now]; simp)+
  show ?thesis using rs_Overview_value [OF inv tot False l t] sql_overview_correct [OF inv False l(2,3)] by blast
qed

section \<open>The production store satisfies the contract\<close>

definition key_of :: "report \<Rightarrow> rkey" where
  "key_of rep = (rp_Domain rep, rp_Org rep, rp_ReportID rep)"

lemma same_report_key: "same_report r q \<longleftrightarrow> key_of r = key_of q"
  by (auto simp: same_report_def key_of_def)

lemma keys_stored: "map key_of (rs_stored db) = map report_key (rs_reports db)"
  by (simp add: rs_stored_def comp_def key_of_def report_key_def)

lemma report_key_report_row [simp]: "report_key (report_row recv rep) = key_of rep"
  by (simp add: report_key_def report_row_def key_of_def)

lemma row_report_key_record_row [simp]: "row_report_key (record_row rep r) = key_of rep"
  by (simp add: row_report_key_def record_row_def key_of_def)

lemma duplicate_iff:
  "list_ex (\<lambda>d. report_key d = key_of rep) (rs_reports db) \<longleftrightarrow> (\<exists>q \<in> set (rs_stored db). same_report rep q)"
proof -
  have "list_ex (\<lambda>d. report_key d = key_of rep) (rs_reports db) \<longleftrightarrow> key_of rep \<in> set (map report_key (rs_reports db))"
    by (auto simp: list_ex_iff intro: rev_image_eqI)
  then show ?thesis unfolding keys_stored [symmetric] same_report_key by auto
qed

lemma put_stored:
  assumes inv: "rs_sinv db" and rep: "acceptable rep" and new: "key_of rep \<notin> set (map report_key (rs_reports db))"
    and db': "db' = db\<lparr>rs_reports := rs_reports db @ [report_row recv rep],
                   rs_rows := rs_rows db @ map (record_row rep) (rp_Records rep)\<rparr>"
  shows "rs_stored db' = rs_stored db @ [rs_keep rep]"
proof -
  let ?new = "map (record_row rep) (rp_Records rep)"
  have old: "row_report (rs_rows db @ ?new) dr = row_report (rs_rows db) dr" if "dr \<in> set (rs_reports db)" for dr
  proof -
    have "key_of rep \<noteq> report_key dr" using that new by auto
    then show ?thesis by (simp add: row_report_def filter_map comp_def)
  qed
  have none: "filter (\<lambda>x. row_report_key x = key_of rep) (rs_rows db) = []"
  proof (rule filter_False, rule ballI)
    fix x assume "x \<in> set (rs_rows db)"
    with inv obtain dr where "dr \<in> set (rs_reports db)" "row_report_key x = report_key dr"
      unfolding rs_sinv_def by blast
    with new show "row_report_key x \<noteq> key_of rep" by (auto intro: rev_image_eqI)
  qed
  have t: "time_Unix (Unix (rp_Begin rep)) = rp_Begin rep" "time_Unix (Unix (rp_End rep)) = rp_End rep"
    using rep by (simp_all add: acceptable_def instant_seconds)
  have "row_report (rs_rows db @ ?new) (report_row recv rep) = rs_keep rep"
    unfolding row_report_def report_key_report_row filter_append none filter_map
    by (simp add: comp_def t rs_keep_def report_row_def) (simp add: row_record_def record_row_def)
  with old show ?thesis by (simp add: rs_stored_def db')
qed

lemma rs_keep_acceptable: "acceptable rep \<Longrightarrow> acceptable (rs_keep rep)"
  by (simp add: acceptable_def rs_keep_def list_all_iff)

lemma put_inv:
  assumes inv: "rs_sinv db" and rep: "acceptable rep" and new: "key_of rep \<notin> set (map report_key (rs_reports db))"
    and db': "db' = db\<lparr>rs_reports := rs_reports db @ [report_row recv rep],
                   rs_rows := rs_rows db @ map (record_row rep) (rp_Records rep)\<rparr>"
  shows "rs_sinv db'"
proof -
  have keys: "distinct (map report_key (rs_reports db'))" using inv new by (simp add: rs_sinv_def db')
  have secs: "\<forall>dr \<in> set (rs_reports db'). seconds_ok (dr_begin_at dr) \<and> seconds_ok (dr_end_at dr)"
    using inv rep instant_seconds(1) by (auto simp: rs_sinv_def db' report_row_def acceptable_def)
  have rows: "\<forall>x \<in> set (rs_rows db'). \<exists>dr \<in> set (rs_reports db'). row_report_key x = report_key dr \<and>
      dw_begin_at x = dr_begin_at dr \<and> dw_end_at x = dr_end_at dr"
  proof
    fix x assume "x \<in> set (rs_rows db')"
    then consider "x \<in> set (rs_rows db)" | r where "x = record_row rep r" by (auto simp: db')
    then show "\<exists>dr \<in> set (rs_reports db'). row_report_key x = report_key dr \<and>
        dw_begin_at x = dr_begin_at dr \<and> dw_end_at x = dr_end_at dr"
    proof cases
      case 1
      with inv show ?thesis unfolding rs_sinv_def db' by fastforce
    next
      case 2
      then show ?thesis
        by (intro bexI [of _ "report_row recv rep"]) (simp_all add: db', simp_all add: record_row_def report_row_def)
    qed
  qed
  have "\<forall>q \<in> set (rs_stored db'). acceptable q"
    using inv rs_keep_acceptable [OF rep] put_stored [OF assms] by (simp add: rs_sinv_def)
  with keys secs rows show ?thesis unfolding rs_sinv_def by blast
qed

lemma prune_stored:
  assumes inv: "rs_sinv db" and t: "0 \<le> t" "t < 2 ^ 62 * 10 ^ 9" and db': "rs_Prune db t = Inr db'"
  shows "rs_stored db' = filter (\<lambda>rep. to_second t \<le> rp_End rep) (rs_stored db)" "rs_sinv db'"
proof -
  let ?old = "\<lambda>dr. Unix t \<le> dr_end_at dr"
  have reps: "rs_reports db' = filter ?old (rs_reports db)"
    and rows: "rs_rows db' = filter (\<lambda>x. Unix t \<le> dw_end_at x) (rs_rows db)"
    using db' by (auto simp: rs_Prune_def Let_def not_less)
  have cut: "?old dr \<longleftrightarrow> to_second t \<le> time_Unix (dr_end_at dr)" if "dr \<in> set (rs_reports db)" for dr
    using inv that by (intro since_iff [OF _ t]) (auto simp: rs_sinv_def)
  have same: "row_report (rs_rows db') dr = row_report (rs_rows db) dr" if "dr \<in> set (rs_reports db)" "?old dr" for dr
  proof -
    have "filter (\<lambda>x. row_report_key x = report_key dr) (rs_rows db') =
        filter (\<lambda>x. row_report_key x = report_key dr) (rs_rows db)"
      unfolding rows filter_filter by (rule filter_cong [OF refl]) (use rs_sinvD(2) [OF inv that(1)] that(2) in auto)
    then show ?thesis by (simp add: row_report_def)
  qed
  have "rs_stored db' = map (row_report (rs_rows db)) (filter ?old (rs_reports db))"
    unfolding rs_stored_def reps by (rule map_cong [OF refl]) (simp add: same)
  also have "\<dots> = map (row_report (rs_rows db)) (filter (\<lambda>dr. to_second t \<le> time_Unix (dr_end_at dr)) (rs_reports db))"
    by (rule arg_cong [of _ _ "map _"], rule filter_cong [OF refl], rule cut)
  also have "\<dots> = filter (\<lambda>rep. to_second t \<le> rp_End rep) (rs_stored db)"
    by (simp add: rs_stored_def filter_map comp_def)
  finally show st: "rs_stored db' = filter (\<lambda>rep. to_second t \<le> rp_End rep) (rs_stored db)" .
  have "\<exists>dr \<in> set (rs_reports db'). row_report_key x = report_key dr \<and> dw_begin_at x = dr_begin_at dr \<and>
      dw_end_at x = dr_end_at dr" if "x \<in> set (rs_rows db')" for x
  proof -
    have x: "x \<in> set (rs_rows db)" "Unix t \<le> dw_end_at x" using that by (simp_all add: rows)
    with inv obtain dr where "dr \<in> set (rs_reports db)" "row_report_key x = report_key dr"
      "dw_begin_at x = dr_begin_at dr" "dw_end_at x = dr_end_at dr" unfolding rs_sinv_def by blast
    with x(2) show ?thesis by (auto simp: reps)
  qed
  moreover have "\<forall>rep \<in> set (rs_stored db'). acceptable rep" using inv by (simp add: st rs_sinv_def)
  ultimately show "rs_sinv db'" using inv by (auto simp: rs_sinv_def reps distinct_map_filter)
qed

interpretation rs: report_store "rsql_iface recv" rs_sinv rs_stored to_second rs_keep
proof
  show "same_report rep (rs_keep rep)" for rep by (simp add: same_report_def rs_keep_def)
  show "to_second t \<le> to_second u" if "t \<le> u" for t u
    using zdiv_mono1 [OF that, of "10 ^ 9"] by (simp add: to_second_def)
next
  fix db rep q assume inv: "rs_sinv db"
  show "acceptable rep" if "rep \<in> set (rs_stored db)" using inv that by (simp add: rs_sinv_def)
  have keys: "distinct (map key_of (rs_stored db))" unfolding keys_stored using inv by (simp add: rs_sinv_def)
  then show "distinct (rs_stored db)" by (simp add: distinct_map)
  show "rep = q" if "rep \<in> set (rs_stored db)" "q \<in> set (rs_stored db)" "same_report rep q"
    using keys that unfolding same_report_key distinct_map by (blast dest: inj_onD)
next
  fix db domain now assume "rs_sinv db" "now_ok now" "total_msgs (rs_stored db) < 2 ^ 63"
  from rs_Overview_meets_spec [OF this, of domain]
  show "\<exists>ov. ri_Overview (rsql_iface recv) db domain now = Inr ov \<and>
      is_overview (domain_reports db domain) (to_second (now - windowLong)) (to_second (now - windowRecent)) ov"
    by simp
next
  fix db and t :: time assume inv: "rs_sinv db" and r: "0 \<le> t" "t < 2 ^ 62 * 10 ^ 9"
  obtain db' where db': "rs_Prune db t = Inr db'" by (simp add: rs_Prune_def Let_def)
  with prune_stored [OF inv r db'] show "\<exists>s'. ri_Prune (rsql_iface recv) db t = Inr s' \<and> rs_sinv s' \<and>
      rs_stored s' = filter (\<lambda>rep. to_second t \<le> rp_End rep) (rs_stored db)" by simp
next
  fix db rep assume inv: "rs_sinv db" and rep: "acceptable rep"
  show "\<exists>s' b. ri_PutReport (rsql_iface recv) db rep = Inr (s', b) \<and> rs_sinv s' \<and>
      (b \<longleftrightarrow> \<not> (\<exists>q \<in> set (rs_stored db). same_report rep q)) \<and>
      (if b then mset (rs_stored s') = add_mset (rs_keep rep) (mset (rs_stored db)) else rs_stored s' = rs_stored db)"
  proof (cases "\<exists>q \<in> set (rs_stored db). same_report rep q")
    case True
    then have "rs_PutReport recv db rep = Inr (db, False)" by (simp add: rs_PutReport_def duplicate_iff)
    with True inv show ?thesis by auto
  next
    case False
    let ?db = "db\<lparr>rs_reports := rs_reports db @ [report_row recv rep],
                   rs_rows := rs_rows db @ map (record_row rep) (rp_Records rep)\<rparr>"
    have new: "key_of rep \<notin> set (map report_key (rs_reports db))"
      using False unfolding duplicate_iff [symmetric] list_ex_iff set_map by (metis imageE)
    have "rs_PutReport recv db rep = Inr (?db, True)" using False by (simp add: rs_PutReport_def duplicate_iff)
    with False put_stored [OF inv rep new refl] put_inv [OF inv rep new refl] show ?thesis by auto
  qed
qed

section \<open>Properties\<close>

definition empty_reports :: rsql where "empty_reports = \<lparr>rs_reports = [], rs_rows = []\<rparr>"

lemma empty_reports_ok: "rs_sinv empty_reports" "rs_stored empty_reports = []"
  by (simp_all add: rs_sinv_def rs_stored_def empty_reports_def)

definition sample_reports :: rsql where
  "sample_reports = fst (projr (rs_PutReport 0 empty_reports sample_report))"

lemma sample_reports_facts: "rs_sinv sample_reports" "rs_stored sample_reports = [rs_keep sample_report]"
proof -
  obtain db b where put: "rs_PutReport 0 empty_reports sample_report = Inr (db, b)" "rs_sinv db"
    "b \<longleftrightarrow> \<not> (\<exists>q \<in> set (rs_stored empty_reports). same_report sample_report q)"
    "if b then mset (rs_stored db) = add_mset (rs_keep sample_report) (mset (rs_stored empty_reports)) else rs_stored db = rs_stored empty_reports"
    using rs.put_law [OF empty_reports_ok(1) sample_acceptable, of 0] by auto
  then have "mset (rs_stored db) = {#rs_keep sample_report#}" by (simp add: empty_reports_ok(2))
  then have "rs_stored db = [rs_keep sample_report]" by simp
  with put show "rs_sinv sample_reports" "rs_stored sample_reports = [rs_keep sample_report]" by (simp_all add: sample_reports_def)
qed

lemma sample_reports_total: "total_msgs (rs_stored sample_reports) = 23"
  by (simp add: sample_reports_facts total_msgs_def msgs_def rows_of_def rs_keep_def sample_report_def sample_row_def)

text \<open>
  C6. The SQL overview is right: on tables that hold acceptable reports with fewer than \<open>2^63\<close> messages, the queries succeed and together return the
  overview the specification asks for, of the domain's reports, with the windows of 30 and 7 days cut to whole seconds.
\<close>

theorem sqlite_overview:
  assumes "rs_sinv db" "now_ok now" "total_msgs (rs_stored db) < 2 ^ 63"
  shows "\<exists>ov. rs_Overview db domain now = Inr ov \<and>
     is_overview (filter (\<lambda>rep. rp_Domain rep = domain) (rs_stored db)) (to_second (now - windowLong)) (to_second (now - windowRecent)) ov"
  using rs.overview_law [OF assms] by simp

theorem sqlite_overview_witness: "\<exists>ov. rs_Overview sample_reports ''d.e'' sample_now = Inr ov \<and> ov_HasData ov"
proof -
  have "total_msgs (rs_stored sample_reports) < 2 ^ 63" by (simp add: sample_reports_total)
  moreover have "rp_Domain (rs_keep sample_report) = ''d.e''" by (simp add: sample_report_def rs_keep_def)
  ultimately show ?thesis using sqlite_overview [OF sample_reports_facts(1) sample_now_ok, of "''d.e''"]
    by (auto simp: is_overview_def Let_def sample_reports_facts(2))
qed

text \<open>
  C18. Ingestion is idempotent: storing an acceptable report in the SQLite store succeeds, reports it as new exactly when no stored report has its
  organisation, identifier and domain, and adds then exactly what the columns keep of it and otherwise nothing; storing it again, at any time, is
  accepted, reported as a duplicate, and changes nothing.
\<close>

theorem ingestion_idempotent:
  assumes "rs_sinv db" "acceptable rep"
  shows "\<exists>db1 b. rs_PutReport recv db rep = Inr (db1, b) \<and> rs_sinv db1 \<and>
     (b \<longleftrightarrow> \<not> (\<exists>q \<in> set (rs_stored db). same_report rep q)) \<and>
     (if b then mset (rs_stored db1) = add_mset (rs_keep rep) (mset (rs_stored db)) else rs_stored db1 = rs_stored db) \<and>
     (\<forall>recv'. \<exists>db2. rs_PutReport recv' db1 rep = Inr (db2, False) \<and> rs_stored db2 = rs_stored db1)"
proof -
  obtain db1 b where put: "rs_PutReport recv db rep = Inr (db1, b)" "rs_sinv db1"
    "b \<longleftrightarrow> \<not> (\<exists>q \<in> set (rs_stored db). same_report rep q)"
    "if b then mset (rs_stored db1) = add_mset (rs_keep rep) (mset (rs_stored db)) else rs_stored db1 = rs_stored db"
    using rs.put_law [OF assms, of recv] by auto
  have there: "\<exists>q \<in> set (rs_stored db1). same_report rep q"
  proof (cases b)
    case True
    then have "rs_keep rep \<in># mset (rs_stored db1)" using put(4) by simp
    then show ?thesis using rs.keep_law [of rep] by auto
  next
    case False
    then show ?thesis using put(3,4) by simp
  qed
  have "\<exists>db2. rs_PutReport recv' db1 rep = Inr (db2, False) \<and> rs_stored db2 = rs_stored db1" for recv'
    using rs.put_law [OF put(2) assms(2), of recv'] there by auto
  with put show ?thesis by blast
qed

theorem ingestion_idempotent_witness:
  "\<exists>db. rs_PutReport 5 empty_reports sample_report = Inr (db, True) \<and> (\<exists>db2. rs_PutReport 9 db sample_report = Inr (db2, False))"
  using ingestion_idempotent [OF empty_reports_ok(1) sample_acceptable, of 5] by (fastforce simp: empty_reports_ok(2))

text \<open>
  The overview accounts for every message once: the messages of the sources add up to the messages of the 30-day window and their
  aligned messages to its aligned ones, for every source aligned and failing messages add up to all of its
  messages, and the 7-day figures never exceed the 30-day figures.
\<close>

lemma overview_accounts:
  assumes "rs_sinv db" "now_ok now" "total_msgs (rs_stored db) < 2 ^ 63"
  shows "\<exists>ov. rs_Overview db domain now = Inr ov \<and>
     sum_list (map ss_Msgs (ov_Sources ov)) = ov_Msgs30 ov \<and> sum_list (map ss_Aligned (ov_Sources ov)) = ov_Aligned30 ov \<and>
     (\<forall>s \<in> set (ov_Sources ov). ss_Aligned s + ss_FailBoth s = ss_Msgs s \<and> 0 \<le> ss_FailBoth s \<and> 0 < ss_Msgs s) \<and>
     0 \<le> ov_Aligned7 ov \<and> ov_Aligned7 ov \<le> ov_Msgs7 ov \<and> ov_Msgs7 ov \<le> ov_Msgs30 ov \<and>
     ov_Aligned7 ov \<le> ov_Aligned30 ov \<and> ov_Aligned30 ov \<le> ov_Msgs30 ov"
proof -
  obtain ov R where ov: "rs_Overview db domain now = Inr ov"
    "is_overview R (to_second (now - windowLong)) (to_second (now - windowRecent)) ov" "counted R"
    by (rule rs.overview_lawful [OF assms, of _ domain]) auto
  show ?thesis
    using ov(1) overview_sources [OF ov(2,3)] overview_windows [OF ov(2,3) rs.windows_ordered]
    by (intro exI [of _ ov]) auto
qed

lemma overview_accounts_witness:
  "\<exists>ov. rs_Overview sample_reports ''d.e'' sample_now = Inr ov \<and> sum_list (map ss_Msgs (ov_Sources ov)) = ov_Msgs30 ov"
proof -
  have "total_msgs (rs_stored sample_reports) < 2 ^ 63" by (simp add: sample_reports_total)
  from overview_accounts [OF sample_reports_facts(1) sample_now_ok this, of "''d.e''"] show ?thesis by auto
qed

end
