(* ===== verification/Report_Agreement.thy ===== *)
theory Report_Agreement
  imports Report_Mem Report_Sqlite
begin

text \<open>
  The two report stores agree: on the same reports and at a whole second they compute the same overview. The in-memory
  store keeps whole reports, the tables keep what \<open>rs_keep\<close> leaves of them, and the order of the reports is immaterial.
\<close>

section \<open>Overviews of the same reports\<close>

definition same_reports :: "report list \<Rightarrow> report list \<Rightarrow> bool" where
  "same_reports R R' \<longleftrightarrow> mset R' = mset (map rs_keep R)"

lemma rs_keep_fields [simp]:
  "rp_Begin (rs_keep rep) = rp_Begin rep" "rp_End (rs_keep rep) = rp_End rep" "rp_Org (rs_keep rep) = rp_Org rep"
  "rp_Domain (rs_keep rep) = rp_Domain rep"
  "rp_Records (rs_keep rep) = map (\<lambda>r. r\<lparr>rc_AuthDKIM := [], rc_AuthSPF := []\<rparr>) (rp_Records rep)"
  by (simp_all add: rs_keep_def)

lemma same_reports_set: "same_reports R R' \<Longrightarrow> set R' = rs_keep ` set R"
  unfolding same_reports_def by (metis set_map set_mset_mset)

lemma same_reports_filter:
  assumes "same_reports R R'" "\<And>rep. P (rs_keep rep) = P rep"
  shows "same_reports (filter P R) (filter P R')"
proof -
  have "mset (filter P R') = filter_mset P (mset (map rs_keep R))" using assms(1) by (simp add: same_reports_def)
  also have "\<dots> = mset (filter P (map rs_keep R))" by (rule mset_filter [symmetric])
  finally show ?thesis using assms(2) by (simp add: same_reports_def filter_map comp_def)
qed

text \<open>What a predicate on rows may look at.\<close>

definition row_predicate :: "(report \<times> rrecord \<Rightarrow> bool) \<Rightarrow> bool" where
  "row_predicate P \<longleftrightarrow> (\<forall>rep r. P (rs_keep rep, r\<lparr>rc_AuthDKIM := [], rc_AuthSPF := []\<rparr>) = P (rep, r))"

lemma row_predicates [simp]:
  "row_predicate passes" "row_predicate (from_ip ip)" "row_predicate (\<lambda>_. True)"
  "row_predicate (\<lambda>x. from_ip ip x \<and> passes x)" "row_predicate (\<lambda>x. from_ip ip x \<and> \<not> passes x)"
  by (simp_all add: row_predicate_def passes_def from_ip_def Aligned_def)

lemma msgs_as_sum: "msgs P R = sum_mset (image_mset (\<lambda>rep. msgs P [rep]) (mset R))"
proof (induction R)
  case (Cons rep R)
  then show ?case using msgs_Cons [of P rep R] by simp
qed simp

lemma msgs_same:
  assumes "row_predicate P" "same_reports R R'"
  shows "msgs P R' = msgs P R"
proof -
  have "msgs P [rs_keep rep] = msgs P [rep]" for rep
    using assms(1) by (auto simp: msgs_def comp_def row_predicate_def intro!: arg_cong [of _ _ sum_list] map_cong)
  then show ?thesis using assms(2) unfolding msgs_as_sum [of P R] msgs_as_sum [of P R'] same_reports_def
    by (simp add: multiset.map_comp comp_def)
qed

lemma ending_from_same: "same_reports R R' \<Longrightarrow> same_reports (ending_from t R) (ending_from t R')"
  unfolding ending_from_def by (rule same_reports_filter) simp_all

lemma ips_of_same:
  assumes "same_reports R R'"
  shows "ips_of R' = ips_of R"
proof -
  have "ips_of Q = (\<Union>rep \<in> set Q. rc_SourceIP ` set (rp_Records rep))" for Q
    unfolding ips_of_def set_rows_of by force
  then show ?thesis using same_reports_set [OF assms] by (simp add: image_image)
qed

lemma reports_from_same:
  assumes "same_reports R R'"
  shows "reports_from ip R' = rs_keep ` reports_from ip R"
proof -
  have "reports_from ip R' = {q \<in> rs_keep ` set R. \<exists>r \<in> set (rp_Records q). rc_SourceIP r = ip}"
    by (simp add: reports_from_def same_reports_set [OF assms])
  also have "\<dots> = rs_keep ` reports_from ip R" unfolding reports_from_def by force
  finally show ?thesis .
qed

lemma stat_of_same: "same_reports R R' \<Longrightarrow> same_reports W W' \<Longrightarrow> stat_of R' W' ip = stat_of R W ip"
  by (simp add: stat_of_def msgs_same reports_from_same image_image)

lemma overview_same:
  assumes "same_reports R R'" "is_overview R long recent ov" "is_overview R' long recent ov'"
  shows "ov_HasData ov' = ov_HasData ov \<and> ov_FirstSeen ov' = ov_FirstSeen ov \<and> ov_LastEnd ov' = ov_LastEnd ov \<and>
     ov_Orgs30 ov' = ov_Orgs30 ov \<and> ov_Msgs30 ov' = ov_Msgs30 ov \<and> ov_Aligned30 ov' = ov_Aligned30 ov \<and>
     ov_Msgs7 ov' = ov_Msgs7 ov \<and> ov_Aligned7 ov' = ov_Aligned7 ov \<and> set (ov_Sources ov') = set (ov_Sources ov)"
proof (cases "R = []")
  case True
  then have "R' = []" using assms(1) by (simp add: same_reports_def)
  with True assms show ?thesis by (simp add: is_overview_def)
next
  case False
  then have "R' \<noteq> []" using assms(1) by (auto simp: same_reports_def)
  note same = assms(1) ending_from_same [OF assms(1), of long] ending_from_same [OF assms(1), of recent]
  have sets: "set R' = rs_keep ` set R" "set (ending_from long R') = rs_keep ` set (ending_from long R)"
    using same same_reports_set by blast+
  from False \<open>R' \<noteq> []\<close> assms(2,3) show ?thesis
    by (simp add: is_overview_def Let_def sets image_image total_msgs_def msgs_same [OF _ same(2)] msgs_same [OF _ same(3)]
        ips_of_same [OF same(2)] stat_of_same [OF same(1,2)])
qed

section \<open>Properties\<close>

text \<open>
  C8. The two implementations of the report store agree: if the tables hold what they keep of the reports in the map, and \<open>now\<close> is a whole
  second, both overviews of a domain succeed and agree on whether there is data, on the first and the last instant, the number of
  organisations, all message counts, and the aggregates of all sources.
\<close>

theorem report_stores_agree:
  assumes "rm_sinv m" "rs_sinv db" "same_reports (gm_vals m) (rs_stored db)"
    and "now_ok now" "now mod 10 ^ 9 = 0" "total_msgs (gm_vals m) < 2 ^ 63"
  shows "\<exists>ov ov'. rm_Overview m domain now = Inr ov \<and> rs_Overview db domain now = Inr ov' \<and>
     ov_HasData ov' = ov_HasData ov \<and> ov_FirstSeen ov' = ov_FirstSeen ov \<and> ov_LastEnd ov' = ov_LastEnd ov \<and>
     ov_Orgs30 ov' = ov_Orgs30 ov \<and> ov_Msgs30 ov' = ov_Msgs30 ov \<and> ov_Aligned30 ov' = ov_Aligned30 ov \<and>
     ov_Msgs7 ov' = ov_Msgs7 ov \<and> ov_Aligned7 ov' = ov_Aligned7 ov \<and> set (ov_Sources ov') = set (ov_Sources ov)"
proof -
  let ?dom = "\<lambda>rep. rp_Domain rep = domain"
  have tot: "total_msgs (rs_stored db) < 2 ^ 63" using assms(6) by (simp add: total_msgs_def msgs_same [OF _ assms(3)])
  have cut: "to_second (now - 30 * Day) = now - 30 * Day" "to_second (now - 7 * Day) = now - 7 * Day"
    using assms(5) by (auto simp: to_second_def Day_def elim!: dvdE simp flip: dvd_eq_mod_eq_0)
  obtain ov where ov: "rm_Overview m domain now = Inr ov"
    "is_overview (filter ?dom (gm_vals m)) (now - windowLong) (now - windowRecent) ov"
    using rm.overview_law [OF assms(1,4,6), of domain] by (auto simp: rmem_iface_def)
  obtain ov' where ov': "rs_Overview db domain now = Inr ov'"
    "is_overview (filter ?dom (rs_stored db)) (now - windowLong) (now - windowRecent) ov'"
    using rs.overview_law [OF assms(2,4) tot, of _ domain] by (auto simp: windowLong_def windowRecent_def cut)
  have "same_reports (filter ?dom (gm_vals m)) (filter ?dom (rs_stored db))"
    by (rule same_reports_filter [OF assms(3)]) simp
  from overview_same [OF this ov(2) ov'(2)] ov(1) ov'(1) show ?thesis by blast
qed

theorem report_stores_agree_witness:
  "\<exists>ov ov'. rm_Overview [(Key sample_report, sample_report)] ''d.e'' sample_now = Inr ov \<and>
     rs_Overview sample_reports ''d.e'' sample_now = Inr ov' \<and> ov_Msgs30 ov' = ov_Msgs30 ov"
proof -
  have "same_reports (gm_vals [(Key sample_report, sample_report)]) (rs_stored sample_reports)"
    by (simp add: same_reports_def sample_reports_facts(2))
  moreover have "sample_now mod 10 ^ 9 = 0" by (simp add: sample_instant_def)
  moreover have "total_msgs (gm_vals [(Key sample_report, sample_report)]) < 2 ^ 63" using sample_total by simp
  ultimately show ?thesis
    using report_stores_agree [OF sample_mem_ok sample_reports_facts(1) _ sample_now_ok, of "''d.e''"] by (elim meta_impE) blast+
qed

end
