(* ===== verification/Dmarc_Collector.thy ===== *)
theory Dmarc_Collector
  imports Float64 Core_Finding Report_Store
begin

text \<open>
  The collector of package \<^verbatim>\<open>dmarcwatch\<close> (\<^verbatim>\<open>dmarcwatch/dmarcwatch.go\<close>): module metadata, target validation, and
  \<^verbatim>\<open>Collect\<close>, which turns the overview of a domain into findings. Percentages are computed in
  \<^verbatim>\<open>float64\<close> exactly as the source does. \<^verbatim>\<open>Collect\<close> prunes the report store first, so it returns the new
  state of the store; the argument \<open>ctx\<close> is what \<^verbatim>\<open>ctx.Err()\<close> yields.
\<close>

section \<open>Constants and helpers\<close>

abbreviation ModuleID :: string where "ModuleID \<equiv> ''dmarcwatch''"

definition minHistory :: duration where "minHistory = 14 * Day"
definition spoofMinMsgs :: int where "spoofMinMsgs = 10"
definition spoofMinFailPct :: rat where "spoofMinFailPct = 90"
definition newSourceMin :: int where "newSourceMin = 5"
definition readyMinMsgs :: int where "readyMinMsgs = 100"
definition readyMinOrgs :: int where "readyMinOrgs = 2"
definition readyAlignedPct :: rat where "readyAlignedPct = 98"
definition dropPoints :: rat where "dropPoints = 10"
definition dropMinMsgs :: int where "dropMinMsgs = 50"
definition staleAfter :: duration where "staleAfter = 7 * Day"
definition pruneAfter :: duration where "pruneAfter = 396 * Day"

lemmas thresholds = spoofMinMsgs_def spoofMinFailPct_def newSourceMin_def readyMinMsgs_def
  readyMinOrgs_def readyAlignedPct_def dropPoints_def dropMinMsgs_def

definition percentage :: "int \<Rightarrow> int \<Rightarrow> rat" where
  "percentage part whole = fl (fl (100 * float64 part) / float64 whole)"

definition pct :: "int \<Rightarrow> int \<Rightarrow> rat" where
  "pct part whole = (if whole = 0 then 0 else percentage part whole)"

definition round1 :: "rat \<Rightarrow> rat" where
  "round1 f = fl (float64 (trunc (fl (fl (f * 10) + 1 / 2))) / 10)"

text \<open>\<^verbatim>\<open>Duration.Hours\<close> of a duration that is not negative.\<close>

definition Hours :: "duration \<Rightarrow> rat" where
  "Hours d = fl (float64 (d div Hour) + fl (float64 (d mod Hour) / (60 * 60 * 10 ^ 9)))"

section \<open>Metadata and targets\<close>

definition Describe :: module_info where
  "Describe = \<lparr>mi_ID = ModuleID, mi_Name = ''DmarcWatch'', mi_Version = ''0.1.4'', mi_TargetKind = ''maildomain'',
     mi_DefaultInterval = 6 * Hour, mi_ResolveAfter = 1\<rparr>"

definition ValidateTarget :: "(string \<Rightarrow> string) \<Rightarrow> string \<Rightarrow> ingest_error + target" where
  "ValidateTarget uni raw =
     (let d = ToLower uni (TrimSpace raw);
          d = TrimPrefix d ''http://'';
          d = TrimPrefix d ''https://'';
          d = TrimSuffix d ''.'';
          d = (case Index d ''@'' of None \<Rightarrow> d | Some i \<Rightarrow> drop (i + 1) d)
      in if d = [] \<or> ContainsAny d (CHR 0x5C # '' /?#'') \<or> \<not> Contains d ''.''
         then Inl (IngestError ''target'' ''enter a bare email domain, e.g. example.com'')
         else Inr \<lparr>t_Raw = raw, t_Canonical = d, t_Meta = []\<rparr>)"

section \<open>Findings\<close>

definition mk :: "(string \<Rightarrow> string) \<Rightarrow> string \<Rightarrow> string \<Rightarrow> string \<Rightarrow> string \<Rightarrow> severity \<Rightarrow> string \<Rightarrow>
    (string \<times> gany) list \<Rightarrow> finding" where
  "mk sha d check disc title sev rem ev =
     new_finding (core_Fingerprint sha ModuleID d check disc) d check title sev rem (Some ev)"

definition no_data_finding :: "(string \<Rightarrow> string) \<Rightarrow> string \<Rightarrow> finding" where
  "no_data_finding sha d =
     mk sha d ''dmarc.no-data'' [] (''No DMARC reports ingested yet for '' @ d) SeverityInfo
       (''Point your DMARC record'' @ [CHR 0x27] @ ''s rua= address at a mailbox you collect, then upload the report files here (.xml, .xml.gz, or .zip) ''
         @ emdash @ '' or upload an export from your current mailbox to backfill.'')
       [(''domain'', GStr d)]"

definition spoofs :: "source_stat \<Rightarrow> bool" where
  "spoofs s \<longleftrightarrow> \<not> (ss_FailBoth s < spoofMinMsgs \<or> ss_Msgs s = 0) \<and>
     \<not> percentage (ss_FailBoth s) (ss_Msgs s) < spoofMinFailPct"

definition spoof_finding :: "(string \<Rightarrow> string) \<Rightarrow> string \<Rightarrow> source_stat \<Rightarrow> finding" where
  "spoof_finding sha d s =
     mk sha d ''dmarc.spoofing'' (ss_IP s)
       (''Suspected spoofing of '' @ d @ '': '' @ ss_IP s @ '' sent '' @ itoa (ss_FailBoth s)
         @ '' message(s) failing both SPF and DKIM'')
       SeverityHigh
       (''Confirm this source is not a legitimate sender or a forwarder you use. If it is unknown, your domain is being spoofed ''
         @ emdash @ '' tightening the DMARC policy toward p=reject makes receivers refuse this mail.'')
       [(''source_ip'', GStr (ss_IP s)), (''messages'', GInt (ss_Msgs s)), (''fail_both'', GInt (ss_FailBoth s)),
        (''fail_pct'', GInt (trunc (percentage (ss_FailBoth s) (ss_Msgs s)))), (''window_days'', GInt 30)]"

definition is_new_source :: "time \<Rightarrow> source_stat \<Rightarrow> bool" where
  "is_new_source cutoff s \<longleftrightarrow> \<not> (ss_FirstEver s < cutoff \<or> ss_Msgs s < newSourceMin \<or> ss_Aligned s = 0)"

definition new_source_finding :: "(string \<Rightarrow> string) \<Rightarrow> string \<Rightarrow> source_stat \<Rightarrow> finding" where
  "new_source_finding sha d s =
     mk sha d ''dmarc.new-source'' (ss_IP s)
       (''New sending source for '' @ d @ '': '' @ ss_IP s @ '' (first seen '' @ format_date (ss_FirstEver s) @ '')'')
       SeverityMedium
       (''Confirm this is an expected sender '' @ emdash @ '' a newly onboarded SaaS, marketing platform, or forwarder. If nobody recognises it, investigate before it affects your domain''
         @ [CHR 0x27] @ ''s reputation.'')
       [(''source_ip'', GStr (ss_IP s)), (''messages'', GInt (ss_Msgs s)), (''aligned'', GInt (ss_Aligned s))]"

definition ready :: "overview \<Rightarrow> bool" where
  "ready ov \<longleftrightarrow> ov_Msgs30 ov \<ge> readyMinMsgs \<and> ov_Orgs30 ov \<ge> readyMinOrgs \<and>
     pct (ov_Aligned30 ov) (ov_Msgs30 ov) \<ge> readyAlignedPct"

definition alignment_text :: "overview \<Rightarrow> string" where
  "alignment_text ov = ''Alignment is '' @ format_f1 (pct (ov_Aligned30 ov) (ov_Msgs30 ov))
     @ ''% over the last 30 days across '' @ itoa (ov_Orgs30 ov) @ '' reporting org(s) ''"

definition policy_findings :: "(string \<Rightarrow> string) \<Rightarrow> string \<Rightarrow> overview \<Rightarrow> finding list" where
  "policy_findings sha d ov =
     (let p30 = pct (ov_Aligned30 ov) (ov_Msgs30 ov);
          ev = [(''aligned_pct_30d'', GFloat (round1 p30)), (''messages_30d'', GInt (ov_Msgs30 ov)),
                (''reporting_orgs_30d'', GInt (ov_Orgs30 ov))]
      in if ov_Policy ov = ''none'' \<or> ov_Policy ov = [] then
           [mk sha d ''dmarc.policy'' [] (d @ '' publishes p=none '' @ emdash @ '' spoofed mail is observed but not stopped'')
              SeverityLow
              (if ready ov
               then alignment_text ov @ emdash @ '' you are ready to move to p=quarantine (and to p=reject once quarantine runs clean).''
               else ''Keep collecting reports; once the aligned rate holds at or above 98% you can move to p=quarantine, then p=reject.'')
              ((''policy'', GStr ''none'') # ev @ [(''ready_to_tighten'', GBool (ready ov))])]
         else if ov_Policy ov = ''quarantine'' \<and> ready ov then
           [mk sha d ''dmarc.policy'' [] (d @ '' is ready to move from p=quarantine to p=reject'') SeverityInfo
              (alignment_text ov @ ''with quarantine in force '' @ emdash @ '' publishing p=reject completes the rollout.'')
              ((''policy'', GStr ''quarantine'') # ev)]
         else [])"

definition drop_findings :: "(string \<Rightarrow> string) \<Rightarrow> string \<Rightarrow> overview \<Rightarrow> finding list" where
  "drop_findings sha d ov =
     (if ov_Msgs7 ov \<ge> dropMinMsgs \<and> ov_Msgs30 ov > ov_Msgs7 ov then
        (let p7 = pct (ov_Aligned7 ov) (ov_Msgs7 ov); p30 = pct (ov_Aligned30 ov) (ov_Msgs30 ov) in
         if fl (p30 - p7) \<ge> dropPoints then
           [mk sha d ''dmarc.alignment-drop'' []
              (''DMARC alignment for '' @ d @ '' dropped to '' @ format_f1 p7 @ ''% this week (30-day average '' @ format_f1 p30 @ ''%)'')
              SeverityMedium
              ''Something changed: a new unaligned sender, a broken DKIM key rotation, or an SPF record edit. Check the sources table for the sources driving the failures.''
              [(''aligned_pct_7d'', GFloat (round1 p7)), (''aligned_pct_30d'', GFloat (round1 p30)),
               (''messages_7d'', GInt (ov_Msgs7 ov))]]
         else [])
      else [])"

definition stale_findings :: "(string \<Rightarrow> string) \<Rightarrow> string \<Rightarrow> time \<Rightarrow> overview \<Rightarrow> finding list" where
  "stale_findings sha d now ov =
     (if time_Sub now (ov_LastEnd ov) \<ge> staleAfter then
        (let days = trunc (fl (Hours (time_Sub now (ov_LastEnd ov)) / 24)) in
         [mk sha d ''dmarc.no-reports'' [] (''No DMARC reports received for '' @ d @ '' in '' @ itoa days @ '' days'')
            SeverityMedium
            (''Check that the domain'' @ [CHR 0x27] @ ''s DMARC record still lists your rua= address, that the collecting mailbox works, and that report files are still being uploaded here.'')
            [(''last_report_end'', GStr (format_RFC3339 (ov_LastEnd ov))), (''days_silent'', GInt days)]])
      else [])"

definition collect_findings :: "(string \<Rightarrow> string) \<Rightarrow> string \<Rightarrow> time \<Rightarrow> overview \<Rightarrow> finding list" where
  "collect_findings sha d now ov =
     (if \<not> ov_HasData ov then [no_data_finding sha d]
      else
        map (spoof_finding sha d) (filter spoofs (ov_Sources ov)) @
        (if time_Sub now (ov_FirstSeen ov) \<ge> minHistory
         then map (new_source_finding sha d)
                (filter (is_new_source (time_Add now (- windowRecent))) (ov_Sources ov))
         else []) @
        policy_findings sha d ov @ drop_findings sha d ov @ stale_findings sha d now ov)"

definition Collect ::
  "(string \<Rightarrow> string) \<Rightarrow> 's report_iface \<Rightarrow> error option \<Rightarrow> time \<Rightarrow> 's \<Rightarrow> target \<Rightarrow> 's \<times> (error + finding list)" where
  "Collect sha I ctx now s t =
     (let s = (case ri_Prune I s (time_Add now (- pruneAfter)) of Inl _ \<Rightarrow> s | Inr s' \<Rightarrow> s') in
      case ri_Overview I s (t_Canonical t) now of
        Inl err \<Rightarrow> (s, Inl err)
      | Inr ov \<Rightarrow>
          (case ctx of
             Some err \<Rightarrow> (s, Inl err)
           | None \<Rightarrow> (s, Inr (collect_findings sha (t_Canonical t) now ov))))"

text \<open>The product leaves the comparison of two scans to the fingerprints of the engine.\<close>

definition Diff :: "finding list \<Rightarrow> finding list \<Rightarrow> change list" where
  "Diff previous current = []"

section \<open>Exact thresholds\<close>

text \<open>
  The comparisons of rounded percentages agree with exact integer arithmetic for message counts below
  \<open>2^46\<close>.
\<close>

definition countable :: "int \<Rightarrow> bool" where
  "countable n \<longleftrightarrow> 0 \<le> n \<and> n < 2 ^ 46"

lemma percentage_less_iff:
  assumes "countable a" "countable b" "b \<noteq> 0" "0 < c" "c < 2 ^ 7"
  shows "percentage a b < of_int c \<longleftrightarrow> 100 * a < c * b"
  unfolding percentage_def by (rule fl_percentage_less_iff) (use assms in \<open>auto simp: countable_def\<close>)

lemma spoofs_iff:
  assumes "countable (ss_FailBoth s)" "countable (ss_Msgs s)"
  shows "spoofs s \<longleftrightarrow> 10 \<le> ss_FailBoth s \<and> ss_Msgs s \<noteq> 0 \<and> 9 * ss_Msgs s \<le> 10 * ss_FailBoth s"
  using percentage_less_iff [OF assms, of 90] by (auto simp: spoofs_def thresholds not_less)

lemma ready_iff:
  assumes "countable (ov_Aligned30 ov)" "countable (ov_Msgs30 ov)"
  shows "ready ov \<longleftrightarrow> 100 \<le> ov_Msgs30 ov \<and> 2 \<le> ov_Orgs30 ov \<and> 98 * ov_Msgs30 ov \<le> 100 * ov_Aligned30 ov"
  using percentage_less_iff [OF assms, of 98] by (auto simp: ready_def pct_def thresholds not_less [symmetric])

section \<open>Shape of the findings\<close>

lemma mk_fields [simp]:
  "f_Fingerprint (mk sha d c x ti sv rm ev) = core_Fingerprint sha ModuleID d c x"
  "f_Target (mk sha d c x ti sv rm ev) = d" "f_Check (mk sha d c x ti sv rm ev) = c"
  "f_Title (mk sha d c x ti sv rm ev) = ti" "f_Severity (mk sha d c x ti sv rm ev) = sv"
  "f_Remediation (mk sha d c x ti sv rm ev) = rm" "f_Evidence (mk sha d c x ti sv rm ev) = Some ev"
  "f_Status (mk sha d c x ti sv rm ev) = []"
  by (simp_all add: mk_def new_finding_def)

lemma fingerprint_nonempty: "sha (m @ ''|'' @ t @ ''|'' @ c @ ''|'' @ x) \<noteq> [] \<Longrightarrow> core_Fingerprint sha m t c x \<noteq> []"
proof -
  assume "sha (m @ ''|'' @ t @ ''|'' @ c @ ''|'' @ x) \<noteq> []"
  then have "0 < length (core_Fingerprint sha m t c x)" unfolding core_Fingerprint_def length_hex by simp
  then show ?thesis by auto
qed

lemma mk_valid:
  assumes "\<forall>x. sha x \<noteq> []" "d \<noteq> []" "c \<noteq> []" "ti \<noteq> []" "rm \<noteq> []" "Valid sv"
  shows "ValidateForIngest (mk sha d c x ti sv rm ev) = None"
  using assms fingerprint_nonempty [of sha] by (simp add: ValidateForIngest_None_iff del: Valid_iff)

lemmas finding_defs = no_data_finding_def spoof_finding_def new_source_finding_def policy_findings_def
  drop_findings_def stale_findings_def

lemma collect_findings_valid:
  assumes "\<forall>x. sha x \<noteq> []" "d \<noteq> []" "f \<in> set (collect_findings sha d now ov)"
  shows "ValidateForIngest f = None" "f_Target f = d" "f_Status f = []"
proof -
  have "list_all (\<lambda>f. ValidateForIngest f = None \<and> f_Target f = d \<and> f_Status f = []) (collect_findings sha d now ov)"
    by (simp add: collect_findings_def finding_defs Let_def alignment_text_def list_all_append list.pred_map comp_def
        list.pred_True mk_valid [OF assms(1,2)])
  with assms(3) show "ValidateForIngest f = None" "f_Target f = d" "f_Status f = []"
    by (simp_all add: list_all_iff)
qed

text \<open>Every finding is named by its check and a discriminator; only per-source checks have one.\<close>

definition tags :: "time \<Rightarrow> overview \<Rightarrow> (string \<times> string) list" where
  "tags now ov =
     (if \<not> ov_HasData ov then [(''dmarc.no-data'', [])]
      else
        map (\<lambda>s. (''dmarc.spoofing'', ss_IP s)) (filter spoofs (ov_Sources ov)) @
        (if time_Sub now (ov_FirstSeen ov) \<ge> minHistory
         then map (\<lambda>s. (''dmarc.new-source'', ss_IP s))
                (filter (is_new_source (time_Add now (- windowRecent))) (ov_Sources ov)) else []) @
        (if ov_Policy ov = ''none'' \<or> ov_Policy ov = [] \<or> ov_Policy ov = ''quarantine'' \<and> ready ov
         then [(''dmarc.policy'', [])] else []) @
        (if drop_findings id [] ov \<noteq> [] then [(''dmarc.alignment-drop'', [])] else []) @
        (if time_Sub now (ov_LastEnd ov) \<ge> staleAfter then [(''dmarc.no-reports'', [])] else []))"

lemma map_tags:
  assumes "\<And>c x ti sv rm ev. g (mk sha d c x ti sv rm ev) = h (c, x)"
  shows "map g (collect_findings sha d now ov) = map h (tags now ov)"
  by (simp add: collect_findings_def tags_def finding_defs Let_def assms comp_def)

lemma tags_distinct:
  assumes "distinct (map ss_IP (ov_Sources ov))"
  shows "distinct (tags now ov)"
proof -
  have "distinct (map (\<lambda>s. (c, ss_IP s)) (filter P (ov_Sources ov)))" for c :: string and P
    using assms by (auto simp: distinct_map distinct_map_filter inj_on_def)
  then show ?thesis by (auto simp: tags_def)
qed

lemma tags_checks: "(c, x) \<in> set (tags now ov) \<Longrightarrow> CHR ''|'' \<notin> set c"
  by (auto simp: tags_def split: if_splits)

text \<open>The text a finding of the collector is digested from.\<close>

definition digested :: "string \<Rightarrow> string \<times> string \<Rightarrow> string" where
  "digested d tg = ModuleID @ ''|'' @ d @ ''|'' @ fst tg @ ''|'' @ snd tg"

lemma fingerprints_distinct:
  assumes "distinct (map ss_IP (ov_Sources ov))"
    and inj: "inj_on (\<lambda>x. take 16 (sha x)) (digested d ` set (tags now ov))"
  shows "distinct (map f_Fingerprint (collect_findings sha d now ov))"
proof -
  let ?h = "\<lambda>(c, x). core_Fingerprint sha ModuleID d c x"
  have "map f_Fingerprint (collect_findings sha d now ov) = map ?h (tags now ov)" by (rule map_tags) simp
  moreover have "inj_on ?h (set (tags now ov))"
  proof (rule inj_onI, clarify)
    fix c x c' x' assume t: "(c, x) \<in> set (tags now ov)" "(c', x') \<in> set (tags now ov)"
      and eq: "core_Fingerprint sha ModuleID d c x = core_Fingerprint sha ModuleID d c' x'"
    have "take 16 (sha (digested d (c, x))) = take 16 (sha (digested d (c', x')))"
      using eq unfolding core_Fingerprint_def digested_def fst_conv snd_conv by (rule hex_inj)
    then have "digested d (c, x) = digested d (c', x')"
      by (rule inj_onD [OF inj]) (use t in auto)
    then have "ModuleID @ ''|'' @ d @ ''|'' @ c @ ''|'' @ x = ModuleID @ ''|'' @ d @ ''|'' @ c' @ ''|'' @ x'"
      by (simp only: digested_def fst_conv snd_conv)
    with fingerprint_text_inj [OF tags_checks [OF t(1)] tags_checks [OF t(2)]]
    show "c = c' \<and> x = x'" by blast
  qed
  ultimately show ?thesis using tags_distinct [OF assms(1)] by (simp add: distinct_map)
qed

section \<open>Collecting from a lawful report store\<close>

lemma stat_in_window:
  assumes "distinct (map ss_IP ss)" "set ss = stat_of R W ` ips_of W"
  shows "(\<exists>s \<in> set ss. ss_IP s = ip \<and> Q s) \<longleftrightarrow> ip \<in> ips_of W \<and> Q (stat_of R W ip)"
  using assms(2) by auto

text \<open>A finding of a check about one source, by the address in its evidence.\<close>

definition about :: "string \<Rightarrow> string \<Rightarrow> finding \<Rightarrow> bool" where
  "about check ip f \<longleftrightarrow> f_Check f = check \<and>
     (case f_Evidence f of None \<Rightarrow> False | Some ev \<Rightarrow> map_of ev ''source_ip'' = Some (GStr ip))"

lemma about_mk: "about c ip (mk sha d c' x ti sv rm ev) \<longleftrightarrow> c' = c \<and> map_of ev ''source_ip'' = Some (GStr ip)"
  by (simp add: about_def)

lemma about_source_findings [simp]:
  "about c ip (spoof_finding sha d s) \<longleftrightarrow> c = ''dmarc.spoofing'' \<and> ss_IP s = ip"
  "about c ip (new_source_finding sha d s) \<longleftrightarrow> c = ''dmarc.new-source'' \<and> ss_IP s = ip"
  "\<not> about c ip (no_data_finding sha d)"
  by (auto simp: spoof_finding_def new_source_finding_def no_data_finding_def about_mk)

lemma about_domain_findings [simp]:
  "\<not> list_ex (about c ip) (policy_findings sha d ov)" "\<not> list_ex (about c ip) (drop_findings sha d ov)"
  "\<not> list_ex (about c ip) (stale_findings sha d now ov)"
  by (simp_all add: policy_findings_def drop_findings_def stale_findings_def Let_def about_mk)

lemma list_ex_map: "list_ex P (map g xs) \<longleftrightarrow> (\<exists>x \<in> set xs. P (g x))"
  by (simp add: list_ex_iff)

lemma about_spoofing:
  "list_ex (about ''dmarc.spoofing'' ip) (collect_findings sha d now ov) \<longleftrightarrow>
     ov_HasData ov \<and> (\<exists>s \<in> set (ov_Sources ov). ss_IP s = ip \<and> spoofs s)"
  by (auto simp: collect_findings_def list_ex_map)

lemma about_new_source:
  "list_ex (about ''dmarc.new-source'' ip) (collect_findings sha d now ov) \<longleftrightarrow>
     ov_HasData ov \<and> minHistory \<le> time_Sub now (ov_FirstSeen ov) \<and>
     (\<exists>s \<in> set (ov_Sources ov). ss_IP s = ip \<and> is_new_source (time_Add now (- windowRecent)) s)"
  by (auto simp: collect_findings_def list_ex_map)

context report_store
begin

text \<open>The reports of a domain that a scan at \<open>now\<close> counts.\<close>

definition window :: "'s \<Rightarrow> string \<Rightarrow> time \<Rightarrow> report list" where
  "window s d now = ending_from (cut (now - windowLong)) (filter (\<lambda>rep. rp_Domain rep = d) (reports s))"

lemma collect_run:
  assumes s: "sinv s" and now: "now_ok now" and tot: "total_msgs (reports s) < 2 ^ 63"
  obtains s' ov R where "Collect sha I None now s t = (s', Inr (collect_findings sha (t_Canonical t) now ov))"
    "sinv s'" "reports s' = filter (\<lambda>rep. cut (now - pruneAfter) \<le> rp_End rep) (reports s)"
    "R = filter (\<lambda>rep. rp_Domain rep = t_Canonical t) (reports s')"
    "is_overview R (cut (now - windowLong)) (cut (now - windowRecent)) ov" "counted R" "total_msgs R < 2 ^ 63"
    "ending_from (cut (now - windowLong)) R = window s (t_Canonical t) now"
proof -
  have r: "0 \<le> now - pruneAfter" "now - pruneAfter < 2 ^ 62 * 10 ^ 9"
    using now by (auto simp: now_ok_def unixToInternal_def pruneAfter_def Day_def)
  then have "0 \<le> (now - pruneAfter) div 10 ^ 9" "(now - pruneAfter) div 10 ^ 9 < 2 ^ 62"
    by (simp_all add: div_less_iff_less_mult pos_imp_zdiv_nonneg_iff)
  then have "time_ok (now + - pruneAfter)" by (simp add: time_ok_def int64_ok_def)
  from time_Add_id [OF this] have add: "time_Add now (- pruneAfter) = now - pruneAfter" by simp
  obtain s' where s': "ri_Prune I s (now - pruneAfter) = Inr s'" "sinv s'"
      "reports s' = filter (\<lambda>rep. cut (now - pruneAfter) \<le> rp_End rep) (reports s)"
    using prune_law [OF s r] by blast
  have c: "counted (reports s)" using acceptable_law [OF s] by (blast intro: acceptable_counted)
  have tot': "total_msgs (reports s') < 2 ^ 63"
    using tot msgs_filter_le [OF c] unfolding s'(3) total_msgs_def by (rule order.strict_trans1 [rotated])
  obtain ov R where ov: "ri_Overview I s' (t_Canonical t) now = Inr ov"
      "is_overview R (cut (now - windowLong)) (cut (now - windowRecent)) ov" "counted R"
      "R = filter (\<lambda>rep. rp_Domain rep = t_Canonical t) (reports s')" "total_msgs R \<le> total_msgs (reports s')"
    by (rule overview_lawful [OF s'(2) now tot'])
  have "cut (now - pruneAfter) \<le> cut (now - windowLong)"
    by (rule cut_law) (simp add: pruneAfter_def windowLong_def Day_def)
  then have "ending_from (cut (now - windowLong)) R = window s (t_Canonical t) now"
    unfolding window_def ov(4) s'(3) ending_from_def filter_filter by (auto intro: filter_cong)
  moreover have "Collect sha I None now s t = (s', Inr (collect_findings sha (t_Canonical t) now ov))"
    by (simp add: Collect_def add s'(1) ov(1))
  ultimately show thesis using that s' ov tot' by simp
qed

text \<open>
  A source is reported as spoofing exactly when, over the reports of the domain in the window, at least
  ten of its messages and at least nine in ten failed both mechanisms.
\<close>

lemma spoofing_exact:
  assumes s: "sinv s" and now: "now_ok now" and tot: "total_msgs (reports s) < 2 ^ 46"
    and W: "W = window s (t_Canonical t) now"
  shows "\<exists>s' fs. Collect sha I None now s t = (s', Inr fs) \<and> sinv s' \<and>
     (list_ex (about ''dmarc.spoofing'' ip) fs \<longleftrightarrow>
       10 \<le> msgs (\<lambda>x. from_ip ip x \<and> \<not> passes x) W \<and>
       9 * msgs (from_ip ip) W \<le> 10 * msgs (\<lambda>x. from_ip ip x \<and> \<not> passes x) W)"
proof -
  let ?d = "t_Canonical t" and ?fail = "msgs (\<lambda>x. from_ip ip x \<and> \<not> passes x) W"
  have tot': "total_msgs (reports s) < 2 ^ 63" using tot by simp
  obtain s' ov R where r: "Collect sha I None now s t = (s', Inr (collect_findings sha ?d now ov))"
    "sinv s'" "reports s' = filter (\<lambda>rep. cut (now - pruneAfter) \<le> rp_End rep) (reports s)"
    "R = filter (\<lambda>rep. rp_Domain rep = ?d) (reports s')"
    "is_overview R (cut (now - windowLong)) (cut (now - windowRecent)) ov" "counted R" "total_msgs R < 2 ^ 63"
    "ending_from (cut (now - windowLong)) R = W"
    by (rule collect_run [OF s now tot', of sha t]) (simp add: W)
  have cs: "counted (reports s)" using acceptable_law [OF s] by (blast intro: acceptable_counted)
  have cW: "counted W" using cs by (simp add: W window_def ending_from_def)
  have small: "countable (msgs P W)" for P
  proof -
    have "msgs P W \<le> msgs P (reports s)"
      unfolding W window_def ending_from_def filter_filter by (rule msgs_filter_le [OF cs])
    also have "\<dots> \<le> total_msgs (reports s)" unfolding total_msgs_def by (rule msgs_mono [OF cs]) simp
    finally show ?thesis using tot msgs_nonneg [OF cW, of P] by (simp add: countable_def)
  qed
  have "list_ex (about ''dmarc.spoofing'' ip) (collect_findings sha ?d now ov) \<longleftrightarrow>
      ip \<in> ips_of W \<and> spoofs (stat_of R W ip)"
  proof (cases "R = []")
    case True
    then have "ov = zero_overview" "W = []" using r(5,8) by (auto simp: is_overview_def ending_from_def)
    then show ?thesis by (simp add: about_spoofing zero_overview_def ips_of_def)
  next
    case False
    then have "ov_HasData ov" "distinct (map ss_IP (ov_Sources ov))" "set (ov_Sources ov) = stat_of R W ` ips_of W"
      using r(5,8) by (simp_all add: is_overview_def Let_def)
    then show ?thesis using stat_in_window [of "ov_Sources ov" R W ip spoofs] by (simp add: about_spoofing)
  qed
  also have "\<dots> \<longleftrightarrow> 10 \<le> ?fail \<and> 9 * msgs (from_ip ip) W \<le> 10 * ?fail"
  proof (cases "ip \<in> ips_of W")
    case True
    with msgs_source_pos [OF cW True] small show ?thesis by (simp add: spoofs_iff)
  next
    case False
    then have "?fail = sum_list (map (\<lambda>_. 0) (rows_of W))"
      unfolding msgs_def by (intro arg_cong [of _ _ sum_list] map_cong refl) (auto simp: ips_of_def from_ip_def)
    with False show ?thesis by simp
  qed
  finally show ?thesis using r(1,2) by (intro exI conjI) assumption+
qed

end

section \<open>Properties\<close>



text \<open>
  C24. The advice to tighten the policy follows exact arithmetic: for message counts below \<open>2^46\<close> the floating-point test holds exactly when
  there were at least 100 messages from at least two organisations and at least 98 in 100 were aligned.
\<close>

theorem ready_exactly_when:
  assumes "0 \<le> ov_Aligned30 ov" "ov_Aligned30 ov < 2 ^ 46" "0 \<le> ov_Msgs30 ov" "ov_Msgs30 ov < 2 ^ 46"
  shows "ready ov \<longleftrightarrow> 100 \<le> ov_Msgs30 ov \<and> 2 \<le> ov_Orgs30 ov \<and> 98 * ov_Msgs30 ov \<le> 100 * ov_Aligned30 ov"
  using assms by (intro ready_iff) (simp_all add: countable_def)

theorem ready_exactly_when_witness:
  "ready (zero_overview\<lparr>ov_Aligned30 := 980, ov_Msgs30 := 1000, ov_Orgs30 := 2\<rparr>)"
  using ready_exactly_when [of "zero_overview\<lparr>ov_Aligned30 := 980, ov_Msgs30 := 1000, ov_Orgs30 := 2\<rparr>"] by simp

end
