(* ===== verification/License.thy ===== *)
theory License
  imports Prelude
begin

text \<open>
  Package \<^verbatim>\<open>license\<close> (\<^verbatim>\<open>license/license.go\<close>): tiers and limits, signing and verification of keys, and
  the activation a product runs under. Base64 in the URL alphabet without padding is modelled as
  package \<^verbatim>\<open>encoding/base64\<close> does it, with its tolerance for line ends and for unused trailing bits.
  Ed25519 and the JSON form of a license are the fields of \<open>license_env\<close>.
\<close>

section \<open>Base64 (raw URL encoding)\<close>

definition b64url :: string where
  "b64url = ''ABCDEFGHIJKLMNOPQRSTUVWXYZabcdefghijklmnopqrstuvwxyz0123456789-_''"

definition enc_char :: "nat \<Rightarrow> char" where "enc_char n = b64url ! n"

definition dec_char :: "char \<Rightarrow> nat option" where "dec_char c = map_of (zip b64url [0..<64]) c"

fun b64_encode :: "string \<Rightarrow> string" where
  "b64_encode [] = []"
| "b64_encode [a] = (let x = of_char a in [enc_char (x div 4), enc_char (x mod 4 * 16)])"
| "b64_encode [a, b] =
     (let x = of_char a; y = of_char b in
      [enc_char (x div 4), enc_char (x mod 4 * 16 + y div 16), enc_char (y mod 16 * 4)])"
| "b64_encode (a # b # c # s) =
     (let x = of_char a; y = of_char b; z = of_char c in
      [enc_char (x div 4), enc_char (x mod 4 * 16 + y div 16), enc_char (y mod 16 * 4 + z div 64), enc_char (z mod 64)]
        @ b64_encode s)"

fun b64_quanta :: "nat list \<Rightarrow> string option" where
  "b64_quanta [] = Some []"
| "b64_quanta [p] = None"
| "b64_quanta [p, q] = Some [char_of (p * 4 + q div 16)]"
| "b64_quanta [p, q, r] = Some [char_of (p * 4 + q div 16), char_of (q mod 16 * 16 + r div 4)]"
| "b64_quanta (p # q # r # t # ns) =
     map_option (\<lambda>s. char_of (p * 4 + q div 16) # char_of (q mod 16 * 16 + r div 4) # char_of (r mod 4 * 64 + t) # s)
       (b64_quanta ns)"

definition b64_decode :: "string \<Rightarrow> string option" where
  "b64_decode s =
     (let cs = filter (\<lambda>c. c \<noteq> CHR 0x0A \<and> c \<noteq> CHR 0x0D) s; ds = map dec_char cs in
      if None \<in> set ds then None else b64_quanta (map the ds))"

section \<open>Tiers and limits\<close>

type_synonym tier = string

abbreviation TierFree :: tier where "TierFree \<equiv> ''free''"
abbreviation TierPro :: tier where "TierPro \<equiv> ''pro''"
abbreviation TierTeam :: tier where "TierTeam \<equiv> ''team''"

record limits =
  li_MaxTargets :: int
  li_RetentionDays :: int
  li_Channels :: "string list"
  li_MultiUser :: bool
  li_CustomInterval :: bool
  li_ScanNow :: bool

definition free_limits :: limits where
  "free_limits = \<lparr>li_MaxTargets = 10, li_RetentionDays = 7, li_Channels = [''webhook''],
     li_MultiUser = False, li_CustomInterval = False, li_ScanNow = False\<rparr>"

definition TierLimits :: "(tier, limits) gomap" where
  "TierLimits =
     [(TierFree, free_limits),
      (TierPro, \<lparr>li_MaxTargets = 100, li_RetentionDays = 365, li_Channels = [''webhook'', ''email'', ''slack'', ''telegram''],
         li_MultiUser = False, li_CustomInterval = True, li_ScanNow = True\<rparr>),
      (TierTeam, \<lparr>li_MaxTargets = 0, li_RetentionDays = 0,
         li_Channels = [''webhook'', ''email'', ''slack'', ''telegram'', ''pagerduty'', ''teams''],
         li_MultiUser = True, li_CustomInterval = True, li_ScanNow = True\<rparr>)]"

definition limitsFor :: "tier \<Rightarrow> limits" where
  "limitsFor t = (case gm_get TierLimits t of Some l \<Rightarrow> l | None \<Rightarrow> free_limits)"

section \<open>Keys\<close>

record license =
  lc_Product :: string
  lc_Tier :: tier
  lc_Email :: string
  lc_IssuedAt :: time
  lc_ExpiresAt :: time
  lc_KeyID :: string

record license_env =
  le_sign :: "string \<Rightarrow> string \<Rightarrow> string"
  le_verify :: "string \<Rightarrow> string \<Rightarrow> string \<Rightarrow> bool"
  le_marshal :: "license \<Rightarrow> error + string"
  le_unmarshal :: "string \<Rightarrow> license option"

definition key_prefix :: string where "key_prefix = ''SNTL1-''"

definition PublicKeySize :: nat where "PublicKeySize = 32"

definition Sign :: "license_env \<Rightarrow> string \<Rightarrow> license \<Rightarrow> error + string" where
  "Sign env priv lic =
     (if lc_Product lic = [] \<or> lc_Tier lic = [] then Inl ''license needs product and tier''
      else case le_marshal env lic of
             Inl err \<Rightarrow> Inl err
           | Inr payload \<Rightarrow> Inr (key_prefix @ b64_encode payload @ ''.'' @ b64_encode (le_sign env priv payload)))"

datatype license_error = ErrMalformed | ErrBadSignature | ErrWrongProduct string | ErrExpired license

text \<open>\<^verbatim>\<open>strings.SplitN(s, ".", 2)\<close>: the pieces before and after the first dot, if there is one.\<close>

definition split_dot :: "string \<Rightarrow> (string \<times> string) option" where
  "split_dot s = (case Index s ''.'' of None \<Rightarrow> None | Some i \<Rightarrow> Some (take i s, drop (i + 1) s))"

definition Verify :: "license_env \<Rightarrow> string \<Rightarrow> string \<Rightarrow> string \<Rightarrow> time \<Rightarrow> license_error + license" where
  "Verify env pub product key now =
     (if \<not> HasPrefix key key_prefix then Inl ErrMalformed
      else case split_dot (TrimPrefix (TrimSpace key) key_prefix) of
        None \<Rightarrow> Inl ErrMalformed
      | Some (p0, p1) \<Rightarrow>
         (case b64_decode p0 of
            None \<Rightarrow> Inl ErrMalformed
          | Some payload \<Rightarrow>
             (case b64_decode p1 of
                None \<Rightarrow> Inl ErrMalformed
              | Some sig \<Rightarrow>
                  if length pub \<noteq> PublicKeySize then Inl ErrBadSignature
                  else if \<not> le_verify env pub payload sig then Inl ErrBadSignature
                  else case le_unmarshal env payload of
                         None \<Rightarrow> Inl ErrMalformed
                       | Some lic \<Rightarrow>
                           if lc_Product lic \<noteq> product then Inl (ErrWrongProduct (lc_Product lic))
                           else if now > lc_ExpiresAt lic then Inl (ErrExpired lic)
                           else Inr lic)))"

section \<open>Activation\<close>

record activation =
  ac_Tier :: tier
  ac_Limits :: limits
  ac_License :: "license option"
  ac_Notice :: string

definition month_name :: "int \<Rightarrow> string" where
  "month_name m = [''Jan'', ''Feb'', ''Mar'', ''Apr'', ''May'', ''Jun'', ''Jul'', ''Aug'', ''Sep'', ''Oct'', ''Nov'', ''Dec''] ! nat (m - 1)"

text \<open>\<^verbatim>\<open>Format("2 Jan 2006")\<close> in UTC.\<close>

definition format_long_date :: "time \<Rightarrow> string" where
  "format_long_date t = (case civil t of (y, m, d) \<Rightarrow> itoa d @ '' '' @ month_name m @ '' '' @ pad 4 y)"

definition dash :: string where "dash = [CHR 0xE2, CHR 0x80, CHR 0x94]"

definition free_activation :: "string \<Rightarrow> activation" where
  "free_activation notice = \<lparr>ac_Tier = TierFree, ac_Limits = free_limits, ac_License = None, ac_Notice = notice\<rparr>"

definition Activate :: "license_env \<Rightarrow> string \<Rightarrow> string \<Rightarrow> string \<Rightarrow> time \<Rightarrow> activation" where
  "Activate env pub product key now =
     (if length pub \<noteq> PublicKeySize then
        free_activation (if TrimSpace key \<noteq> []
          then ''This is the free edition, which cannot activate license keys. Download the licensed build to use your key ''
            @ dash @ '' your key is fine.''
          else [])
      else if TrimSpace key = [] then free_activation []
      else case Verify env pub product key now of
             Inr lic \<Rightarrow> \<lparr>ac_Tier = lc_Tier lic, ac_Limits = limitsFor (lc_Tier lic), ac_License = Some lic, ac_Notice = []\<rparr>
           | Inl (ErrExpired lic) \<Rightarrow>
               free_activation (''License expired on '' @ format_long_date (lc_ExpiresAt lic) @ '' '' @ dash
                 @ '' running on free limits. Renew to restore your tier.'')
           | Inl _ \<Rightarrow>
               free_activation (''License key is not valid for this product '' @ dash @ '' running on free limits.''))"

definition CanAddTarget :: "activation \<Rightarrow> int \<Rightarrow> bool" where
  "CanAddTarget a current \<longleftrightarrow> li_MaxTargets (ac_Limits a) = 0 \<or> current < li_MaxTargets (ac_Limits a)"

definition AllowsChannel :: "activation \<Rightarrow> string \<Rightarrow> bool" where
  "AllowsChannel a name \<longleftrightarrow> list_ex (\<lambda>c. c = name) (li_Channels (ac_Limits a))"

text \<open>\<^verbatim>\<open>now.AddDate(0, 0, -n)\<close> in UTC moves the instant back by \<open>n\<close> days.\<close>

definition RetentionCutoff :: "activation \<Rightarrow> time \<Rightarrow> time" where
  "RetentionCutoff a now =
     (if li_RetentionDays (ac_Limits a) = 0 then 0
      else time_Add now (- (li_RetentionDays (ac_Limits a) * Day)))"

section \<open>Round trip of base64\<close>

lemma b64url_facts: "length b64url = 64" "distinct b64url" "CHR ''.'' \<notin> set b64url"
  "CHR 0x0A \<notin> set b64url" "CHR 0x0D \<notin> set b64url"
  by (simp_all add: b64url_def)

lemma dec_enc [simp]: "n < 64 \<Longrightarrow> dec_char (enc_char n) = Some n"
  unfolding dec_char_def enc_char_def using b64url_facts(1,2) by (subst map_of_zip_nth) simp_all

lemma enc_in_alphabet: "n < 64 \<Longrightarrow> enc_char n \<in> set b64url"
  by (simp add: enc_char_def b64url_facts(1))

lemma dec_char_alphabet: "dec_char c = Some n \<Longrightarrow> c \<in> set b64url"
  unfolding dec_char_def by (auto dest!: map_of_SomeD set_zip_leftD)

text \<open>The six-bit groups an encoding consists of.\<close>

fun sextets :: "string \<Rightarrow> nat list" where
  "sextets [] = []"
| "sextets [a] = (let x = of_char a in [x div 4, x mod 4 * 16])"
| "sextets [a, b] = (let x = of_char a; y = of_char b in [x div 4, x mod 4 * 16 + y div 16, y mod 16 * 4])"
| "sextets (a # b # c # s) =
     (let x = of_char a; y = of_char b; z = of_char c in
      [x div 4, x mod 4 * 16 + y div 16, y mod 16 * 4 + z div 64, z mod 64] @ sextets s)"

lemma encode_sextets: "b64_encode s = map enc_char (sextets s)"
  by (induction s rule: sextets.induct) (simp_all add: Let_def)

lemma div_byte: "of_char c div 4 < (64 :: nat)" "of_char c div 16 < (16 :: nat)" "of_char c div 64 < (4 :: nat)"
  using of_char_less [of c] by (simp_all add: less_mult_imp_div_less)

lemma join_sextet: "x < 4 \<Longrightarrow> y < 16 \<Longrightarrow> x * 16 + y < (64 :: nat)" "x < 16 \<Longrightarrow> y < 4 \<Longrightarrow> x * 4 + y < (64 :: nat)"
  by simp_all

lemma sextets_bound: "\<forall>n \<in> set (sextets s). n < 64"
proof (induction s rule: sextets.induct)
  case (2 a)
  show ?case using join_sextet(1) [of "of_char a mod 4" 0] by (simp add: Let_def div_byte)
next
  case (3 a b)
  show ?case using join_sextet(2) [of "of_char b mod 16" 0] by (simp add: Let_def div_byte join_sextet(1))
next
  case (4 a b c s)
  then show ?case by (simp add: Let_def div_byte join_sextet)
qed simp

lemma byte_parts:
  "of_char a div 4 * 4 + (of_char a mod 4 * 16 + of_char b div 16) div 16 = (of_char a :: nat)"
  "(of_char a mod 4 * 16 + of_char b div 16) mod 16 * 16 + (of_char b mod 16 * 4 + of_char c div 64) div 4 = (of_char b :: nat)"
  "(of_char b mod 16 * 4 + of_char c div 64) mod 4 * 64 + of_char c mod 64 = (of_char c :: nat)"
  using div_byte [of b] div_byte [of c] by simp_all

lemma byte_parts_end:
  "of_char a div 4 * 4 + of_char a mod 4 * 16 div 16 = (of_char a :: nat)"
  "(of_char a mod 4 * 16 + of_char b div 16) mod 16 * 16 + of_char b mod 16 * 4 div 4 = (of_char b :: nat)"
  using div_byte [of b] by simp_all

lemma quanta_sextets: "b64_quanta (sextets s) = Some s"
  by (induction s rule: sextets.induct) (simp_all only: sextets.simps b64_quanta.simps Let_def append.simps byte_parts
      byte_parts_end option.map char_of_char)

lemma decode_digits:
  assumes "\<forall>n \<in> set ns. n < 64"
  shows "b64_decode (map enc_char ns) = b64_quanta ns"
proof -
  have al: "set (map enc_char ns) \<subseteq> set b64url" using assms enc_in_alphabet by auto
  have "filter (\<lambda>c. c \<noteq> CHR 0x0A \<and> c \<noteq> CHR 0x0D) (map enc_char ns) = map enc_char ns"
    using al b64url_facts(4,5) by (intro filter_True) auto
  moreover have "map dec_char (map enc_char ns) = map Some ns" using assms by simp
  moreover have "None \<notin> set (map Some ns)" by auto
  ultimately show ?thesis unfolding b64_decode_def Let_def
    by (simp only: if_False map_map comp_def option.sel list.map_ident)
qed

lemma b64_round_trip: "b64_decode (b64_encode s) = Some s"
  by (simp add: encode_sextets decode_digits sextets_bound quanta_sextets)

section \<open>Round trip of keys\<close>

lemma encode_alphabet: "set (b64_encode s) \<subseteq> set b64url"
  unfolding encode_sextets using sextets_bound enc_in_alphabet by auto

lemma alphabet_solid: "c \<in> set b64url \<Longrightarrow> solid c"
proof -
  have "list_all solid b64url" by (simp add: b64url_def solid_def ascii_def)
  then show "c \<in> set b64url \<Longrightarrow> solid c" by (simp add: list_all_iff)
qed

lemma Index_dot: "CHR ''.'' \<notin> set p \<Longrightarrow> Index (p @ ''.'' @ q) ''.'' = Some (length p)"
  by (induction p) (auto simp: HasPrefix_def)

lemma split_dot_key: "split_dot (b64_encode p @ ''.'' @ q) = Some (b64_encode p, q)"
proof -
  have "CHR ''.'' \<notin> set (b64_encode p)" using encode_alphabet b64url_facts(3) by blast
  from Index_dot [OF this] show ?thesis by (simp add: split_dot_def)
qed

lemma TrimSpace_wire:
  assumes "set q \<subseteq> set b64url"
  shows "TrimSpace (key_prefix @ p @ ''.'' @ q) = key_prefix @ p @ ''.'' @ q"
proof (rule TrimSpace_solid)
  have "last q \<in> set b64url" if "q \<noteq> []" using assms last_in_set [OF that] by blast
  then show "solid (last (key_prefix @ p @ ''.'' @ q))"
    using alphabet_solid by (cases "q = []") (simp_all add: solid_def ascii_def)
qed (simp_all add: key_prefix_def solid_def ascii_def)

lemma TrimSpace_key: "TrimSpace (key_prefix @ b64_encode p @ ''.'' @ b64_encode q) = key_prefix @ b64_encode p @ ''.'' @ b64_encode q"
  by (rule TrimSpace_wire [OF encode_alphabet])

text \<open>What verification says of a well-formed key.\<close>

lemma Verify_wire:
  assumes "length pub = PublicKeySize" "set q \<subseteq> set b64url" "b64_decode q = Some sig"
  shows "Verify env pub product (key_prefix @ b64_encode payload @ ''.'' @ q) now =
     (if \<not> le_verify env pub payload sig then Inl ErrBadSignature
      else case le_unmarshal env payload of
             None \<Rightarrow> Inl ErrMalformed
           | Some lic \<Rightarrow>
               if lc_Product lic \<noteq> product then Inl (ErrWrongProduct (lc_Product lic))
               else if now > lc_ExpiresAt lic then Inl (ErrExpired lic) else Inr lic)"
proof -
  have pre: "HasPrefix (key_prefix @ x) key_prefix" "TrimPrefix (key_prefix @ x) key_prefix = x" for x
    by (simp_all add: HasPrefix_def TrimPrefix_def)
  show ?thesis unfolding Verify_def TrimSpace_wire [OF assms(2)] pre split_dot_key
    using assms pre(1) by (simp add: b64_round_trip)
qed

lemmas Verify_key = Verify_wire [OF _ encode_alphabet b64_round_trip]

lemma Verify_Inr:
  assumes "Verify env pub product key now = Inr lic"
  obtains p0 p1 payload sig where "split_dot (TrimPrefix (TrimSpace key) key_prefix) = Some (p0, p1)"
    "b64_decode p0 = Some payload" "b64_decode p1 = Some sig"
    "le_verify env pub payload sig" "le_unmarshal env payload = Some lic"
    "lc_Product lic = product" "now \<le> lc_ExpiresAt lic" "length pub = PublicKeySize"
  using assms by (auto simp: Verify_def split: if_splits option.splits prod.splits)

lemma Verify_Expired:
  assumes "Verify env pub product key now = Inl (ErrExpired lic)"
  shows "lc_ExpiresAt lic < now"
  using assms by (auto simp: Verify_def split: if_splits option.splits prod.splits)

text \<open>Unused trailing bits are ignored when a text is decoded.\<close>

lemma quanta_last:
  "length ns mod 4 = 0 \<Longrightarrow> q div 16 = q' div 16 \<Longrightarrow> b64_quanta (ns @ [p, q]) = b64_quanta (ns @ [p, q'])"
proof (induction ns rule: b64_quanta.induct)
  case (5 p1 q1 r1 t1 ns)
  then show ?case by simp
qed simp_all

lemma sextets_tail:
  "length s mod 3 = 1 \<Longrightarrow> \<exists>ns p q. sextets s = ns @ [p, q] \<and> length ns mod 4 = 0 \<and> q mod 16 = 0 \<and> q < 64"
proof (induction s rule: sextets.induct)
  case (2 a)
  show ?case by (intro exI [of _ "[]"]) (simp add: Let_def)
next
  case (4 a b c s)
  then have "length s mod 3 = 1" by simp
  from 4(1) [OF refl refl refl this] obtain ns p q where
    "sextets s = ns @ [p, q]" "length ns mod 4 = 0" "q mod 16 = 0" "q < 64" by (elim exE conjE)
  then show ?case by (intro exI [of _ "take 4 (sextets (a # b # c # s)) @ ns"] exI [of _ p] exI [of _ q]) (simp add: Let_def)
qed simp_all

text \<open>The last character of an encoding of \<open>3k + 1\<close> bytes can be replaced without changing what it decodes to.\<close>

lemma last_character_loose:
  assumes "length s mod 3 = 1"
  obtains w where "w \<noteq> b64_encode s" "length w = length (b64_encode s)" "butlast w = butlast (b64_encode s)"
    "set w \<subseteq> set b64url" "b64_decode w = Some s"
proof -
  obtain ns p q where t: "sextets s = ns @ [p, q]" "length ns mod 4 = 0" "q mod 16 = 0" "q < 64"
    using sextets_tail [OF assms] by (elim exE conjE)
  have "q \<noteq> 63" using t(3) by auto
  then have q': "Suc q < 64" "Suc q div 16 = q div 16" using t(3,4) by (simp_all add: div_Suc mod_Suc)
  have small: "\<forall>n \<in> set (ns @ [p, Suc q]). n < 64" using sextets_bound [of s] q'(1) by (simp add: t(1))
  have "enc_char (Suc q) \<noteq> enc_char q" using dec_enc [OF q'(1)] dec_enc [OF t(4)] by auto
  moreover have "b64_decode (map enc_char (ns @ [p, Suc q])) = Some s"
    using decode_digits [OF small] quanta_last [OF t(2) q'(2), of p] quanta_sextets [of s] by (simp add: t(1))
  moreover have "set (map enc_char (ns @ [p, Suc q])) \<subseteq> set b64url" using small enc_in_alphabet by auto
  ultimately show thesis
    by (intro that [of "map enc_char (ns @ [p, Suc q])"]) (simp_all add: encode_sextets t(1) butlast_append)
qed

section \<open>Properties\<close>

text \<open>
  C9. A key issued for a product activates as issued: on that product and until it expires it gives the tier of the
  license with the limits of the tier, after that the free tier with a notice of the expiry, and on any other product the
  free tier. Assumed are that signatures verify under the public key and that the license survives its JSON encoding.
\<close>

theorem issued_key_activates:
  assumes "Sign env priv lic = Inr key" "length pub = PublicKeySize"
    and "\<forall>m. le_verify env pub m (le_sign env priv m)"
    and "\<forall>b. le_marshal env lic = Inr b \<longrightarrow> le_unmarshal env b = Some lic"
  shows "Activate env pub product key now =
     (if lc_Product lic \<noteq> product
      then free_activation (''License key is not valid for this product '' @ dash @ '' running on free limits.'')
      else if lc_ExpiresAt lic < now
      then free_activation (''License expired on '' @ format_long_date (lc_ExpiresAt lic) @ '' '' @ dash
             @ '' running on free limits. Renew to restore your tier.'')
      else \<lparr>ac_Tier = lc_Tier lic, ac_Limits = limitsFor (lc_Tier lic), ac_License = Some lic, ac_Notice = []\<rparr>)"
proof -
  obtain b where b: "le_marshal env lic = Inr b"
    "key = key_prefix @ b64_encode b @ ''.'' @ b64_encode (le_sign env priv b)"
    using assms(1) by (auto simp: Sign_def split: if_splits sum.splits)
  have "TrimSpace key \<noteq> []" unfolding b(2) TrimSpace_key by (simp add: key_prefix_def)
  moreover have "Verify env pub product key now =
      (if lc_Product lic \<noteq> product then Inl (ErrWrongProduct (lc_Product lic))
       else if now > lc_ExpiresAt lic then Inl (ErrExpired lic) else Inr lic)"
    unfolding b(2) Verify_key [OF assms(2)] using assms(3,4) b(1) by simp
  ultimately show ?thesis using assms(2) by (simp add: Activate_def)
qed

definition sample_license :: license where
  "sample_license = \<lparr>lc_Product = ''dmarcwatch'', lc_Tier = TierPro, lc_Email = ''a@b.c'', lc_IssuedAt = 1, lc_ExpiresAt = 9, lc_KeyID = ''k''\<rparr>"

definition sample_env :: license_env where
  "sample_env = \<lparr>le_sign = \<lambda>k m. take 1 m, le_verify = \<lambda>k m s. s = take 1 m, le_marshal = \<lambda>_. Inr ''p'',
     le_unmarshal = \<lambda>b. if b = ''p'' then Some sample_license else None\<rparr>"

abbreviation sample_pub :: string where "sample_pub \<equiv> replicate 32 CHR ''k''"

theorem issued_key_activates_witness:
  "ac_Limits (Activate sample_env sample_pub ''dmarcwatch'' (projr (Sign sample_env ''s'' sample_license)) 5) = limitsFor TierPro"
proof -
  have "Sign sample_env ''s'' sample_license = Inr (projr (Sign sample_env ''s'' sample_license))"
    by (simp add: Sign_def sample_env_def sample_license_def)
  from issued_key_activates [OF this, of sample_pub "''dmarcwatch''" 5] show ?thesis
    by (simp add: sample_env_def PublicKeySize_def) (simp add: sample_license_def)
qed

text \<open>
  C10. Nothing but a verified key lifts the free limits: if an activation differs from the free one in its limits or names a
  license, then the two parts of the key decode to a payload and a signature that verify under the public key, the
  payload is that license, it is for this product and not expired, and the limits are those of its tier.
\<close>

theorem paid_only_if_verified:
  assumes "ac_Limits (Activate env pub product key now) \<noteq> free_limits \<or> ac_License (Activate env pub product key now) \<noteq> None"
  shows "\<exists>p0 p1 payload sig lic. split_dot (TrimPrefix (TrimSpace key) key_prefix) = Some (p0, p1) \<and>
     b64_decode p0 = Some payload \<and> b64_decode p1 = Some sig \<and> le_verify env pub payload sig \<and>
     le_unmarshal env payload = Some lic \<and> lc_Product lic = product \<and> now \<le> lc_ExpiresAt lic \<and>
     ac_License (Activate env pub product key now) = Some lic \<and>
     ac_Limits (Activate env pub product key now) = limitsFor (lc_Tier lic)"
proof -
  obtain lic where v: "Verify env pub product key now = Inr lic" and pub: "length pub = PublicKeySize" "TrimSpace key \<noteq> []"
    using assms by (auto simp: Activate_def free_activation_def split: if_splits sum.splits license_error.splits)
  have act: "ac_License (Activate env pub product key now) = Some lic"
    "ac_Limits (Activate env pub product key now) = limitsFor (lc_Tier lic)"
    using v pub by (simp_all add: Activate_def)
  from v show ?thesis by (rule Verify_Inr) (use act in blast)
qed

theorem paid_only_if_verified_witness:
  "\<exists>payload sig. le_verify sample_env sample_pub payload sig \<and> le_unmarshal sample_env payload = Some sample_license"
proof -
  let ?key = "projr (Sign sample_env ''s'' sample_license)"
  have "Verify sample_env sample_pub ''dmarcwatch'' ?key 5 = Inr sample_license" by code_simp
  moreover have "TrimSpace ?key \<noteq> []" by code_simp
  ultimately have "ac_License (Activate sample_env sample_pub ''dmarcwatch'' ?key 5) = Some sample_license"
    by (simp add: Activate_def PublicKeySize_def)
  with paid_only_if_verified [of sample_env sample_pub "''dmarcwatch''" ?key 5] show ?thesis by auto
qed

text \<open>
  C32. A key is not unique as a text: when the length of the signature leaves remainder 1 modulo 3, as the 64 bytes of
  Ed25519 do, there is another text of the same length, different only in its last character, on which verification
  gives the same answer for every product and every time.
\<close>

theorem key_text_malleable:
  assumes "length pub = PublicKeySize" "length sig mod 3 = 1" "key = key_prefix @ b64_encode payload @ ''.'' @ b64_encode sig"
  shows "\<exists>key'. key' \<noteq> key \<and> length key' = length key \<and> butlast key' = butlast key \<and>
     (\<forall>env product now. Verify env pub product key' now = Verify env pub product key now)"
proof -
  obtain w where w: "w \<noteq> b64_encode sig" "length w = length (b64_encode sig)" "butlast w = butlast (b64_encode sig)"
    "set w \<subseteq> set b64url" "b64_decode w = Some sig"
    by (rule last_character_loose [OF assms(2)])
  let ?key' = "key_prefix @ b64_encode payload @ ''.'' @ w"
  have "sig \<noteq> []" using assms(2) by auto
  then have ne: "b64_encode sig \<noteq> []" using b64_round_trip [of sig] b64_round_trip [of "[]"] by auto
  then have "w \<noteq> []" using w(2) by auto
  then have "butlast ?key' = butlast key" using ne w(3) by (simp add: assms(3) butlast_append)
  moreover have "Verify env pub product ?key' now = Verify env pub product key now" for env product now
    unfolding assms(3) Verify_wire [OF assms(1) w(4,5)] Verify_key [OF assms(1)] ..
  ultimately show ?thesis using w(1,2) by (intro exI [of _ ?key']) (simp add: assms(3))
qed

theorem key_text_malleable_witness:
  "\<exists>key'. key' \<noteq> key_prefix @ b64_encode ''p'' @ ''.'' @ b64_encode (replicate 64 CHR ''s'') \<and>
     Verify sample_env sample_pub ''dmarcwatch'' key' 5 =
     Verify sample_env sample_pub ''dmarcwatch'' (key_prefix @ b64_encode ''p'' @ ''.'' @ b64_encode (replicate 64 CHR ''s'')) 5"
proof -
  have "length sample_pub = PublicKeySize" "length (replicate 64 CHR ''s'') mod 3 = 1" by (simp_all add: PublicKeySize_def)
  from key_text_malleable [OF this refl, of "''p''"] show ?thesis by metis
qed

end
