(* ===== verification/Notify.thy ===== *)
theory Notify
  imports Store_Engine
begin

text \<open>
  Package \<^verbatim>\<open>notify\<close>: the dispatcher that batches finding transitions into digests (\<^verbatim>\<open>notify/notify.go\<close>) and
  its binding to scan results (\<^verbatim>\<open>notify/bridge.go\<close>).

  The mutex makes \<^verbatim>\<open>Enqueue\<close>, \<^verbatim>\<open>Flush\<close> and \<^verbatim>\<open>Close\<close> atomic, so a run of the dispatcher is a sequence of these
  operations; the window timer is one more caller of \<^verbatim>\<open>Flush\<close>. A send that \<^verbatim>\<open>flushLocked\<close> starts is an entry
  of the outbox, a pair of the position of the channel and the digest.
\<close>

section \<open>Data\<close>

abbreviation KindOpened :: string where "KindOpened \<equiv> ''opened''"
abbreviation KindResolved :: string where "KindResolved \<equiv> ''resolved''"

record event =
  ev_Kind :: string
  ev_Module :: string
  ev_Finding :: finding

record digest =
  dg_Module :: string
  dg_Opened :: "finding list"
  dg_Resolved :: "finding list"
  dg_At :: time

definition Empty :: "digest \<Rightarrow> bool" where
  "Empty d \<longleftrightarrow> dg_Opened d = [] \<and> dg_Resolved d = []"

record notify_config =
  nc_FlushInterval :: duration
  nc_MaxBatch :: int
  nc_MinSeverity :: severity
  nc_Retries :: int
  nc_RetryDelay :: duration

definition nc_withDefaults :: "notify_config \<Rightarrow> notify_config" where
  "nc_withDefaults c =
     (let c = (if nc_FlushInterval c \<le> 0 then c\<lparr>nc_FlushInterval := 30 * Second\<rparr> else c);
          c = (if nc_MaxBatch c \<le> 0 then c\<lparr>nc_MaxBatch := 100\<rparr> else c);
          c = (if nc_Retries c \<le> 0 then c\<lparr>nc_Retries := 3\<rparr> else c);
          c = (if nc_RetryDelay c \<le> 0 then c\<lparr>nc_RetryDelay := 5 * Second\<rparr> else c)
      in c)"

record dispatcher =
  dp_cfg :: notify_config
  dp_channels :: nat
  dp_pending :: "(string, event list) gomap"
  dp_seen :: "string list"
  dp_timer :: bool
  dp_closed :: bool
  dp_outbox :: "(nat \<times> digest) list"

definition NewDispatcher :: "notify_config \<Rightarrow> nat \<Rightarrow> dispatcher" where
  "NewDispatcher cfg channels =
     \<lparr>dp_cfg = nc_withDefaults cfg, dp_channels = channels, dp_pending = [], dp_seen = [], dp_timer = False,
      dp_closed = False, dp_outbox = []\<rparr>"

section \<open>Severity order\<close>

definition severityRank :: "severity \<Rightarrow> int" where
  "severityRank s =
     (if s = SeverityCritical then 4
      else if s = SeverityHigh then 3
      else if s = SeverityMedium then 2
      else if s = SeverityLow then 1
      else 0)"

text \<open>The two nested loops of the insertion sort, on indices.\<close>

fun sift :: "finding list \<Rightarrow> nat \<Rightarrow> finding list" where
  "sift fs 0 = fs"
| "sift fs (Suc j) =
     (if severityRank (f_Severity (fs ! Suc j)) > severityRank (f_Severity (fs ! j))
      then sift (fs[Suc j := fs ! j, j := fs ! Suc j]) j else fs)"

definition sortBySeverity :: "finding list \<Rightarrow> finding list" where
  "sortBySeverity fs = foldl sift fs [1..<length fs]"

definition passesSeverity :: "notify_config \<Rightarrow> severity \<Rightarrow> bool" where
  "passesSeverity cfg s \<longleftrightarrow> nc_MinSeverity cfg = [] \<or> severityRank s \<ge> severityRank (nc_MinSeverity cfg)"

section \<open>Operations\<close>

definition build_digest :: "time \<Rightarrow> string \<times> event list \<Rightarrow> digest" where
  "build_digest now p =
     \<lparr>dg_Module = fst p,
      dg_Opened = sortBySeverity (map ev_Finding (filter (\<lambda>e. ev_Kind e = KindOpened) (snd p))),
      dg_Resolved = map ev_Finding (filter (\<lambda>e. ev_Kind e = KindResolved) (snd p)),
      dg_At = now\<rparr>"

definition flushLocked :: "time \<Rightarrow> dispatcher \<Rightarrow> dispatcher" where
  "flushLocked now d =
     (let d = d\<lparr>dp_timer := False\<rparr> in
      if dp_pending d = [] then d
      else
        (let digests = map (build_digest now) (dp_pending d) in
         d\<lparr>dp_pending := [], dp_seen := [],
           dp_outbox := dp_outbox d @
             concat (map (\<lambda>dg. map (\<lambda>ch. (ch, dg)) [0..<dp_channels d]) (filter (\<lambda>dg. \<not> Empty dg) digests))\<rparr>))"

definition event_key :: "event \<Rightarrow> string" where
  "event_key e = ev_Kind e @ ''|'' @ ev_Module e @ ''|'' @ f_Fingerprint (ev_Finding e)"

definition pending_total :: "(string, event list) gomap \<Rightarrow> int" where
  "pending_total p = sum_list (map (\<lambda>evs. int (length evs)) (gm_vals p))"

definition Enqueue :: "time \<Rightarrow> dispatcher \<Rightarrow> event \<Rightarrow> dispatcher" where
  "Enqueue now d e =
     (if ev_Kind e = KindOpened \<and> \<not> passesSeverity (dp_cfg d) (f_Severity (ev_Finding e)) then d
      else if dp_closed d then d
      else if event_key e \<in> set (dp_seen d) then d
      else
        (let evs = (case gm_get (dp_pending d) (ev_Module e) of None \<Rightarrow> [] | Some evs \<Rightarrow> evs);
             d = d\<lparr>dp_seen := event_key e # dp_seen d,
                   dp_pending := gm_set (ev_Module e) (evs @ [e]) (dp_pending d)\<rparr>
         in if pending_total (dp_pending d) \<ge> nc_MaxBatch (dp_cfg d) then flushLocked now d
            else d\<lparr>dp_timer := True\<rparr>))"

definition Flush :: "time \<Rightarrow> dispatcher \<Rightarrow> dispatcher" where
  "Flush now d = flushLocked now d"

definition Close :: "time \<Rightarrow> dispatcher \<Rightarrow> dispatcher" where
  "Close now d = (flushLocked now d)\<lparr>dp_closed := True\<rparr>"

text \<open>
  Delivery of one digest on one channel: \<open>send k\<close> is the outcome of the \<open>k\<close>-th attempt. The result is the number of
  attempts made and the error handed to \<^verbatim>\<open>OnSendError\<close>, if it is called; \<^verbatim>\<open>withDefaults\<close> makes sure of one attempt.
\<close>

fun send_loop :: "(nat \<Rightarrow> error option) \<Rightarrow> nat \<Rightarrow> nat \<Rightarrow> error option \<Rightarrow> nat \<times> error option" where
  "send_loop send attempt 0 err = (attempt, err)"
| "send_loop send attempt (Suc left) err =
     (case send attempt of
        None \<Rightarrow> (Suc attempt, None)
      | Some err \<Rightarrow> send_loop send (Suc attempt) left (Some err))"

definition sendWithRetry :: "notify_config \<Rightarrow> (nat \<Rightarrow> error option) \<Rightarrow> nat \<times> error option" where
  "sendWithRetry cfg send = send_loop send 0 (nat (nc_Retries cfg)) None"

text \<open>The callback that \<^verbatim>\<open>BindScheduler\<close> installs, after the previous one.\<close>

definition bound_OnResult :: "time \<Rightarrow> string \<Rightarrow> reconcile_result \<Rightarrow> dispatcher \<Rightarrow> dispatcher" where
  "bound_OnResult now mdl res d =
     (let d = foldl (\<lambda>d f. Enqueue now d \<lparr>ev_Kind = KindOpened, ev_Module = mdl, ev_Finding = f\<rparr>) d (rr_NewlyOpen res)
      in foldl (\<lambda>d f. Enqueue now d \<lparr>ev_Kind = KindResolved, ev_Module = mdl, ev_Finding = f\<rparr>) d (rr_Resolved res))"

section \<open>The insertion sort is a stable sort\<close>

abbreviation frank :: "finding \<Rightarrow> int" where "frank f \<equiv> severityRank (f_Severity f)"

text \<open>Insertion of an element at the end of a list, moving left past lower ranks; on the reversed list.\<close>

fun insert_rev :: "finding \<Rightarrow> finding list \<Rightarrow> finding list" where
  "insert_rev x [] = [x]"
| "insert_rev x (y # ys) = (if frank x > frank y then y # insert_rev x ys else x # y # ys)"

lemma sift_insert: "sift (pre @ x # rest) (length pre) = rev (insert_rev x (rev pre)) @ rest"
proof (induction pre arbitrary: rest rule: rev_induct)
  case (snoc y p)
  have at: "((p @ [y]) @ x # rest) ! Suc (length p) = x" "((p @ [y]) @ x # rest) ! length p = y"
    by (simp_all add: nth_append)
  have swap: "((p @ [y]) @ x # rest)[Suc (length p) := y, length p := x] = p @ x # y # rest"
    by (simp add: list_update_append)
  show ?case using snoc [of "y # rest"] at swap by (simp del: append_assoc)
qed simp

lemma sort_as_fold:
  "n \<le> length fs \<Longrightarrow> 0 < n \<Longrightarrow>
     foldl sift fs [1..<n] = foldl (\<lambda>pre x. rev (insert_rev x (rev pre))) [] (take n fs) @ drop n fs"
proof (induction n)
  case (Suc n)
  show ?case
  proof (cases "n = 0")
    case True
    with Suc.prems show ?thesis by (cases fs) simp_all
  next
    case False
    let ?g = "\<lambda>pre x. rev (insert_rev x (rev pre))"
    have n: "n < length fs" using Suc.prems by simp
    have len: "length (foldl ?g ys xs) = length ys + length xs" for xs ys
    proof (induction xs arbitrary: ys)
      case (Cons x xs)
      have "length (insert_rev x zs) = Suc (length zs)" for zs by (induction zs) simp_all
      with Cons show ?case by simp
    qed simp
    have "foldl sift fs [1..<Suc n] = sift (foldl ?g [] (take n fs) @ drop n fs) n"
      using Suc.IH Suc.prems False by simp
    also have "\<dots> = sift (foldl ?g [] (take n fs) @ fs ! n # drop (Suc n) fs) (length (foldl ?g [] (take n fs)))"
      using n by (simp add: len Cons_nth_drop_Suc)
    also have "\<dots> = ?g (foldl ?g [] (take n fs)) (fs ! n) @ drop (Suc n) fs" by (rule sift_insert)
    also have "\<dots> = foldl ?g [] (take (Suc n) fs) @ drop (Suc n) fs" using n by (simp add: take_Suc_conv_app_nth)
    finally show ?thesis .
  qed
qed simp

lemma insert_rev_mset: "mset (insert_rev x ys) = add_mset x (mset ys)"
  by (induction ys) auto

lemma insert_rev_sorted: "sorted (map frank ys) \<Longrightarrow> sorted (map frank (insert_rev x ys))"
proof (induction ys)
  case (Cons y ys)
  have "set (insert_rev x ys) = insert x (set ys)" using insert_rev_mset [of x ys] by (metis set_mset_add_mset_insert set_mset_mset)
  with Cons show ?case by auto
qed simp

lemma insert_rev_filter:
  "sorted (map frank ys) \<Longrightarrow> filter (\<lambda>y. frank y = k) (insert_rev x ys) =
     (if frank x = k then x # filter (\<lambda>y. frank y = k) ys else filter (\<lambda>y. frank y = k) ys)"
proof (induction ys)
  case (Cons y ys)
  then show ?case by auto
qed simp

lemma sort_fold_invariant:
  fixes xs :: "finding list"
  defines "r \<equiv> foldl (\<lambda>pre x. rev (insert_rev x (rev pre))) [] xs"
  shows "sorted (map frank (rev r)) \<and> mset r = mset xs \<and> (\<forall>k. filter (\<lambda>y. frank y = k) r = filter (\<lambda>y. frank y = k) xs)"
  unfolding r_def
proof (induction xs rule: rev_induct)
  case (snoc x xs)
  let ?r = "foldl (\<lambda>pre x. rev (insert_rev x (rev pre))) [] xs"
  have s: "sorted (map frank (rev ?r))" using snoc by simp
  have "filter (\<lambda>y. frank y = k) (rev (insert_rev x (rev ?r))) = filter (\<lambda>y. frank y = k) (xs @ [x])" for k
    using snoc by (simp add: rev_filter [symmetric] insert_rev_filter [OF s])
  with snoc show ?case by (simp add: insert_rev_sorted [OF s] insert_rev_mset)
qed simp

lemma sortBySeverity_is_stable_sort: "sortBySeverity fs = sort_key (\<lambda>f. - frank f) fs"
proof -
  let ?r = "foldl (\<lambda>pre x. rev (insert_rev x (rev pre))) [] fs"
  have "sortBySeverity fs = ?r"
    using sort_as_fold [of "length fs" fs] by (cases fs) (simp_all add: sortBySeverity_def)
  moreover have "sort_key (\<lambda>f. - frank f) fs = ?r"
  proof (rule properties_for_sort_key)
    show "mset ?r = mset fs" using sort_fold_invariant [of fs] by simp
    show "filter (\<lambda>x. - frank k = - frank x) ?r = filter (\<lambda>x. - frank k = - frank x) fs" for k
      using sort_fold_invariant [of fs] by (simp add: eq_commute [of "frank k"])
    have "sorted (map frank (rev ?r))" using sort_fold_invariant [of fs] by simp
    then show "sorted (map (\<lambda>f. - frank f) ?r)"
      by (simp add: sorted_wrt_map rev_map [symmetric] sorted_wrt_rev)
  qed
  ultimately show ?thesis by simp
qed

section \<open>Runs of the dispatcher\<close>

datatype op = OpEnqueue event | OpFlush | OpClose

definition op_step :: "time \<Rightarrow> op \<Rightarrow> dispatcher \<Rightarrow> dispatcher" where
  "op_step now x d = (case x of OpEnqueue e \<Rightarrow> Enqueue now d e | OpFlush \<Rightarrow> Flush now d | OpClose \<Rightarrow> Close now d)"

text \<open>Whether \<^verbatim>\<open>Enqueue\<close> takes an event, and the events a run takes.\<close>

definition accepts :: "dispatcher \<Rightarrow> event \<Rightarrow> bool" where
  "accepts d e \<longleftrightarrow> \<not> (ev_Kind e = KindOpened \<and> \<not> passesSeverity (dp_cfg d) (f_Severity (ev_Finding e))) \<and>
     \<not> dp_closed d \<and> event_key e \<notin> set (dp_seen d)"

definition taken :: "op \<Rightarrow> dispatcher \<Rightarrow> event list" where
  "taken x d = (case x of OpEnqueue e \<Rightarrow> if accepts d e then [e] else [] | _ \<Rightarrow> [])"

text \<open>An event of module \<open>m\<close> and of one of the two kinds.\<close>

definition belongs :: "string \<Rightarrow> event \<Rightarrow> bool" where
  "belongs m e \<longleftrightarrow> ev_Module e = m \<and> (ev_Kind e = KindOpened \<or> ev_Kind e = KindResolved)"

text \<open>
  \<open>runs d d' evs\<close>: some sequence of operations leads from \<open>d\<close> to \<open>d'\<close>, and \<open>evs\<close> are the events taken on
  the way. Every event has one of the two kinds.
\<close>

inductive runs :: "dispatcher \<Rightarrow> dispatcher \<Rightarrow> event list \<Rightarrow> bool" where
  start: "runs d d []"
| step: "runs d d' evs \<Longrightarrow> (\<And>e. x = OpEnqueue e \<Longrightarrow> belongs (ev_Module e) e) \<Longrightarrow>
    runs d (op_step now x d') (evs @ taken x d')"

definition pending_events :: "dispatcher \<Rightarrow> event list" where
  "pending_events d = concat (gm_vals (dp_pending d))"

definition digest_events :: "digest \<Rightarrow> event multiset" where
  "digest_events dg =
     mset (map (\<lambda>f. \<lparr>ev_Kind = KindOpened, ev_Module = dg_Module dg, ev_Finding = f\<rparr>) (dg_Opened dg)) +
     mset (map (\<lambda>f. \<lparr>ev_Kind = KindResolved, ev_Module = dg_Module dg, ev_Finding = f\<rparr>) (dg_Resolved dg))"

text \<open>The events in the digests that were handed to channel \<open>ch\<close>.\<close>

definition delivered :: "nat \<Rightarrow> dispatcher \<Rightarrow> event multiset" where
  "delivered ch d = sum_list (map (digest_events \<circ> snd) (filter (\<lambda>s. fst s = ch) (dp_outbox d)))"

definition dispatcher_ok :: "dispatcher \<Rightarrow> bool" where
  "dispatcher_ok d \<longleftrightarrow>
     1 \<le> nc_MaxBatch (dp_cfg d) \<and> gm_ok (dp_pending d) \<and>
     pending_total (dp_pending d) < nc_MaxBatch (dp_cfg d) \<and>
     (dp_timer d \<longleftrightarrow> dp_pending d \<noteq> []) \<and>
     (\<forall>(m, evs) \<in> set (dp_pending d). evs \<noteq> [] \<and>
        (\<forall>e \<in> set evs. belongs m e)) \<and>
     set (dp_seen d) = event_key ` set (pending_events d) \<and> distinct (map event_key (pending_events d)) \<and>
     (dp_closed d \<longrightarrow> dp_pending d = [])"

subsection \<open>Flushing\<close>

lemma flush_fields [simp]:
  "dp_pending (flushLocked now d) = []" "dp_timer (flushLocked now d) = False"
  "dp_cfg (flushLocked now d) = dp_cfg d" "dp_channels (flushLocked now d) = dp_channels d"
  "dp_closed (flushLocked now d) = dp_closed d"
  by (simp_all add: flushLocked_def Let_def)

lemma sortBySeverity_mset [simp]: "mset (sortBySeverity fs) = mset fs"
  by (simp add: sortBySeverity_is_stable_sort)

lemma build_digest_events:
  assumes "\<forall>e \<in> set evs. belongs m e"
  shows "digest_events (build_digest now (m, evs)) = mset evs"
proof -
  have parts: "mset evs = mset (filter (\<lambda>e. ev_Kind e = KindOpened) evs) + mset (filter (\<lambda>e. ev_Kind e = KindResolved) evs)"
    using assms by (induction evs) (auto simp: belongs_def)
  have rebuilt: "map (\<lambda>f. \<lparr>ev_Kind = k, ev_Module = m, ev_Finding = f\<rparr>) (map ev_Finding (filter (\<lambda>e. ev_Kind e = k) evs)) =
      filter (\<lambda>e. ev_Kind e = k) evs" for k
    using assms by (induction evs) (auto simp: belongs_def)
  have "digest_events (build_digest now (m, evs)) =
      mset (map (\<lambda>f. \<lparr>ev_Kind = KindOpened, ev_Module = m, ev_Finding = f\<rparr>)
              (map ev_Finding (filter (\<lambda>e. ev_Kind e = KindOpened) evs))) +
      mset (map (\<lambda>f. \<lparr>ev_Kind = KindResolved, ev_Module = m, ev_Finding = f\<rparr>)
              (map ev_Finding (filter (\<lambda>e. ev_Kind e = KindResolved) evs)))"
    by (simp add: digest_events_def build_digest_def multiset.map_comp)
  then show ?thesis by (simp only: rebuilt parts [symmetric])
qed

lemma build_digest_nonempty:
  assumes "\<forall>e \<in> set evs. belongs m e" "evs \<noteq> []"
  shows "\<not> Empty (build_digest now (m, evs))"
proof
  assume "Empty (build_digest now (m, evs))"
  then have "digest_events (build_digest now (m, evs)) = {#}" by (simp add: Empty_def digest_events_def)
  with build_digest_events [OF assms(1)] assms(2) show False by simp
qed

lemma sum_list_digests:
  assumes "\<forall>(m, evs) \<in> set p. evs \<noteq> [] \<and> (\<forall>e \<in> set evs. belongs m e)"
    and "ch < n"
  shows "sum_list (map (digest_events \<circ> snd) (filter (\<lambda>s. fst s = ch)
      (concat (map (\<lambda>dg. map (\<lambda>ch. (ch, dg)) [0..<n]) (filter (\<lambda>dg. \<not> Empty dg) (map (build_digest now) p)))))) =
    mset (concat (gm_vals p))"
  using assms(1)
proof (induction p)
  case (Cons x p)
  obtain m evs where x: "x = (m, evs)" by (cases x)
  have one: "filter (\<lambda>s. fst s = ch) (map (\<lambda>ch. (ch, dg)) [0..<n]) = [(ch, dg)]" for dg :: digest
  proof -
    have "filter (\<lambda>c. c = ch) [0..<n] = [ch]" using assms(2)
    proof (induction n)
      case (Suc n)
      have "filter (\<lambda>c. c = n) [0..<n] = []" by (simp add: filter_empty_conv)
      with Suc show ?case by (cases "ch = n") auto
    qed simp
    then show ?thesis by (simp add: filter_map comp_def)
  qed
  from Cons x show ?case by (simp add: build_digest_nonempty build_digest_events one)
qed simp

text \<open>A flush moves what is pending into the outbox of every channel.\<close>

lemma flush_delivers:
  assumes "dispatcher_ok d" "ch < dp_channels d"
  shows "delivered ch (flushLocked now d) = delivered ch d + mset (pending_events d)"
proof (cases "dp_pending d = []")
  case True
  then show ?thesis by (simp add: flushLocked_def delivered_def pending_events_def)
next
  case False
  with sum_list_digests [OF _ assms(2), of "dp_pending d" now] assms(1) show ?thesis
    by (simp add: flushLocked_def Let_def delivered_def pending_events_def dispatcher_ok_def)
qed

lemma flush_ok: "dispatcher_ok d \<Longrightarrow> dispatcher_ok (flushLocked now d)"
  by (auto simp: dispatcher_ok_def flushLocked_def Let_def pending_events_def pending_total_def)

subsection \<open>Taking an event\<close>

definition add_event :: "dispatcher \<Rightarrow> event \<Rightarrow> dispatcher" where
  "add_event d e = d\<lparr>dp_seen := event_key e # dp_seen d,
     dp_pending := gm_set (ev_Module e)
       ((case gm_get (dp_pending d) (ev_Module e) of None \<Rightarrow> [] | Some evs \<Rightarrow> evs) @ [e]) (dp_pending d)\<rparr>"

lemma Enqueue_cases:
  "Enqueue now d e =
     (if \<not> accepts d e then d
      else if pending_total (dp_pending (add_event d e)) \<ge> nc_MaxBatch (dp_cfg d) then flushLocked now (add_event d e)
      else (add_event d e)\<lparr>dp_timer := True\<rparr>)"
  by (simp add: Enqueue_def accepts_def add_event_def Let_def)

lemma gm_set_append:
  "gm_ok p \<Longrightarrow>
     mset (concat (gm_vals (gm_set k ((case gm_get p k of None \<Rightarrow> [] | Some vs \<Rightarrow> vs) @ [v]) p))) =
     add_mset v (mset (concat (gm_vals p)))"
proof (induction p)
  case (Cons x p)
  show ?case
  proof (cases "fst x = k")
    case True
    with Cons show ?thesis by (cases x) auto
  next
    case False
    with Cons show ?thesis by (cases x) auto
  qed
qed simp

lemma add_event_pending: "gm_ok (dp_pending d) \<Longrightarrow> mset (pending_events (add_event d e)) = add_mset e (mset (pending_events d))"
  by (simp add: pending_events_def add_event_def gm_set_append)

lemma pending_total_length: "pending_total p = int (length (concat (gm_vals p)))"
  by (induction p) (auto simp: pending_total_def)

text \<open>All of the invariant but the two facts on the timer and the batch size holds after an event was added.\<close>

lemma add_event_ok:
  assumes ok: "dispatcher_ok d" and acc: "accepts d e" and kind: "belongs (ev_Module e) e"
  shows "gm_ok (dp_pending (add_event d e))" "dp_pending (add_event d e) \<noteq> []"
    and "\<forall>(m, evs) \<in> set (dp_pending (add_event d e)). evs \<noteq> [] \<and>
        (\<forall>e \<in> set evs. belongs m e)"
    and "set (dp_seen (add_event d e)) = event_key ` set (pending_events (add_event d e))"
    and "distinct (map event_key (pending_events (add_event d e)))"
proof -
  have gm: "gm_ok (dp_pending d)" using ok by (simp add: dispatcher_ok_def)
  have all: "\<forall>(m, evs) \<in> set (dp_pending d). evs \<noteq> [] \<and> (\<forall>e \<in> set evs. belongs m e)"
    using ok unfolding dispatcher_ok_def by (elim conjE)
  show gm': "gm_ok (dp_pending (add_event d e))" using gm by (simp add: add_event_def)
  have ms: "mset (pending_events (add_event d e)) = add_mset e (mset (pending_events d))"
    by (rule add_event_pending [OF gm])
  show "dp_pending (add_event d e) \<noteq> []" using ms by (auto simp: pending_events_def)
  have set_eq: "set (pending_events (add_event d e)) = insert e (set (pending_events d))"
    using ms by (metis set_mset_add_mset_insert set_mset_mset)
  then show "set (dp_seen (add_event d e)) = event_key ` set (pending_events (add_event d e))"
    using ok by (simp add: add_event_def dispatcher_ok_def)
  have "mset (map event_key (pending_events (add_event d e))) = mset (event_key e # map event_key (pending_events d))"
    using ms by simp
  moreover have "distinct (event_key e # map event_key (pending_events d))"
    using ok acc by (auto simp: dispatcher_ok_def accepts_def)
  ultimately show "distinct (map event_key (pending_events (add_event d e)))" by (metis mset_eq_imp_distinct_iff)
  show "\<forall>(m, evs) \<in> set (dp_pending (add_event d e)). evs \<noteq> [] \<and>
      (\<forall>e \<in> set evs. belongs m e)"
  proof (clarify, goal_cases)
    case (1 m evs)
    have old: "ws \<noteq> [] \<and> (\<forall>x \<in> set ws. belongs k x)"
      if "gm_get (dp_pending d) k = Some ws" for k ws
      using bspec [OF all map_of_SomeD [OF that]] by simp
    have get: "gm_get (dp_pending (add_event d e)) m = Some evs" by (rule iffD1 [OF gm_ok_get_iff [OF gm'] 1])
    show ?case
    proof (cases "m = ev_Module e")
      case True
      then have "evs = (case gm_get (dp_pending d) m of None \<Rightarrow> [] | Some evs \<Rightarrow> evs) @ [e]"
        using get by (simp add: add_event_def)
      with True kind old [of m] show ?thesis by (cases "gm_get (dp_pending d) m") auto
    next
      case False
      then show ?thesis using get old [of m evs] by (simp add: add_event_def)
    qed
  qed
qed

lemma add_event_fields [simp]:
  "dp_cfg (add_event d e) = dp_cfg d" "dp_channels (add_event d e) = dp_channels d"
  "dp_closed (add_event d e) = dp_closed d" "dp_outbox (add_event d e) = dp_outbox d"
  by (simp_all add: add_event_def)

lemma add_event_delivered [simp]: "delivered ch (add_event d e) = delivered ch d"
  by (simp add: delivered_def)

lemma flush_seen: "dp_pending d \<noteq> [] \<Longrightarrow> dp_seen (flushLocked now d) = []"
  by (simp add: flushLocked_def Let_def)

lemma flush_added:
  assumes "dispatcher_ok d" "accepts d e" "belongs (ev_Module e) e" "ch < dp_channels d"
  shows "delivered ch (flushLocked now (add_event d e)) = delivered ch d + mset (pending_events (add_event d e))"
  using sum_list_digests [OF add_event_ok(3) [OF assms(1-3)], of ch "dp_channels d" now] add_event_ok(2) [OF assms(1-3)] assms(4)
  by (simp add: flushLocked_def Let_def delivered_def pending_events_def)

subsection \<open>Invariant and conservation\<close>

lemma Enqueue_ok:
  assumes ok: "dispatcher_ok d" and kind: "belongs (ev_Module e) e"
  shows "dispatcher_ok (Enqueue now d e)"
proof (cases "accepts d e")
  case True
  note added = add_event_ok [OF ok True kind]
  have batch: "1 \<le> nc_MaxBatch (dp_cfg d)" and opened: "\<not> dp_closed d"
    using ok True by (simp_all add: dispatcher_ok_def accepts_def)
  show ?thesis
  proof (cases "pending_total (dp_pending (add_event d e)) \<ge> nc_MaxBatch (dp_cfg d)")
    case full: True
    have "dispatcher_ok (flushLocked now (add_event d e))"
      using batch flush_seen [OF added(2)] by (simp add: dispatcher_ok_def pending_events_def pending_total_def)
    with True full show ?thesis by (simp add: Enqueue_cases)
  next
    case False
    have "pending_events (add_event d e\<lparr>dp_timer := True\<rparr>) = pending_events (add_event d e)"
      by (simp add: pending_events_def)
    with False batch opened added have "dispatcher_ok (add_event d e\<lparr>dp_timer := True\<rparr>)"
      unfolding dispatcher_ok_def by simp
    with True False show ?thesis by (simp add: Enqueue_cases)
  qed
qed (simp add: Enqueue_cases ok)

lemma Close_ok: "dispatcher_ok d \<Longrightarrow> dispatcher_ok (Close now d)"
  using flush_ok [of d now] by (simp add: dispatcher_ok_def Close_def pending_events_def)

lemma op_step_ok:
  "dispatcher_ok d \<Longrightarrow> (\<And>e. x = OpEnqueue e \<Longrightarrow> belongs (ev_Module e) e) \<Longrightarrow> dispatcher_ok (op_step now x d)"
  by (cases x) (simp_all add: op_step_def Enqueue_ok Close_ok Flush_def flush_ok)

definition outstanding :: "nat \<Rightarrow> dispatcher \<Rightarrow> event multiset" where
  "outstanding ch d = delivered ch d + mset (pending_events d)"

lemma op_step_conserves:
  assumes ok: "dispatcher_ok d" and kind: "\<And>e. x = OpEnqueue e \<Longrightarrow> belongs (ev_Module e) e" and ch: "ch < dp_channels d"
  shows "outstanding ch (op_step now x d) = outstanding ch d + mset (taken x d)"
proof (cases x)
  case (OpEnqueue e)
  have gm: "gm_ok (dp_pending d)" using ok by (simp add: dispatcher_ok_def)
  have same: "outstanding ch (add_event d e\<lparr>dp_timer := True\<rparr>) = delivered ch d + add_mset e (mset (pending_events d))"
    using add_event_pending [OF gm, of e] by (simp add: outstanding_def pending_events_def delivered_def)
  have flushed: "outstanding ch (flushLocked now (add_event d e)) = delivered ch d + add_mset e (mset (pending_events d))"
    if "accepts d e"
    using flush_added [OF ok that kind [OF OpEnqueue] ch] add_event_pending [OF gm, of e]
    by (simp add: outstanding_def pending_events_def)
  show ?thesis using same flushed OpEnqueue by (simp add: op_step_def taken_def Enqueue_cases outstanding_def)
next
  case OpFlush
  then show ?thesis using flush_delivers [OF ok ch] by (simp add: op_step_def taken_def Flush_def outstanding_def pending_events_def)
next
  case OpClose
  then show ?thesis using flush_delivers [OF ok ch, of now]
    by (simp add: op_step_def taken_def Close_def outstanding_def pending_events_def delivered_def)
qed

lemma op_step_channels [simp]: "dp_channels (op_step now x d) = dp_channels d" "dp_cfg (op_step now x d) = dp_cfg d"
  by (cases x; simp add: op_step_def Enqueue_cases Flush_def Close_def)+

lemma runs_frame: "runs d d' evs \<Longrightarrow> dp_channels d' = dp_channels d \<and> dp_cfg d' = dp_cfg d"
  by (induction rule: runs.induct) simp_all

lemma runs_ok: "runs d d' evs \<Longrightarrow> dispatcher_ok d \<Longrightarrow> dispatcher_ok d'"
  by (induction rule: runs.induct) (simp_all add: op_step_ok)

lemma runs_conserve:
  "runs d d' evs \<Longrightarrow> dispatcher_ok d \<Longrightarrow> ch < dp_channels d \<Longrightarrow> outstanding ch d' = outstanding ch d + mset evs"
proof (induction rule: runs.induct)
  case (step d d' evs x now)
  have "dispatcher_ok d'" "ch < dp_channels d'"
    using runs_ok [OF step.hyps(1)] runs_frame [OF step.hyps(1)] step.prems by simp_all
  from op_step_conserves [OF this(1) step.hyps(2) this(2)] step show ?case by simp
qed simp

lemma NewDispatcher_ok: "dispatcher_ok (NewDispatcher cfg n)"
  by (simp add: dispatcher_ok_def NewDispatcher_def nc_withDefaults_def Let_def pending_total_def pending_events_def)

lemma NewDispatcher_outstanding [simp]: "outstanding ch (NewDispatcher cfg n) = {#}" "dp_channels (NewDispatcher cfg n) = n"
  by (simp_all add: outstanding_def NewDispatcher_def delivered_def pending_events_def)

text \<open>Once closed, the dispatcher stays closed and nothing more is taken.\<close>

lemma closed_stays:
  "runs d d' evs \<Longrightarrow> dp_closed d \<Longrightarrow> dp_closed d' \<and> evs = []"
proof (induction rule: runs.induct)
  case (step d d' evs x now)
  then show ?case by (cases x) (auto simp: op_step_def taken_def accepts_def Enqueue_cases Flush_def Close_def)
qed simp

lemma closed_delivered: "dispatcher_ok d \<Longrightarrow> dp_closed d \<Longrightarrow> outstanding ch d = delivered ch d"
  by (simp add: outstanding_def dispatcher_ok_def pending_events_def)

section \<open>Delivery\<close>

lemma send_loop_all_fail:
  "(\<forall>k < left. send (attempt + k) \<noteq> None) \<Longrightarrow>
     send_loop send attempt left err = (attempt + left, if left = 0 then err else send (attempt + left - 1))"
proof (induction left arbitrary: attempt err)
  case (Suc left)
  from Suc.prems obtain x where x: "send attempt = Some x" by (auto dest: spec [of _ 0])
  have "\<forall>k < left. send (Suc attempt + k) \<noteq> None" using Suc.prems by (auto dest: spec [of _ "Suc _"])
  from Suc.IH [OF this, of "Some x"] x show ?case by (cases left) simp_all
qed simp

lemma send_loop_first_success:
  "k < left \<Longrightarrow> send (attempt + k) = None \<Longrightarrow> (\<forall>j < k. send (attempt + j) \<noteq> None) \<Longrightarrow>
     send_loop send attempt left err = (Suc (attempt + k), None)"
proof (induction left arbitrary: attempt err k)
  case (Suc left)
  show ?case
  proof (cases k)
    case 0
    with Suc.prems show ?thesis by simp
  next
    case (Suc k')
    obtain x where x: "send attempt = Some x" using Suc.prems(3) Suc by (auto dest: spec [of _ 0])
    have "\<forall>j < k'. send (Suc attempt + j) \<noteq> None" using Suc.prems(3) Suc by (auto dest: spec [of _ "Suc _"])
    with Suc.IH [of k' "Suc attempt" "Some x"] Suc.prems x Suc show ?thesis by simp
  qed
qed simp

section \<open>Binding to scan results\<close>

definition announced :: "string \<Rightarrow> reconcile_result \<Rightarrow> event list" where
  "announced mdl res =
     map (\<lambda>f. \<lparr>ev_Kind = KindOpened, ev_Module = mdl, ev_Finding = f\<rparr>) (rr_NewlyOpen res) @
     map (\<lambda>f. \<lparr>ev_Kind = KindResolved, ev_Module = mdl, ev_Finding = f\<rparr>) (rr_Resolved res)"

lemma bound_OnResult_enqueues: "bound_OnResult now mdl res d = foldl (Enqueue now) d (announced mdl res)"
  by (simp add: bound_OnResult_def announced_def foldl_map)

lemma enqueue_all_runs:
  "(\<forall>e \<in> set evs. belongs (ev_Module e) e) \<Longrightarrow> runs d d' tk \<Longrightarrow>
     \<exists>tk'. runs d (foldl (Enqueue now) d' evs) (tk @ tk') \<and> set tk' \<subseteq> set evs"
proof (induction evs arbitrary: d' tk)
  case Nil
  then show ?case by (auto intro: exI [of _ "[]"])
next
  case (Cons e evs)
  have "runs d (op_step now (OpEnqueue e) d') (tk @ taken (OpEnqueue e) d')"
    using Cons.prems by (intro runs.step) auto
  from Cons.IH [OF _ this] Cons.prems obtain tk' where
    "runs d (foldl (Enqueue now) (Enqueue now d' e) evs) ((tk @ taken (OpEnqueue e) d') @ tk')" "set tk' \<subseteq> set evs"
    by (auto simp: op_step_def)
  then show ?case by (intro exI [of _ "taken (OpEnqueue e) d' @ tk'"]) (auto simp: taken_def)
qed

lemma announced_belong: "e \<in> set (announced mdl res) \<Longrightarrow> belongs (ev_Module e) e"
  by (auto simp: announced_def belongs_def)

text \<open>An event is wanted unless it opens a finding below the severity threshold.\<close>

definition wanted :: "notify_config \<Rightarrow> event \<Rightarrow> bool" where
  "wanted cfg e \<longleftrightarrow> ev_Kind e = KindOpened \<longrightarrow> passesSeverity cfg (f_Severity (ev_Finding e))"

lemma Enqueue_reaches:
  assumes ok: "dispatcher_ok d" and kind: "belongs (ev_Module e) e" and ch: "ch < dp_channels d"
    and "\<not> dp_closed d" "wanted (dp_cfg d) e"
  shows "\<exists>e' \<in># outstanding ch (Enqueue now d e). event_key e' = event_key e"
proof (cases "accepts d e")
  case True
  have "outstanding ch (Enqueue now d e) = outstanding ch d + {#e#}"
    using op_step_conserves [of d "OpEnqueue e" ch now] ok kind ch True by (simp add: op_step_def taken_def)
  then show ?thesis by auto
next
  case False
  with assms have "event_key e \<in> set (dp_seen d)" by (auto simp: accepts_def wanted_def)
  moreover have "set (dp_seen d) = event_key ` set (pending_events d)" using ok by (simp add: dispatcher_ok_def)
  ultimately obtain e' where "e' \<in> set (pending_events d)" "event_key e' = event_key e" by (metis imageE)
  with False show ?thesis by (auto simp: Enqueue_cases outstanding_def)
qed

lemma Enqueue_grows:
  assumes "dispatcher_ok d" "belongs (ev_Module e) e" "ch < dp_channels d" "x \<in># outstanding ch d"
  shows "x \<in># outstanding ch (Enqueue now d e)"
  using op_step_conserves [of d "OpEnqueue e" ch now] assms by (simp add: op_step_def)

lemma Enqueue_frame [simp]:
  "dp_closed (Enqueue now d e) = dp_closed d" "dp_cfg (Enqueue now d e) = dp_cfg d"
  "dp_channels (Enqueue now d e) = dp_channels d"
  by (simp_all add: Enqueue_cases)

lemma enqueue_all_grow:
  "dispatcher_ok d \<Longrightarrow> (\<forall>e \<in> set evs. belongs (ev_Module e) e) \<Longrightarrow> ch < dp_channels d \<Longrightarrow> x \<in># outstanding ch d \<Longrightarrow>
     x \<in># outstanding ch (foldl (Enqueue now) d evs)"
  by (induction evs arbitrary: d) (simp_all add: Enqueue_ok Enqueue_grows)

lemma enqueue_all_reach:
  "dispatcher_ok d \<Longrightarrow> (\<forall>e \<in> set evs. belongs (ev_Module e) e) \<Longrightarrow> ch < dp_channels d \<Longrightarrow> \<not> dp_closed d \<Longrightarrow>
     e \<in> set evs \<Longrightarrow> wanted (dp_cfg d) e \<Longrightarrow>
     \<exists>e' \<in># outstanding ch (foldl (Enqueue now) d evs). event_key e' = event_key e"
proof (induction evs arbitrary: d)
  case (Cons a evs)
  have ok: "dispatcher_ok (Enqueue now d a)" using Cons.prems by (simp add: Enqueue_ok)
  show ?case
  proof (cases "e = a")
    case True
    then obtain e' where "e' \<in># outstanding ch (Enqueue now d a)" "event_key e' = event_key e"
      using Enqueue_reaches [of d a ch now] Cons.prems by auto
    with enqueue_all_grow [OF ok, of evs ch e' now] Cons.prems show ?thesis by auto
  next
    case False
    with Cons.IH [OF ok] Cons.prems show ?thesis by simp
  qed
qed simp

section \<open>Properties\<close>

definition sample_event :: event where
  "sample_event = \<lparr>ev_Kind = KindOpened, ev_Module = ''m'',
     ev_Finding = new_finding ''fp'' ''d'' ''c'' ''t'' SeverityHigh ''r'' None\<rparr>"

definition sample_config :: notify_config where
  "sample_config = \<lparr>nc_FlushInterval = 0, nc_MaxBatch = 0, nc_MinSeverity = SeverityMedium, nc_Retries = 0, nc_RetryDelay = 0\<rparr>"

text \<open>A run that takes one event and closes.\<close>

lemma sample_run:
  "runs (NewDispatcher sample_config 1) (Close 7 (Enqueue 5 (NewDispatcher sample_config 1) sample_event)) [sample_event]"
proof -
  let ?d = "NewDispatcher sample_config 1"
  have kind: "belongs (ev_Module sample_event) sample_event" by (simp add: belongs_def sample_event_def)
  have acc: "accepts ?d sample_event"
    by (simp add: accepts_def NewDispatcher_def nc_withDefaults_def sample_config_def sample_event_def passesSeverity_def
        severityRank_def new_finding_def Let_def)
  have "runs ?d (op_step 5 (OpEnqueue sample_event) ?d) ([] @ taken (OpEnqueue sample_event) ?d)"
    by (rule runs.step [OF runs.start]) (use kind in simp)
  from runs.step [OF this, of OpClose 7] acc show ?thesis by (simp add: op_step_def taken_def)
qed

text \<open>
  C5. Nothing is lost and nothing is sent twice: in every run of a new dispatcher, for every channel, the events in the digests
  handed to the channel and the events still pending are together exactly the events that were taken, as multisets;
  once the dispatcher is closed, every taken event has been handed to every channel.
\<close>

theorem dispatcher_conserves:
  assumes "runs (NewDispatcher cfg n) d evs" "ch < n"
  shows "delivered ch d + mset (pending_events d) = mset evs \<and> (dp_closed d \<longrightarrow> delivered ch d = mset evs)"
proof -
  have "outstanding ch d = mset evs" using runs_conserve [OF assms(1) NewDispatcher_ok] assms(2) by simp
  moreover have "dispatcher_ok d" by (rule runs_ok [OF assms(1) NewDispatcher_ok])
  ultimately show ?thesis using closed_delivered [of d ch] by (simp add: outstanding_def)
qed

theorem dispatcher_conserves_witness:
  "delivered 0 (Close 7 (Enqueue 5 (NewDispatcher sample_config 1) sample_event)) = {#sample_event#}"
  using dispatcher_conserves [OF sample_run, of 0] by (simp add: Close_def)

text \<open>
  C19. In every run of a new dispatcher the events pending are fewer than a full batch, the window timer is armed
  exactly when something is pending, no two pending events have the same kind, module and fingerprint, and nothing is pending
  after it was closed, which it then stays without taking anything more.
\<close>

theorem dispatcher_invariant:
  assumes "runs (NewDispatcher cfg n) d evs"
  shows "pending_total (dp_pending d) < nc_MaxBatch (nc_withDefaults cfg) \<and> (dp_timer d \<longleftrightarrow> dp_pending d \<noteq> []) \<and>
     distinct (map event_key (pending_events d)) \<and>
     (dp_closed d \<longrightarrow> dp_pending d = [] \<and> (\<forall>d' evs'. runs d d' evs' \<longrightarrow> dp_closed d' \<and> evs' = []))"
proof -
  have "dispatcher_ok d" by (rule runs_ok [OF assms NewDispatcher_ok])
  moreover have "dp_cfg d = nc_withDefaults cfg" using runs_frame [OF assms] by (simp add: NewDispatcher_def)
  ultimately show ?thesis using closed_stays [of d] unfolding dispatcher_ok_def by simp
qed

theorem dispatcher_invariant_witness:
  "\<not> dp_timer (Close 7 (Enqueue 5 (NewDispatcher sample_config 1) sample_event))"
  using dispatcher_invariant [OF sample_run] by (simp add: Close_def)



text \<open>
  Delivery stops at the first attempt that succeeds, with no error reported; if every attempt fails, there are exactly
  as many as configured and the last error is reported.
\<close>

lemma delivery_attempts:
  "sendWithRetry cfg send =
     (case find (\<lambda>k. send k = None) [0..<nat (nc_Retries cfg)] of
        Some k \<Rightarrow> (Suc k, None)
      | None \<Rightarrow> (nat (nc_Retries cfg), if nc_Retries cfg \<le> 0 then None else send (nat (nc_Retries cfg) - 1)))"
proof (cases "find (\<lambda>k. send k = None) [0..<nat (nc_Retries cfg)]")
  case None
  then have "\<forall>k < nat (nc_Retries cfg). send (0 + k) \<noteq> None" by (auto simp: find_None_iff)
  from send_loop_all_fail [OF this, of None] None show ?thesis by (simp add: sendWithRetry_def)
next
  case (Some k)
  then have "k < nat (nc_Retries cfg)" "send (0 + k) = None" "\<forall>j < k. send (0 + j) \<noteq> None"
    by (auto simp: find_Some_iff)
  from send_loop_first_success [OF this] Some show ?thesis by (simp add: sendWithRetry_def)
qed

end
