(* ===== verification/Scheduler.thy ===== *)
theory Scheduler
  imports Float64 Store_Engine
begin

text \<open>
  Package \<^verbatim>\<open>sched\<close> (\<^verbatim>\<open>sched/scheduler.go\<close>): registration of collectors and targets, the sweeps of the module
  loops, the worker slots, and the bookkeeping of failures.

  The goroutines are the list \<open>sd_tasks\<close> of scans that were started and have not ended. A scan waits for a slot of
  the semaphore, runs, and ends. Every call that the mutex makes atomic is one operation here, and a scan that
  holds a slot does \<^verbatim>\<open>Collect\<close>, \<^verbatim>\<open>Reconcile\<close> and its callback in one step, so an execution is any
  interleaving of these steps; overlapping calls of \<^verbatim>\<open>Reconcile\<close> are outside the model. The callbacks are the
  logs \<open>sd_results\<close> and \<open>sd_errors\<close>. An error is its text, and \<^verbatim>\<open>context.Canceled\<close> is the error with the text of
  the standard library. What a \<^verbatim>\<open>ctx.Err()\<close> yields and what the clock shows are arguments of the steps.
\<close>

section \<open>Configuration\<close>

record sched_config =
  sc_Workers :: int
  sc_ScanTimeout :: duration
  sc_JitterFraction :: rat
  sc_RetryBase :: duration
  sc_RetryMax :: duration
  sc_IntervalOverride :: duration

definition sc_withDefaults :: "sched_config \<Rightarrow> sched_config" where
  "sc_withDefaults c =
     (let c = (if sc_Workers c \<le> 0 then c\<lparr>sc_Workers := 8\<rparr> else c);
          c = (if sc_ScanTimeout c \<le> 0 then c\<lparr>sc_ScanTimeout := 30 * Second\<rparr> else c);
          c = (if sc_JitterFraction c \<le> 0 \<or> sc_JitterFraction c > 1 then c\<lparr>sc_JitterFraction := fl (1 / 10)\<rparr> else c);
          c = (if sc_RetryBase c \<le> 0 then c\<lparr>sc_RetryBase := 30 * Second\<rparr> else c);
          c = (if sc_RetryMax c \<le> 0 then c\<lparr>sc_RetryMax := 15 * (60 * Second)\<rparr> else c)
      in c)"

text \<open>The loop of \<^verbatim>\<open>backoffFor\<close>, with the iterations left to do.\<close>

fun backoff_loop :: "duration \<Rightarrow> duration \<Rightarrow> nat \<Rightarrow> duration" where
  "backoff_loop mx d 0 = (if d > mx then mx else d)"
| "backoff_loop mx d (Suc left) = (let d = wrap64 (d * 2) in if d \<ge> mx then mx else backoff_loop mx d left)"

definition backoffFor :: "sched_config \<Rightarrow> int \<Rightarrow> duration" where
  "backoffFor cfg consecutive = backoff_loop (sc_RetryMax cfg) (sc_RetryBase cfg) (nat (consecutive - 1))"

text \<open>The argument \<open>u\<close> is the number \<^verbatim>\<open>rng.Float64()\<close> draws, at least 0 and below 1.\<close>

definition jittered :: "sched_config \<Rightarrow> rat \<Rightarrow> duration \<Rightarrow> duration" where
  "jittered cfg u d = trunc (fl (float64 d * fl (1 + fl (sc_JitterFraction cfg * fl (u - 1 / 2)))))"

definition loop_interval :: "sched_config \<Rightarrow> module_info \<Rightarrow> duration" where
  "loop_interval cfg mi =
     (let interval = mi_DefaultInterval mi;
          interval = (if sc_IntervalOverride cfg > 0 then sc_IntervalOverride cfg else interval)
      in if interval \<le> 0 then Hour else interval)"

section \<open>State\<close>

abbreviation context_Canceled :: error where "context_Canceled \<equiv> ''context canceled''"

text \<open>The interface \<^verbatim>\<open>core.Collector\<close>; \<open>'r\<close> is the state its \<^verbatim>\<open>Collect\<close> works on.\<close>

record 'r collector =
  co_Describe :: module_info
  co_ValidateTarget :: "string \<Rightarrow> error + target"
  co_Collect :: "error option \<Rightarrow> time \<Rightarrow> 'r \<Rightarrow> target \<Rightarrow> 'r \<times> (error + finding list)"

record 'r registration =
  rg_collector :: "'r collector"
  rg_info :: module_info
  rg_targets :: "(string, target) gomap"

record scan_result =
  sr_Module :: string
  sr_Target :: target
  sr_Reconcile :: reconcile_result
  sr_Duration :: duration

record scan_error =
  se_Module :: string
  se_Target :: target
  se_Err :: error
  se_Attempt :: int
  se_NextTry :: duration

text \<open>A scan in flight: whether a sweep started it or \<^verbatim>\<open>AddTarget\<close> or \<^verbatim>\<open>ScanNow\<close> did, and whether it holds a slot.\<close>

record task =
  tk_sweep :: bool
  tk_module :: string
  tk_target :: target
  tk_running :: bool

record ('r, 's) scheduler =
  sd_cfg :: sched_config
  sd_engine :: "'s engine"
  sd_modules :: "(string, 'r registration) gomap"
  sd_started :: bool
  sd_cancelled :: bool
  sd_loops :: "string list"
  sd_failures :: "(string \<times> string, int) gomap"
  sd_nextOK :: "(string \<times> string, time) gomap"
  sd_tasks :: "task list"
  sd_results :: "scan_result list"
  sd_errors :: "scan_error list"
  sd_store :: 's
  sd_ids :: nat
  sd_coll :: 'r

definition New :: "'s engine \<Rightarrow> sched_config \<Rightarrow> 's \<Rightarrow> nat \<Rightarrow> 'r \<Rightarrow> ('r, 's) scheduler" where
  "New e cfg s n r =
     \<lparr>sd_cfg = sc_withDefaults cfg, sd_engine = e, sd_modules = [], sd_started = False, sd_cancelled = False,
      sd_loops = [], sd_failures = [], sd_nextOK = [], sd_tasks = [], sd_results = [], sd_errors = [],
      sd_store = s, sd_ids = n, sd_coll = r\<rparr>"

section \<open>Registration and targets\<close>

definition Register :: "'r collector \<Rightarrow> ('r, 's) scheduler \<Rightarrow> error + ('r, 's) scheduler" where
  "Register c sd =
     (let info = co_Describe c in
      if mi_ID info = [] then Inl ''collector ModuleInfo.ID must not be empty''
      else case gm_get (sd_modules sd) (mi_ID info) of
             Some _ \<Rightarrow> Inl (''module already registered: '' @ mi_ID info)
           | None \<Rightarrow> Inr (sd\<lparr>sd_modules := gm_set (mi_ID info)
                            \<lparr>rg_collector = c, rg_info = info, rg_targets = []\<rparr> (sd_modules sd)\<rparr>))"

definition spawn :: "bool \<Rightarrow> string \<Rightarrow> ('r, 's) scheduler \<Rightarrow> target \<Rightarrow> ('r, 's) scheduler" where
  "spawn sweeping m sd t =
     sd\<lparr>sd_tasks := sd_tasks sd @ [\<lparr>tk_sweep = sweeping, tk_module = m, tk_target = t, tk_running = False\<rparr>]\<rparr>"

definition AddTarget :: "string \<Rightarrow> string \<Rightarrow> ('r, 's) scheduler \<Rightarrow> ('r, 's) scheduler \<times> (error + target)" where
  "AddTarget m raw sd =
     (case gm_get (sd_modules sd) m of
        None \<Rightarrow> (sd, Inl (''unknown module: '' @ m))
      | Some reg \<Rightarrow>
          (case co_ValidateTarget (rg_collector reg) raw of
             Inl err \<Rightarrow> (sd, Inl err)
           | Inr t \<Rightarrow>
               (let reg = reg\<lparr>rg_targets := gm_set (t_Canonical t) t (rg_targets reg)\<rparr>;
                    sd = sd\<lparr>sd_modules := gm_set m reg (sd_modules sd)\<rparr>
                in if sd_started sd \<and> \<not> sd_cancelled sd then (spawn False m sd t, Inr t) else (sd, Inr t))))"

definition RemoveTarget :: "string \<Rightarrow> string \<Rightarrow> ('r, 's) scheduler \<Rightarrow> ('r, 's) scheduler" where
  "RemoveTarget m canonical sd =
     (case gm_get (sd_modules sd) m of
        None \<Rightarrow> sd
      | Some reg \<Rightarrow>
          sd\<lparr>sd_modules := gm_set m (reg\<lparr>rg_targets := gm_delete canonical (rg_targets reg)\<rparr>) (sd_modules sd)\<rparr>)"

definition snapshotTargets :: "'r registration \<Rightarrow> target list" where
  "snapshotTargets reg = gm_vals (rg_targets reg)"

definition ListTargets :: "string \<Rightarrow> ('r, 's) scheduler \<Rightarrow> target list" where
  "ListTargets m sd = (case gm_get (sd_modules sd) m of None \<Rightarrow> [] | Some reg \<Rightarrow> snapshotTargets reg)"

section \<open>Starting, stopping, scanning on demand\<close>

definition Start :: "('r, 's) scheduler \<Rightarrow> error + ('r, 's) scheduler" where
  "Start sd =
     (if sd_started sd then Inl ''scheduler already started''
      else Inr (sd\<lparr>sd_started := True, sd_loops := gm_keys (sd_modules sd)\<rparr>))"

text \<open>The first half of \<^verbatim>\<open>Stop\<close>, which cancels; it then waits until no scan is in flight and no loop runs.\<close>

definition Stop_cancel :: "('r, 's) scheduler \<Rightarrow> ('r, 's) scheduler" where
  "Stop_cancel sd = (if sd_started sd then sd\<lparr>sd_cancelled := True\<rparr> else sd)"

definition ScanNow :: "string \<Rightarrow> ('r, 's) scheduler \<Rightarrow> ('r, 's) scheduler \<times> error option" where
  "ScanNow m sd =
     (case gm_get (sd_modules sd) m of
        None \<Rightarrow> (sd, Some (''unknown module: '' @ m))
      | Some reg \<Rightarrow> (foldl (spawn False m) sd (snapshotTargets reg), None))"

section \<open>Sweeps and scans\<close>

text \<open>
  One sweep of the loop of module \<open>m\<close>; \<open>now\<close> is the reading of the clock when the iteration reaches the target. A key
  without an entry reads as the zero time.
\<close>

definition gate :: "('r, 's) scheduler \<Rightarrow> string \<Rightarrow> string \<Rightarrow> time" where
  "gate sd m canonical = (case gm_get (sd_nextOK sd) (m, canonical) of None \<Rightarrow> 0 | Some g \<Rightarrow> g)"

definition failure_count :: "('r, 's) scheduler \<Rightarrow> string \<Rightarrow> string \<Rightarrow> int" where
  "failure_count sd m canonical = (case gm_get (sd_failures sd) (m, canonical) of None \<Rightarrow> 0 | Some n \<Rightarrow> n)"

definition sweep :: "(string \<Rightarrow> time) \<Rightarrow> string \<Rightarrow> ('r, 's) scheduler \<Rightarrow> ('r, 's) scheduler" where
  "sweep now m sd =
     (case gm_get (sd_modules sd) m of
        None \<Rightarrow> sd
      | Some reg \<Rightarrow>
          foldl (\<lambda>sd t. if now (t_Canonical t) < gate sd m (t_Canonical t) then sd else spawn True m sd t) sd
            (snapshotTargets reg))"

text \<open>The readings of the clock during a scan.\<close>

record readings =
  rd_start :: time
  rd_collect :: time
  rd_reconcile :: time
  rd_result :: time
  rd_failure :: time

text \<open>\<^verbatim>\<open>scanOne\<close> once it holds a slot.\<close>

definition scanOne ::
  "error option \<Rightarrow> readings \<Rightarrow> 'r registration \<Rightarrow> target \<Rightarrow> ('r, 's) scheduler \<Rightarrow> ('r, 's) scheduler \<times> error option" where
  "scanOne ctx rd reg t sd =
     (case co_Collect (rg_collector reg) ctx (rd_collect rd) (sd_coll sd) t of
        (r, Inl err) \<Rightarrow> (sd\<lparr>sd_coll := r\<rparr>, Some err)
      | (r, Inr findings) \<Rightarrow>
          (let sd = sd\<lparr>sd_coll := r\<rparr> in
           case Reconcile (sd_engine sd) (rg_info reg) (t_Canonical t) findings (rd_reconcile rd) (sd_store sd) (sd_ids sd) of
             (st, Some err) \<Rightarrow> (sd\<lparr>sd_store := st_store st, sd_ids := st_ids st\<rparr>, Some err)
           | (st, None) \<Rightarrow>
               (sd\<lparr>sd_store := st_store st, sd_ids := st_ids st,
                   sd_results := sd_results sd @
                     [\<lparr>sr_Module = mi_ID (rg_info reg), sr_Target = t, sr_Reconcile = st_res st,
                       sr_Duration = time_Sub (rd_result rd) (rd_start rd)\<rparr>]\<rparr>, None)))"

text \<open>What the goroutine of a sweep does with the outcome of its scan.\<close>

definition note_outcome ::
  "time \<Rightarrow> string \<Rightarrow> target \<Rightarrow> error option \<Rightarrow> ('r, 's) scheduler \<Rightarrow> ('r, 's) scheduler" where
  "note_outcome now m t err sd =
     (let reset = sd\<lparr>sd_failures := gm_set (m, t_Canonical t) 0 (sd_failures sd),
                     sd_nextOK := gm_set (m, t_Canonical t) 0 (sd_nextOK sd)\<rparr>
      in case err of
           None \<Rightarrow> reset
         | Some err \<Rightarrow>
             if err = context_Canceled then reset
             else
               (let n = wrap64 (failure_count sd m (t_Canonical t) + 1); backoff = backoffFor (sd_cfg sd) n in
                sd\<lparr>sd_failures := gm_set (m, t_Canonical t) n (sd_failures sd),
                   sd_nextOK := gm_set (m, t_Canonical t) (time_Add now backoff) (sd_nextOK sd),
                   sd_errors := sd_errors sd @
                     [\<lparr>se_Module = m, se_Target = t, se_Err = err, se_Attempt = n, se_NextTry = backoff\<rparr>]\<rparr>))"

definition running_count :: "('r, 's) scheduler \<Rightarrow> int" where
  "running_count sd = int (length (filter tk_running (sd_tasks sd)))"

definition drop_task :: "nat \<Rightarrow> ('r, 's) scheduler \<Rightarrow> ('r, 's) scheduler" where
  "drop_task i sd = sd\<lparr>sd_tasks := take i (sd_tasks sd) @ drop (Suc i) (sd_tasks sd)\<rparr>"

definition acquire_slot :: "nat \<Rightarrow> ('r, 's) scheduler \<Rightarrow> ('r, 's) scheduler" where
  "acquire_slot i sd = sd\<lparr>sd_tasks := (sd_tasks sd)[i := (sd_tasks sd ! i)\<lparr>tk_running := True\<rparr>]\<rparr>"

text \<open>The end of scan \<open>i\<close>, with its outcome noted when a sweep started it.\<close>

definition end_task :: "nat \<Rightarrow> time \<Rightarrow> ('r, 's) scheduler \<times> error option \<Rightarrow> ('r, 's) scheduler" where
  "end_task i now p =
     (let tk = sd_tasks (fst p) ! i; sd = drop_task i (fst p) in
      if tk_sweep tk then note_outcome now (tk_module tk) (tk_target tk) (snd p) sd else sd)"

definition run_scan :: "nat \<Rightarrow> error option \<Rightarrow> readings \<Rightarrow> ('r, 's) scheduler \<Rightarrow> ('r, 's) scheduler" where
  "run_scan i ctx rd sd =
     (case gm_get (sd_modules sd) (tk_module (sd_tasks sd ! i)) of
        None \<Rightarrow> sd
      | Some reg \<Rightarrow> end_task i (rd_failure rd) (scanOne ctx rd reg (tk_target (sd_tasks sd ! i)) sd))"

text \<open>A scan whose context is done while it waits for a slot.\<close>

definition give_up :: "nat \<Rightarrow> error \<Rightarrow> time \<Rightarrow> ('r, 's) scheduler \<Rightarrow> ('r, 's) scheduler" where
  "give_up i err now sd = end_task i now (sd, Some err)"

section \<open>Executions\<close>

inductive sched_step :: "('r, 's) scheduler \<Rightarrow> ('r, 's) scheduler \<Rightarrow> bool" where
  register: "Register c sd = Inr sd' \<Longrightarrow> sched_step sd sd'"
| add_target: "AddTarget m raw sd = (sd', res) \<Longrightarrow> sched_step sd sd'"
| remove_target: "sched_step sd (RemoveTarget m canonical sd)"
| start: "Start sd = Inr sd' \<Longrightarrow> sched_step sd sd'"
| stop: "sched_step sd (Stop_cancel sd)"
| scan_now: "ScanNow m sd = (sd', res) \<Longrightarrow> sched_step sd sd'"
| sweeps: "m \<in> set (sd_loops sd) \<Longrightarrow> sched_step sd (sweep now m sd)"
| acquire: "i < length (sd_tasks sd) \<Longrightarrow> \<not> tk_running (sd_tasks sd ! i) \<Longrightarrow>
    running_count sd < sc_Workers (sd_cfg sd) \<Longrightarrow> sched_step sd (acquire_slot i sd)"
| scan: "i < length (sd_tasks sd) \<Longrightarrow> tk_running (sd_tasks sd ! i) \<Longrightarrow> sched_step sd (run_scan i ctx rd sd)"
| abandon: "i < length (sd_tasks sd) \<Longrightarrow> \<not> tk_running (sd_tasks sd ! i) \<Longrightarrow> sched_step sd (give_up i err now sd)"

text \<open>
  The invariant: registrations are filed under their module, targets under the canonical form that the collector
  of the module gave them, scans in flight are of registered modules and validated targets, no more scans hold a
  slot than there are workers, loops run only once started, and every report of a failure counts from 1 and
  announces the backoff of its count.
\<close>

definition validated :: "'r registration \<Rightarrow> target \<Rightarrow> bool" where
  "validated reg t \<longleftrightarrow> (\<exists>raw. co_ValidateTarget (rg_collector reg) raw = Inr t)"

definition registration_ok :: "string \<Rightarrow> 'r registration \<Rightarrow> bool" where
  "registration_ok m reg \<longleftrightarrow> m \<noteq> [] \<and> rg_info reg = co_Describe (rg_collector reg) \<and> mi_ID (rg_info reg) = m \<and>
     gm_ok (rg_targets reg) \<and>
     (\<forall>k t. gm_get (rg_targets reg) k = Some t \<longrightarrow> k = t_Canonical t \<and> validated reg t)"

definition task_ok :: "('r, 's) scheduler \<Rightarrow> task \<Rightarrow> bool" where
  "task_ok sd tk \<longleftrightarrow> (\<exists>reg. gm_get (sd_modules sd) (tk_module tk) = Some reg \<and> validated reg (tk_target tk))"

definition error_ok :: "sched_config \<Rightarrow> scan_error \<Rightarrow> bool" where
  "error_ok cfg e \<longleftrightarrow> se_Err e \<noteq> context_Canceled \<and> se_NextTry e = backoffFor cfg (se_Attempt e)"

definition sched_ok :: "('r, 's) scheduler \<Rightarrow> bool" where
  "sched_ok sd \<longleftrightarrow> 1 \<le> sc_Workers (sd_cfg sd) \<and>
     (\<forall>m reg. gm_get (sd_modules sd) m = Some reg \<longrightarrow> registration_ok m reg) \<and>
     (\<forall>tk \<in> set (sd_tasks sd). task_ok sd tk) \<and>
     running_count sd \<le> sc_Workers (sd_cfg sd) \<and>
     (\<forall>m \<in> set (sd_loops sd). gm_get (sd_modules sd) m \<noteq> None) \<and>
     (sd_loops sd \<noteq> [] \<longrightarrow> sd_started sd) \<and> (sd_cancelled sd \<longrightarrow> sd_started sd) \<and>
     (\<forall>e \<in> set (sd_errors sd). error_ok (sd_cfg sd) e)"

subsection \<open>Frames\<close>

lemma spawn_fields [simp]:
  "sd_modules (spawn b m sd t) = sd_modules sd" "sd_cfg (spawn b m sd t) = sd_cfg sd"
  "sd_loops (spawn b m sd t) = sd_loops sd" "sd_started (spawn b m sd t) = sd_started sd"
  "sd_cancelled (spawn b m sd t) = sd_cancelled sd" "sd_errors (spawn b m sd t) = sd_errors sd"
  "sd_nextOK (spawn b m sd t) = sd_nextOK sd" "sd_failures (spawn b m sd t) = sd_failures sd"
  "sd_store (spawn b m sd t) = sd_store sd" "sd_results (spawn b m sd t) = sd_results sd"
  "gate (spawn b m sd t) = gate sd"
  by (simp_all add: spawn_def gate_def fun_eq_iff)

lemma spawn_ok:
  assumes "sched_ok sd" "gm_get (sd_modules sd) m = Some reg" "validated reg t"
  shows "sched_ok (spawn b m sd t)"
proof -
  have "task_ok (spawn b m sd t) tk \<longleftrightarrow> task_ok sd tk" for tk by (simp add: task_ok_def)
  with assms show ?thesis by (auto simp: sched_ok_def running_count_def) (auto simp: spawn_def task_ok_def)
qed

lemma snapshot_validated:
  "sched_ok sd \<Longrightarrow> gm_get (sd_modules sd) m = Some reg \<Longrightarrow> t \<in> set (snapshotTargets reg) \<Longrightarrow> validated reg t"
  by (auto simp: sched_ok_def registration_ok_def snapshotTargets_def dest!: map_of_is_SomeI)

lemma spawn_all_ok:
  "sched_ok sd \<Longrightarrow> gm_get (sd_modules sd) m = Some reg \<Longrightarrow> \<forall>t \<in> set ts. validated reg t \<Longrightarrow>
     sched_ok (foldl (\<lambda>sd t. if p sd t then sd else spawn b m sd t) sd ts)"
  by (induction ts arbitrary: sd) (simp_all add: spawn_ok)

lemma drop_task_fields [simp]:
  "sd_modules (drop_task i sd) = sd_modules sd" "sd_cfg (drop_task i sd) = sd_cfg sd"
  "sd_loops (drop_task i sd) = sd_loops sd" "sd_started (drop_task i sd) = sd_started sd"
  "sd_cancelled (drop_task i sd) = sd_cancelled sd" "sd_errors (drop_task i sd) = sd_errors sd"
  "sd_store (drop_task i sd) = sd_store sd" "sd_results (drop_task i sd) = sd_results sd"
  "sd_failures (drop_task i sd) = sd_failures sd" "sd_nextOK (drop_task i sd) = sd_nextOK sd"
  by (simp_all add: drop_task_def)

lemma drop_task_ok: "sched_ok sd \<Longrightarrow> sched_ok (drop_task i sd)"
proof -
  assume ok: "sched_ok sd"
  have sub: "set (sd_tasks (drop_task i sd)) \<subseteq> set (sd_tasks sd)"
    by (auto simp: drop_task_def dest: in_set_takeD in_set_dropD)
  have "length (filter tk_running (take i xs @ drop (Suc i) xs)) \<le> length (filter tk_running xs)" for xs :: "task list"
  proof -
    have "filter tk_running xs = filter tk_running (take i xs) @ filter tk_running (drop i xs)"
      by (metis append_take_drop_id filter_append)
    moreover have "length (filter tk_running (drop (Suc i) xs)) \<le> length (filter tk_running (drop i xs))"
    proof -
      have "drop (Suc i) xs = tl (drop i xs)" by (simp add: drop_Suc tl_drop)
      then show ?thesis by (cases "drop i xs") simp_all
    qed
    ultimately show ?thesis by simp
  qed
  from this [of "sd_tasks sd"] have "running_count (drop_task i sd) \<le> running_count sd"
    by (simp add: running_count_def drop_task_def)
  moreover have "task_ok (drop_task i sd) tk \<longleftrightarrow> task_ok sd tk" for tk by (simp add: task_ok_def)
  ultimately show ?thesis using ok sub by (auto simp: sched_ok_def)
qed

lemma note_outcome_fields [simp]:
  "sd_modules (note_outcome now m t err sd) = sd_modules sd" "sd_cfg (note_outcome now m t err sd) = sd_cfg sd"
  "sd_loops (note_outcome now m t err sd) = sd_loops sd" "sd_started (note_outcome now m t err sd) = sd_started sd"
  "sd_cancelled (note_outcome now m t err sd) = sd_cancelled sd" "sd_tasks (note_outcome now m t err sd) = sd_tasks sd"
  "sd_store (note_outcome now m t err sd) = sd_store sd" "sd_results (note_outcome now m t err sd) = sd_results sd"
  by (simp_all add: note_outcome_def Let_def split: option.splits)

lemma note_outcome_ok:
  assumes "sched_ok sd"
  shows "sched_ok (note_outcome now m t err sd)"
proof -
  have "task_ok (note_outcome now m t err sd) tk \<longleftrightarrow> task_ok sd tk" for tk by (simp add: task_ok_def)
  moreover have "running_count (note_outcome now m t err sd) = running_count sd" by (simp add: running_count_def)
  moreover have "\<forall>e \<in> set (sd_errors (note_outcome now m t err sd)). error_ok (sd_cfg sd) e"
    using assms by (auto simp: note_outcome_def Let_def sched_ok_def error_ok_def split: option.splits)
  ultimately show ?thesis using assms by (simp add: sched_ok_def)
qed

lemma scanOne_fields:
  assumes "scanOne ctx rd reg t sd = (sd', err)"
  shows "sd_modules sd' = sd_modules sd" "sd_cfg sd' = sd_cfg sd" "sd_loops sd' = sd_loops sd"
    "sd_started sd' = sd_started sd" "sd_cancelled sd' = sd_cancelled sd" "sd_tasks sd' = sd_tasks sd"
    "sd_errors sd' = sd_errors sd" "sd_failures sd' = sd_failures sd" "sd_nextOK sd' = sd_nextOK sd"
  using assms by (auto simp: scanOne_def Let_def split: prod.splits sum.splits option.splits)

lemma scanOne_ok:
  assumes "sched_ok sd" "scanOne ctx rd reg t sd = (sd', err)"
  shows "sched_ok sd'"
  using assms(1) scanOne_fields [OF assms(2)] by (simp add: sched_ok_def running_count_def task_ok_def)

lemma end_task_ok: "sched_ok (fst p) \<Longrightarrow> sched_ok (end_task i now p)"
  by (simp add: end_task_def Let_def note_outcome_ok drop_task_ok)

lemma acquire_ok:
  assumes ok: "sched_ok sd" and i: "i < length (sd_tasks sd)" "\<not> tk_running (sd_tasks sd ! i)"
    and free: "running_count sd < sc_Workers (sd_cfg sd)"
  shows "sched_ok (acquire_slot i sd)"
proof -
  let ?xs = "sd_tasks sd"
  have split: "?xs = take i ?xs @ ?xs ! i # drop (Suc i) ?xs" using i(1) by (rule id_take_nth_drop)
  have new: "?xs[i := x] = take i ?xs @ x # drop (Suc i) ?xs" for x using i(1) by (rule upd_conv_take_nth_drop)
  have "running_count (acquire_slot i sd) = running_count sd + 1"
    using i(2) arg_cong [OF split, of "\<lambda>xs. length (filter tk_running xs)"] by (simp add: running_count_def acquire_slot_def new)
  moreover have "task_ok (acquire_slot i sd) tk" if "tk \<in> set (sd_tasks (acquire_slot i sd))" for tk
  proof -
    have "tk = (?xs ! i)\<lparr>tk_running := True\<rparr> \<or> tk \<in> set ?xs"
      using that set_update_subset_insert [of ?xs i] by (auto simp: acquire_slot_def)
    moreover have "?xs ! i \<in> set ?xs" using i(1) by simp
    ultimately show ?thesis using ok by (auto simp: sched_ok_def task_ok_def acquire_slot_def)
  qed
  ultimately show ?thesis using ok free by (simp add: sched_ok_def acquire_slot_def)
qed

lemma Register_ok:
  assumes ok: "sched_ok sd" and "Register c sd = Inr sd'"
  shows "sched_ok sd'"
proof -
  let ?m = "mi_ID (co_Describe c)" and ?reg = "\<lparr>rg_collector = c, rg_info = co_Describe c, rg_targets = []\<rparr>"
  have new: "?m \<noteq> []" "gm_get (sd_modules sd) ?m = None" "sd' = sd\<lparr>sd_modules := gm_set ?m ?reg (sd_modules sd)\<rparr>"
    using assms(2) by (auto simp: Register_def Let_def split: if_splits option.splits)
  have "task_ok sd' tk" if "task_ok sd tk" for tk
    using that new(2) by (auto simp: task_ok_def new(3))
  moreover have "registration_ok ?m ?reg" using new(1) by (simp add: registration_ok_def)
  ultimately show ?thesis using ok by (auto simp: sched_ok_def new(3) running_count_def)
qed

text \<open>Changing the targets of a module keeps the invariant.\<close>

lemma set_targets_ok:
  assumes ok: "sched_ok sd" and reg: "gm_get (sd_modules sd) m = Some reg"
    and new: "registration_ok m (reg\<lparr>rg_targets := ts\<rparr>)"
  shows "sched_ok (sd\<lparr>sd_modules := gm_set m (reg\<lparr>rg_targets := ts\<rparr>) (sd_modules sd)\<rparr>)" (is "sched_ok ?sd")
proof -
  have "task_ok ?sd tk" if "task_ok sd tk" for tk
    using that reg by (auto simp: task_ok_def validated_def)
  with ok new show ?thesis by (auto simp: sched_ok_def running_count_def)
qed

lemma AddTarget_ok:
  assumes ok: "sched_ok sd" and "AddTarget m raw sd = (sd', res)"
  shows "sched_ok sd'"
proof (cases "gm_get (sd_modules sd) m")
  case None
  with assms show ?thesis by (simp add: AddTarget_def)
next
  case (Some reg)
  show ?thesis
  proof (cases "co_ValidateTarget (rg_collector reg) raw")
    case (Inl err)
    with Some assms show ?thesis by (simp add: AddTarget_def)
  next
    case (Inr t)
    let ?reg = "reg\<lparr>rg_targets := gm_set (t_Canonical t) t (rg_targets reg)\<rparr>"
    let ?sd = "sd\<lparr>sd_modules := gm_set m ?reg (sd_modules sd)\<rparr>"
    have v: "validated ?reg t" using Inr by (auto simp: validated_def)
    have old: "registration_ok m reg" using ok Some by (simp add: sched_ok_def)
    have "registration_ok m ?reg"
      using old v by (auto simp: registration_ok_def validated_def split: if_splits)
    then have "sched_ok ?sd" by (rule set_targets_ok [OF ok Some])
    moreover have "sd' = ?sd \<or> sd' = spawn False m ?sd t" using assms(2) Some Inr by (auto simp: AddTarget_def Let_def split: if_splits)
    ultimately show ?thesis using spawn_ok [of ?sd m ?reg t False] v by auto
  qed
qed

lemma RemoveTarget_ok:
  assumes ok: "sched_ok sd"
  shows "sched_ok (RemoveTarget m canonical sd)"
proof (cases "gm_get (sd_modules sd) m")
  case (Some reg)
  have "registration_ok m reg" using ok Some by (simp add: sched_ok_def)
  then have "registration_ok m (reg\<lparr>rg_targets := gm_delete canonical (rg_targets reg)\<rparr>)"
    by (auto simp: registration_ok_def validated_def split: if_splits)
  from set_targets_ok [OF ok Some this] Some show ?thesis by (simp add: RemoveTarget_def)
qed (simp add: RemoveTarget_def ok)

lemma Start_ok: "sched_ok sd \<Longrightarrow> Start sd = Inr sd' \<Longrightarrow> sched_ok sd'"
  by (auto simp: Start_def sched_ok_def running_count_def task_ok_def map_of_eq_None_iff split: if_splits)

lemma Stop_ok: "sched_ok sd \<Longrightarrow> sched_ok (Stop_cancel sd)"
  by (auto simp: Stop_cancel_def sched_ok_def running_count_def task_ok_def)

lemma ScanNow_ok:
  assumes ok: "sched_ok sd" and "ScanNow m sd = (sd', res)"
  shows "sched_ok sd'"
proof (cases "gm_get (sd_modules sd) m")
  case (Some reg)
  with spawn_all_ok [OF ok Some, of "snapshotTargets reg" "\<lambda>_ _. False" False] snapshot_validated [OF ok Some] assms
  show ?thesis by (simp add: ScanNow_def)
qed (use assms in \<open>simp add: ScanNow_def\<close>)

lemma sweep_ok:
  assumes ok: "sched_ok sd"
  shows "sched_ok (sweep now m sd)"
proof (cases "gm_get (sd_modules sd) m")
  case (Some reg)
  with spawn_all_ok [OF ok Some, of "snapshotTargets reg"] snapshot_validated [OF ok Some]
  show ?thesis by (simp add: sweep_def)
qed (simp add: sweep_def ok)

lemma run_scan_ok:
  assumes "sched_ok sd"
  shows "sched_ok (run_scan i ctx rd sd)"
proof (cases "gm_get (sd_modules sd) (tk_module (sd_tasks sd ! i))")
  case (Some reg)
  obtain sd' err where "scanOne ctx rd reg (tk_target (sd_tasks sd ! i)) sd = (sd', err)" by fastforce
  with Some scanOne_ok [OF assms this] show ?thesis by (simp add: run_scan_def end_task_ok)
qed (simp add: run_scan_def assms)

lemma sched_step_ok: "sched_step sd sd' \<Longrightarrow> sched_ok sd \<Longrightarrow> sched_ok sd'"
proof (induction rule: sched_step.induct)
  case (abandon i sd err now)
  then show ?case by (simp add: give_up_def end_task_ok)
qed (assumption | rule Register_ok AddTarget_ok RemoveTarget_ok Start_ok Stop_ok ScanNow_ok sweep_ok acquire_ok run_scan_ok)+

lemma New_ok: "sched_ok (New e cfg s n r)"
  by (simp add: New_def sched_ok_def sc_withDefaults_def Let_def running_count_def)

lemma reachable_ok: "sched_step\<^sup>*\<^sup>* sd sd' \<Longrightarrow> sched_ok sd \<Longrightarrow> sched_ok sd'"
  by (induction rule: rtranclp_induct) (simp_all add: sched_step_ok)

section \<open>Backoff and jitter\<close>

lemma backoff_loop_min:
  "0 < d \<Longrightarrow> d < 2 ^ 62 \<Longrightarrow> mx \<le> 2 ^ 62 \<Longrightarrow> backoff_loop mx d k = min mx (d * 2 ^ k)"
proof (induction k arbitrary: d)
  case (Suc k)
  have double: "wrap64 (d * 2) = d * 2" using Suc.prems by (intro wrap64_id int64_okI) simp_all
  have grow: "d * 2 \<le> d * 2 ^ Suc k" using Suc.prems(1) by (simp add: mult_le_cancel_left1)
  show ?case
  proof (cases "mx \<le> d * 2")
    case True
    with grow show ?thesis by (simp add: double Let_def)
  next
    case False
    then have "backoff_loop mx (d * 2) k = min mx (d * 2 * 2 ^ k)" using Suc.prems by (intro Suc.IH) simp_all
    with False show ?thesis by (simp add: double Let_def ac_simps)
  qed
qed simp

text \<open>The delay after the \<open>n\<close>-th failure in a row: doubled from the base, cut off at the maximum.\<close>

lemma backoffFor_eq:
  "0 < sc_RetryBase cfg \<Longrightarrow> sc_RetryBase cfg < 2 ^ 62 \<Longrightarrow> sc_RetryMax cfg \<le> 2 ^ 62 \<Longrightarrow>
     backoffFor cfg n = min (sc_RetryMax cfg) (sc_RetryBase cfg * 2 ^ nat (n - 1))"
  by (simp only: backoffFor_def backoff_loop_min)

lemma representable_halves: "\<bar>n\<bar> < 2 ^ 53 \<Longrightarrow> representable (of_int n / 2)"
  unfolding representable_def by (intro exI [of _ n] exI [of _ "-1"]) (simp add: power_int_minus field_simps)

lemma fl_between: "representable a \<Longrightarrow> representable b \<Longrightarrow> a \<le> x \<and> x \<le> b \<Longrightarrow> a \<le> fl x \<and> fl x \<le> b"
  using binary64.rnd_ge [of a x] binary64.rnd_le [of b x] by simp

lemma scaled_between:
  fixes x :: rat
  assumes "0 \<le> c" "a \<le> x \<and> x \<le> b"
  shows "c * a \<le> c * x \<and> c * x \<le> c * b"
  using assms by (intro conjI mult_left_mono) simp_all

lemma jitter_factor:
  assumes "0 < j" "j \<le> 1" "0 \<le> u" "u < 1"
  shows "1 / 2 \<le> fl (1 + fl (j * fl (u - 1 / 2))) \<and> fl (1 + fl (j * fl (u - 1 / 2))) \<le> 3 / 2"
proof -
  have rep: "representable (- (1 / 2))" "representable (1 / 2)" "representable (3 / 2)"
    using representable_halves [of "- 1"] representable_halves [of 1] representable_halves [of 3] by simp_all
  have "- (1 / 2) \<le> fl (u - 1 / 2) \<and> fl (u - 1 / 2) \<le> 1 / 2"
    by (rule fl_between [OF rep(1,2)]) (use assms in linarith)
  from scaled_between [OF less_imp_le [OF assms(1)] this] have "- (1 / 2) \<le> j * fl (u - 1 / 2) \<and> j * fl (u - 1 / 2) \<le> 1 / 2"
    using assms(2) by linarith
  from fl_between [OF rep(1,2) this] show ?thesis by (intro fl_between [OF rep(2,3)]) linarith
qed

lemma jittered_bounds:
  assumes j: "0 < sc_JitterFraction cfg" "sc_JitterFraction cfg \<le> 1" and u: "0 \<le> u" "u < 1" and d: "0 \<le> d" "3 * d < 2 ^ 53"
  shows "d div 2 \<le> jittered cfg u d \<and> jittered cfg u d \<le> 3 * d div 2"
proof -
  define f where "f = fl (1 + fl (sc_JitterFraction cfg * fl (u - 1 / 2)))"
  have f: "1 / 2 \<le> f \<and> f \<le> 3 / 2" unfolding f_def by (rule jitter_factor [OF j u])
  have fd: "float64 d = of_int d" using d by (simp add: float64_id)
  have d0: "(0 :: rat) \<le> of_int d" using d(1) by simp
  have "of_int d / 2 \<le> of_int d * f \<and> of_int d * f \<le> of_int (3 * d) / 2"
    using scaled_between [OF d0 f] by simp
  moreover have "representable (of_int d / 2)" "representable (of_int (3 * d) / 2)"
    by (rule representable_halves; use d in simp)+
  ultimately have x: "of_int d / 2 \<le> fl (of_int d * f) \<and> fl (of_int d * f) \<le> of_int (3 * d) / 2"
    by (intro fl_between)
  have half: "\<lfloor>of_int n / (2 :: rat)\<rfloor> = n div 2" for n using floor_divide_of_int_eq [of n 2] by simp
  have "d div 2 \<le> \<lfloor>fl (of_int d * f)\<rfloor>" "\<lfloor>fl (of_int d * f)\<rfloor> \<le> 3 * d div 2"
    unfolding half [symmetric] using x by (blast intro: floor_mono)+
  moreover have "\<not> fl (of_int d * f) < 0" using x d0 by linarith
  ultimately show ?thesis by (simp add: jittered_def trunc_def fd f_def)
qed

section \<open>What a sweep scans, and what a scan changes\<close>

lemma sweep_tasks:
  "gm_get (sd_modules sd) m = Some reg \<Longrightarrow>
     sd_tasks (sweep now m sd) = sd_tasks sd @
       map (\<lambda>t. \<lparr>tk_sweep = True, tk_module = m, tk_target = t, tk_running = False\<rparr>)
         (filter (\<lambda>t. gate sd m (t_Canonical t) \<le> now (t_Canonical t)) (ListTargets m sd))"
proof -
  have "sd_tasks (foldl (\<lambda>sd t. if now (t_Canonical t) < gate sd m (t_Canonical t) then sd else spawn True m sd t) sd ts) =
      sd_tasks sd @ map (\<lambda>t. \<lparr>tk_sweep = True, tk_module = m, tk_target = t, tk_running = False\<rparr>)
         (filter (\<lambda>t. gate sd m (t_Canonical t) \<le> now (t_Canonical t)) ts)" for ts
  proof (induction ts arbitrary: sd)
    case (Cons t ts)
    have "sd_tasks (spawn True m sd t) = sd_tasks sd @ [\<lparr>tk_sweep = True, tk_module = m, tk_target = t, tk_running = False\<rparr>]"
      by (simp add: spawn_def)
    with Cons show ?case by (simp add: not_less)
  qed simp
  then show "gm_get (sd_modules sd) m = Some reg \<Longrightarrow> ?thesis" by (simp add: sweep_def ListTargets_def)
qed

text \<open>Outcomes of the scans of one target, in order, with the clock at each.\<close>

definition failed :: "time \<times> error option \<Rightarrow> bool" where
  "failed x \<longleftrightarrow> snd x \<noteq> None \<and> snd x \<noteq> Some context_Canceled"

definition note_all :: "string \<Rightarrow> target \<Rightarrow> (time \<times> error option) list \<Rightarrow> ('r, 's) scheduler \<Rightarrow> ('r, 's) scheduler" where
  "note_all m t xs sd = foldl (\<lambda>sd x. note_outcome (fst x) m t (snd x) sd) sd xs"

definition in_a_row :: "(time \<times> error option) list \<Rightarrow> nat" where
  "in_a_row xs = length (takeWhile failed (rev xs))"

lemma note_outcome_maps:
  "gm_get (sd_failures (note_outcome now m t err sd)) = (gm_get (sd_failures sd))((m, t_Canonical t) \<mapsto>
     if failed (now, err) then wrap64 (failure_count sd m (t_Canonical t) + 1) else 0)"
  "gm_get (sd_nextOK (note_outcome now m t err sd)) = (gm_get (sd_nextOK sd))((m, t_Canonical t) \<mapsto>
     if failed (now, err) then time_Add now (backoffFor (sd_cfg sd) (wrap64 (failure_count sd m (t_Canonical t) + 1))) else 0)"
  by (cases err; simp add: note_outcome_def failed_def Let_def)+

lemma note_outcome_counts:
  "failure_count (note_outcome now m t err sd) m (t_Canonical t) =
     (if failed (now, err) then wrap64 (failure_count sd m (t_Canonical t) + 1) else 0)"
  "gate (note_outcome now m t err sd) m (t_Canonical t) =
     (if failed (now, err) then time_Add now (backoffFor (sd_cfg sd) (wrap64 (failure_count sd m (t_Canonical t) + 1))) else 0)"
  by (simp_all add: failure_count_def [of "note_outcome now m t err sd"] gate_def note_outcome_maps)

lemma note_all_cfg [simp]: "sd_cfg (note_all m t xs sd) = sd_cfg sd"
  by (induction xs rule: rev_induct) (simp_all add: note_all_def)

lemma note_all_counts:
  "failure_count sd m (t_Canonical t) = 0 \<Longrightarrow> int (length xs) < 2 ^ 63 \<Longrightarrow>
     failure_count (note_all m t xs sd) m (t_Canonical t) = int (in_a_row xs)"
proof (induction xs rule: rev_induct)
  case (snoc x xs)
  have "in_a_row xs \<le> length xs" unfolding in_a_row_def by (metis length_rev length_takeWhile_le)
  then have "wrap64 (int (in_a_row xs) + 1) = int (in_a_row xs) + 1"
    using snoc.prems by (intro wrap64_id int64_okI) simp_all
  with snoc show ?case
    by (cases x) (simp add: note_all_def note_outcome_counts in_a_row_def)
qed (simp add: note_all_def in_a_row_def)

lemma note_outcome_others:
  "(m', c) \<noteq> (m, t_Canonical t) \<Longrightarrow>
     gate (note_outcome now m t err sd) m' c = gate sd m' c \<and>
     failure_count (note_outcome now m t err sd) m' c = failure_count sd m' c"
  by (simp only: gate_def failure_count_def [of _ m'] note_outcome_maps fun_upd_other simp_thms)

text \<open>
  Who changes the findings: only a scan that holds a slot and whose \<^verbatim>\<open>Collect\<close> succeeded, through one call of
  \<^verbatim>\<open>Reconcile\<close> for its own module and target.
\<close>

lemma end_task_store [simp]: "sd_store (end_task i now p) = sd_store (fst p)" "sd_results (end_task i now p) = sd_results (fst p)"
  by (simp_all add: end_task_def Let_def)

lemma scanOne_store:
  assumes "scanOne ctx rd reg t sd = (sd', err)" "sd_store sd' \<noteq> sd_store sd"
  shows "\<exists>r fs. co_Collect (rg_collector reg) ctx (rd_collect rd) (sd_coll sd) t = (r, Inr fs) \<and>
     sd_store sd' = st_store (fst (Reconcile (sd_engine sd) (rg_info reg) (t_Canonical t) fs (rd_reconcile rd) (sd_store sd) (sd_ids sd)))"
  using assms by (auto simp: scanOne_def Let_def split: prod.splits sum.splits option.splits)

lemma spawn_all_store [simp]:
  "sd_store (foldl (\<lambda>sd t. if p sd t then sd else spawn b m sd t) sd ts) = sd_store sd"
  "sd_store (foldl (spawn b m) sd ts) = sd_store sd"
  by (induction ts arbitrary: sd) simp_all

lemma sched_step_store:
  assumes "sched_step sd sd'" "sched_ok sd" "sd_store sd' \<noteq> sd_store sd"
  obtains reg ctx t r fs and rd :: readings where "gm_get (sd_modules sd) (mi_ID (rg_info reg)) = Some reg" "validated reg t"
    "co_Collect (rg_collector reg) ctx (rd_collect rd) (sd_coll sd) t = (r, Inr fs)"
    "sd_store sd' = st_store (fst (Reconcile (sd_engine sd) (rg_info reg) (t_Canonical t) fs (rd_reconcile rd) (sd_store sd) (sd_ids sd)))"
  using assms
proof cases
  case (scan i ctx rd)
  let ?tk = "sd_tasks sd ! i"
  have "?tk \<in> set (sd_tasks sd)" using scan by simp
  then obtain reg where reg: "gm_get (sd_modules sd) (tk_module ?tk) = Some reg" "validated reg (tk_target ?tk)"
    using assms(2) unfolding sched_ok_def task_ok_def by blast
  then have id: "mi_ID (rg_info reg) = tk_module ?tk" using assms(2) unfolding sched_ok_def registration_ok_def by blast
  obtain sd1 err where one: "scanOne ctx rd reg (tk_target ?tk) sd = (sd1, err)" by fastforce
  have store: "sd_store sd' = sd_store sd1" using scan reg one by (simp add: run_scan_def)
  then obtain r fs where "co_Collect (rg_collector reg) ctx (rd_collect rd) (sd_coll sd) (tk_target ?tk) = (r, Inr fs)"
    "sd_store sd1 = st_store (fst (Reconcile (sd_engine sd) (rg_info reg) (t_Canonical (tk_target ?tk)) fs (rd_reconcile rd) (sd_store sd) (sd_ids sd)))"
    using scanOne_store [OF one] assms(3) by auto
  with reg id store show ?thesis by (intro that [of reg "tk_target ?tk" ctx rd r fs]) simp_all
qed (auto simp: Register_def AddTarget_def RemoveTarget_def Start_def Stop_cancel_def ScanNow_def sweep_def acquire_slot_def
    give_up_def Let_def split: if_splits option.splits sum.splits)

text \<open>
  A scan that \<^verbatim>\<open>AddTarget\<close> or \<^verbatim>\<open>ScanNow\<close> started reports no failure and takes no part in the backoff.
\<close>

lemma direct_scan_silent:
  assumes "\<not> tk_sweep (sd_tasks sd ! i)"
  shows "sd_errors (run_scan i ctx rd sd) = sd_errors sd" "sd_nextOK (run_scan i ctx rd sd) = sd_nextOK sd"
    "sd_failures (run_scan i ctx rd sd) = sd_failures sd"
proof (atomize (full), cases "gm_get (sd_modules sd) (tk_module (sd_tasks sd ! i))")
  case (Some reg)
  obtain sd1 err where one: "scanOne ctx rd reg (tk_target (sd_tasks sd ! i)) sd = (sd1, err)" by fastforce
  with Some assms scanOne_fields [OF one] show
    "sd_errors (run_scan i ctx rd sd) = sd_errors sd \<and> sd_nextOK (run_scan i ctx rd sd) = sd_nextOK sd \<and>
     sd_failures (run_scan i ctx rd sd) = sd_failures sd"
    by (simp add: run_scan_def end_task_def Let_def)
qed (simp add: run_scan_def)

section \<open>Properties\<close>

lemma spawn_all_cfg [simp]:
  "sd_cfg (foldl (\<lambda>sd t. if p sd t then sd else spawn b m sd t) sd ts) = sd_cfg sd"
  "sd_cfg (foldl (spawn b m) sd ts) = sd_cfg sd"
  by (induction ts arbitrary: sd) simp_all

lemma end_task_cfg [simp]: "sd_cfg (end_task i now p) = sd_cfg (fst p)"
  by (simp add: end_task_def Let_def)

lemma sched_step_cfg:
  assumes "sched_step sd sd'"
  shows "sd_cfg sd' = sd_cfg sd"
  using assms
proof cases
  case (scan i ctx rd)
  show ?thesis
  proof (cases "gm_get (sd_modules sd) (tk_module (sd_tasks sd ! i))")
    case (Some reg)
    obtain sd1 err where one: "scanOne ctx rd reg (tk_target (sd_tasks sd ! i)) sd = (sd1, err)" by fastforce
    with scan Some scanOne_fields(2) [OF one] show ?thesis by (simp add: run_scan_def)
  qed (simp add: scan run_scan_def)
qed (auto simp: Register_def AddTarget_def RemoveTarget_def Start_def Stop_cancel_def ScanNow_def sweep_def acquire_slot_def
    give_up_def Let_def split: if_splits option.splits sum.splits)

lemma reachable_cfg: "sched_step\<^sup>*\<^sup>* sd sd' \<Longrightarrow> sd_cfg sd' = sd_cfg sd"
  by (induction rule: rtranclp_induct) (simp_all add: sched_step_cfg)

definition sched_sample_config :: sched_config where
  "sched_sample_config = \<lparr>sc_Workers = 2, sc_ScanTimeout = Second, sc_JitterFraction = 1 / 2, sc_RetryBase = 30, sc_RetryMax = 100,
     sc_IntervalOverride = 0\<rparr>"

lemma sched_sample_defaults: "sc_withDefaults sched_sample_config = sched_sample_config"
  by (simp add: sc_withDefaults_def sched_sample_config_def Second_def)

text \<open>A collector that takes every target, and whose \<^verbatim>\<open>Collect\<close> fails for all but the target \<^verbatim>\<open>up\<close>.\<close>

definition sample_collector :: "unit collector" where
  "sample_collector = \<lparr>co_Describe = \<lparr>mi_ID = ''m'', mi_Name = [], mi_Version = [], mi_TargetKind = [], mi_DefaultInterval = Hour, mi_ResolveAfter = 1\<rparr>,
     co_ValidateTarget = \<lambda>raw. Inr \<lparr>t_Raw = raw, t_Canonical = raw, t_Meta = []\<rparr>,
     co_Collect = \<lambda>_ _ r t. (r, if t_Canonical t = ''up'' then Inr [] else Inl ''unreachable'')\<rparr>"

definition sched_sample_engine :: "unit engine" where
  "sched_sample_engine = \<lparr>e_store = \<lparr>si_ListByTarget = \<lambda>_ _ _. Inr [], si_Upsert = \<lambda>s _. Inr s, si_Get = \<lambda>_ _ _. Inr None,
       si_ListOpen = \<lambda>_ _. Inr [], si_ListAll = \<lambda>_ _. Inr []\<rparr>,
     e_newID = \<lambda>_ _. Inr [], e_marshal = \<lambda>_. Some []\<rparr>"

definition sample_sched :: "(unit, unit) scheduler" where
  "sample_sched = fst (AddTarget ''m'' ''down'' (projr (Start (projr (Register sample_collector
     (New sched_sample_engine sched_sample_config () 0 ()))))))"

lemmas sample_defs = sample_sched_def AddTarget_def Start_def Register_def sample_collector_def New_def spawn_def Let_def

lemma sample_reachable: "sched_step\<^sup>*\<^sup>* (New sched_sample_engine sched_sample_config () 0 ()) sample_sched"
proof -
  let ?n = "New sched_sample_engine sched_sample_config () 0 ()"
  let ?r = "projr (Register sample_collector ?n)"
  have "Register sample_collector ?n = Inr ?r" by (simp add: sample_defs)
  then have 1: "sched_step ?n ?r" by (rule sched_step.register)
  have "Start ?r = Inr (projr (Start ?r))" by (simp add: sample_defs)
  then have 2: "sched_step ?r (projr (Start ?r))" by (rule sched_step.start)
  have 3: "sched_step (projr (Start ?r)) sample_sched"
    unfolding sample_sched_def by (rule sched_step.add_target) (rule prod.collapse [symmetric])
  from 1 2 3 show ?thesis by (meson rtranclp.rtrancl_refl rtranclp.rtrancl_into_rtrancl)
qed

text \<open>
  C17. In every execution of a new scheduler, whatever the interleaving: no more scans hold a slot than there are
  workers; the targets of a module have different canonical forms and each was validated by the module's collector,
  as was the target of each scan in flight; loops run only after \<^verbatim>\<open>Start\<close>; a report to \<^verbatim>\<open>OnError\<close> is never a
  cancellation and announces the backoff of its attempt.
\<close>

theorem scheduler_invariant:
  assumes "sched_step\<^sup>*\<^sup>* (New e cfg s n r) sd"
  shows "running_count sd \<le> sc_Workers (sc_withDefaults cfg) \<and>
     (\<forall>m. distinct (map t_Canonical (ListTargets m sd))) \<and>
     (\<forall>m. \<forall>t \<in> set (ListTargets m sd). \<exists>reg. gm_get (sd_modules sd) m = Some reg \<and> validated reg t) \<and>
     (\<forall>tk \<in> set (sd_tasks sd). \<exists>reg. gm_get (sd_modules sd) (tk_module tk) = Some reg \<and> validated reg (tk_target tk)) \<and>
     (sd_loops sd \<noteq> [] \<longrightarrow> sd_started sd) \<and>
     (\<forall>x \<in> set (sd_errors sd). se_Err x \<noteq> context_Canceled \<and> se_NextTry x = backoffFor (sc_withDefaults cfg) (se_Attempt x))"
proof -
  have ok: "sched_ok sd" by (rule reachable_ok [OF assms New_ok])
  have cfg: "sd_cfg sd = sc_withDefaults cfg" using reachable_cfg [OF assms] by (simp add: New_def)
  have snap: "map t_Canonical (snapshotTargets reg) = map fst (rg_targets reg)" "distinct (map fst (rg_targets reg))"
    if "gm_get (sd_modules sd) m = Some reg" for m reg
  proof -
    have reg: "registration_ok m reg" using ok that by (simp add: sched_ok_def)
    then show d: "distinct (map fst (rg_targets reg))" by (simp add: registration_ok_def)
    have "t_Canonical (snd x) = fst x" if "x \<in> set (rg_targets reg)" for x
    proof -
      have "gm_get (rg_targets reg) (fst x) = Some (snd x)" by (rule map_of_is_SomeI [OF d]) (simp add: that)
      with reg show ?thesis unfolding registration_ok_def by metis
    qed
    then show "map t_Canonical (snapshotTargets reg) = map fst (rg_targets reg)" by (simp add: snapshotTargets_def)
  qed
  have "distinct (map t_Canonical (ListTargets m sd))" for m
    using snap by (cases "gm_get (sd_modules sd) m") (simp_all add: ListTargets_def)
  moreover have "\<exists>reg. gm_get (sd_modules sd) m = Some reg \<and> validated reg t" if "t \<in> set (ListTargets m sd)" for m t
    using that by (cases "gm_get (sd_modules sd) m") (auto simp: ListTargets_def intro: snapshot_validated [OF ok])
  ultimately show ?thesis using ok by (simp add: sched_ok_def cfg task_ok_def error_ok_def)
qed

theorem scheduler_invariant_witness:
  "running_count sample_sched \<le> 2 \<and> distinct (map t_Canonical (ListTargets ''m'' sample_sched))"
  using scheduler_invariant [OF sample_reachable] by (simp add: sched_sample_defaults) (simp add: sched_sample_config_def)



text \<open>
  C22. The delay after \<open>n\<close> failures in a row is the base doubled \<open>n - 1\<close> times, cut off at the maximum, for settings below
  \<open>2^62\<close> nanoseconds (146 years); in particular no doubling overflows.
\<close>

theorem backoff_doubles:
  assumes "sc_RetryBase cfg < 2 ^ 62" "sc_RetryMax cfg \<le> 2 ^ 62"
  shows "backoffFor (sc_withDefaults cfg) n =
     min (sc_RetryMax (sc_withDefaults cfg)) (sc_RetryBase (sc_withDefaults cfg) * 2 ^ nat (n - 1))"
  using assms by (intro backoffFor_eq) (simp_all add: sc_withDefaults_def Let_def duration_defs)

theorem backoff_doubles_witness: "backoffFor (sc_withDefaults sched_sample_config) 2 = 60"
  using backoff_doubles [of sched_sample_config 2] by (simp add: sched_sample_config_def sc_withDefaults_def Let_def Second_def)

text \<open>
  The jittered interval stays between half and one and a half times the interval, for every setting and every draw, so
  sweeps neither stop nor run back to back; the bound is on the rounded floating-point result, for intervals up to
  34 days.
\<close>

lemma jitter_bounds:
  assumes "0 \<le> u" "u < 1" "0 \<le> d" "3 * d < 2 ^ 53"
  shows "d div 2 \<le> jittered (sc_withDefaults cfg) u d \<and> jittered (sc_withDefaults cfg) u d \<le> 3 * d div 2"
proof -
  have "0 < fl (1 / 10)" by (simp add: fl_def flp_pos)
  moreover have "fl (1 / 10) \<le> 1" using binary64.rnd_le [OF representable_int [of 1]] by simp
  ultimately show ?thesis using assms
    by (intro jittered_bounds) (simp_all add: sc_withDefaults_def Let_def not_le not_less)
qed

text \<open>
  A scan that \<^verbatim>\<open>AddTarget\<close> or \<^verbatim>\<open>ScanNow\<close> started is silent when it fails: whatever its outcome, nothing is
  reported to \<^verbatim>\<open>OnError\<close>, and neither the failure counts nor the gates change.
\<close>

lemma direct_scans_are_silent:
  assumes "\<not> tk_sweep (sd_tasks sd ! i)"
  shows "sd_errors (run_scan i ctx rd sd) = sd_errors sd \<and> sd_nextOK (run_scan i ctx rd sd) = sd_nextOK sd \<and>
     sd_failures (run_scan i ctx rd sd) = sd_failures sd"
  using direct_scan_silent [OF assms] by simp

lemma direct_scans_are_silent_witness:
  "(let rd = \<lparr>rd_start = 1, rd_collect = 1, rd_reconcile = 1, rd_result = 2, rd_failure = 2\<rparr>;
        reg = the (gm_get (sd_modules sample_sched) ''m'')
    in snd (scanOne None rd reg (tk_target (sd_tasks sample_sched ! 0)) sample_sched) = Some ''unreachable'' \<and>
       sd_errors (run_scan 0 None rd sample_sched) = [])"
proof -
  have "\<not> tk_sweep (sd_tasks sample_sched ! 0)" "sd_errors sample_sched = []"
    by (simp_all add: sample_defs)
  with direct_scans_are_silent [of sample_sched 0] show ?thesis
    by (simp add: scanOne_def sample_defs)
qed

end
