(* ===== verification/Pipeline.thy ===== *)
theory Pipeline
  imports Scheduler Sqlite_Store Dmarc_Collector Report_Agreement
begin

text \<open>
  The scan pipeline of the product: the collector of package \<^verbatim>\<open>dmarcwatch\<close> on the report tables, run by the scheduler, with the
  findings reconciled into the SQLite store. The lemmas combine what the components promise.
\<close>

section \<open>The collector as the scheduler sees it\<close>

definition dmarc_collector :: "(string \<Rightarrow> string) \<Rightarrow> (string \<Rightarrow> string) \<Rightarrow> 's report_iface \<Rightarrow> 's collector" where
  "dmarc_collector uni sha I =
     \<lparr>co_Describe = Describe,
      co_ValidateTarget = \<lambda>raw. case ValidateTarget uni raw of Inl err \<Rightarrow> Inl (IngestError_Error err) | Inr t \<Rightarrow> Inr t,
      co_Collect = Collect sha I\<rparr>"

section \<open>Executions over the SQLite store\<close>

lemma scanOne_engine: "scanOne ctx rd reg t sd = (sd', err) \<Longrightarrow> sd_engine sd' = sd_engine sd"
  by (auto simp: scanOne_def Let_def split: prod.splits sum.splits option.splits)

lemma spawn_engine [simp]: "sd_engine (spawn b m sd t) = sd_engine sd"
  by (simp add: spawn_def)

lemma spawn_all_engine [simp]:
  "sd_engine (foldl (\<lambda>sd t. if p sd t then sd else spawn b m sd t) sd ts) = sd_engine sd"
  "sd_engine (foldl (spawn b m) sd ts) = sd_engine sd"
  by (induction ts arbitrary: sd) simp_all

lemma end_task_engine [simp]: "sd_engine (end_task i now p) = sd_engine (fst p)"
  by (simp add: end_task_def Let_def drop_task_def note_outcome_def split: option.split)

lemma sched_step_engine:
  assumes "sched_step sd sd'"
  shows "sd_engine sd' = sd_engine sd"
  using assms
proof cases
  case (scan i ctx rd)
  show ?thesis
  proof (cases "gm_get (sd_modules sd) (tk_module (sd_tasks sd ! i))")
    case (Some reg)
    obtain sd1 err where one: "scanOne ctx rd reg (tk_target (sd_tasks sd ! i)) sd = (sd1, err)" by fastforce
    with scan Some scanOne_engine [OF one] show ?thesis by (simp add: run_scan_def)
  qed (simp add: scan run_scan_def)
qed (auto simp: Register_def AddTarget_def RemoveTarget_def Start_def Stop_cancel_def ScanNow_def sweep_def acquire_slot_def
    give_up_def Let_def split: if_splits option.splits sum.splits)

lemma sqlite_step:
  assumes step: "sched_step sd sd'" and ok: "sched_ok sd" and e: "e_store (sd_engine sd) = sqlite_iface mar unm"
    and inv: "sq_inv mar unm (sd_store sd)"
  shows "sq_inv mar unm (sd_store sd')"
    and "sq_view unm (sd_store sd') m fp \<noteq> sq_view unm (sd_store sd) m fp \<Longrightarrow>
      \<exists>reg t ctx now r fs. gm_get (sd_modules sd) m = Some reg \<and> validated reg t \<and>
        co_Collect (rg_collector reg) ctx now (sd_coll sd) t = (r, Inr fs) \<and>
        (fp \<in> reported (e_marshal (sd_engine sd)) fs \<or>
         (\<exists>x. sq_view unm (sd_store sd) m fp = Some x \<and> f_Target x = t_Canonical t))"
proof (atomize (full), cases "sd_store sd' = sd_store sd")
  case False
  obtain reg ctx t r fs and rd :: readings where
    scan: "gm_get (sd_modules sd) (mi_ID (rg_info reg)) = Some reg" "validated reg t"
    "co_Collect (rg_collector reg) ctx (rd_collect rd) (sd_coll sd) t = (r, Inr fs)"
    "sd_store sd' = st_store (fst (Reconcile (sd_engine sd) (rg_info reg) (t_Canonical t) fs (rd_reconcile rd) (sd_store sd) (sd_ids sd)))"
    by (rule sched_step_store [OF step ok False])
  obtain st res where run: "Reconcile (sd_engine sd) (rg_info reg) (t_Canonical t) fs (rd_reconcile rd) (sd_store sd) (sd_ids sd) = (st, res)"
    by fastforce
  note frame = sq.reconcile_frame [OF e inv TrueI run]
  have st: "sd_store sd' = st_store st" using scan(4) run by simp
  show "sq_inv mar unm (sd_store sd') \<and> (sq_view unm (sd_store sd') m fp \<noteq> sq_view unm (sd_store sd) m fp \<longrightarrow>
      (\<exists>reg t ctx now r fs. gm_get (sd_modules sd) m = Some reg \<and> validated reg t \<and>
        co_Collect (rg_collector reg) ctx now (sd_coll sd) t = (r, Inr fs) \<and>
        (fp \<in> reported (e_marshal (sd_engine sd)) fs \<or>
         (\<exists>x. sq_view unm (sd_store sd) m fp = Some x \<and> f_Target x = t_Canonical t))))"
  proof (intro conjI impI)
    show "sq_inv mar unm (sd_store sd')" unfolding st by (rule frame(1))
    assume "sq_view unm (sd_store sd') m fp \<noteq> sq_view unm (sd_store sd) m fp"
    then have "m = mi_ID (rg_info reg) \<and> (fp \<in> reported (e_marshal (sd_engine sd)) fs \<or>
        (\<exists>x. sq_view unm (sd_store sd) m fp = Some x \<and> f_Target x = t_Canonical t))"
      using frame(2) [of m fp] unfolding st by blast
    with scan(1-3) show "\<exists>reg t ctx now r fs. gm_get (sd_modules sd) m = Some reg \<and> validated reg t \<and>
        co_Collect (rg_collector reg) ctx now (sd_coll sd) t = (r, Inr fs) \<and>
        (fp \<in> reported (e_marshal (sd_engine sd)) fs \<or>
         (\<exists>x. sq_view unm (sd_store sd) m fp = Some x \<and> f_Target x = t_Canonical t))" by blast
  qed
qed (simp add: inv)

lemma sqlite_execution:
  assumes "sched_step\<^sup>*\<^sup>* (New e cfg db n r) sd" "e_store e = sqlite_iface mar unm" "sq_inv mar unm db"
  shows "sq_inv mar unm (sd_store sd) \<and> sd_engine sd = e \<and> sched_ok sd"
  using assms(1)
proof (induction rule: rtranclp_induct)
  case base
  show ?case using assms(3) New_ok by (simp add: New_def)
next
  case (step sd sd')
  then show ?case using sqlite_step(1) [OF step.hyps(2)] sched_step_engine [OF step.hyps(2)] sched_step_ok [OF step.hyps(2)] assms(2)
    by simp
qed

section \<open>Properties\<close>

text \<open>
  C2. From the stored reports to the alert: a scan of a domain over the report tables succeeds, and it reports a source address as spoofing exactly when,
  in the domain's reports that end within the last 30 days, at least ten messages from that address failed both mechanisms and they are at least
  nine in ten of its messages. The floating-point percentage of the code never shifts this threshold, for fewer than \<open>2^46\<close> messages in all.
\<close>

theorem spoofing_alert_exact:
  assumes "rs_sinv db" "now_ok now" "total_msgs (rs_stored db) < 2 ^ 46"
    and "W = ending_from (to_second (now - windowLong)) (filter (\<lambda>rep. rp_Domain rep = t_Canonical t) (rs_stored db))"
  shows "\<exists>db' fs. Collect sha (rsql_iface recv) None now db t = (db', Inr fs) \<and> rs_sinv db' \<and>
     (list_ex (about ''dmarc.spoofing'' ip) fs \<longleftrightarrow>
       10 \<le> msgs (\<lambda>x. from_ip ip x \<and> \<not> passes x) W \<and>
       9 * msgs (from_ip ip) W \<le> 10 * msgs (\<lambda>x. from_ip ip x \<and> \<not> passes x) W)"
  using assms(4) by (intro report_store.spoofing_exact [OF rs.report_store_axioms assms(1-3)])
    (simp add: report_store.window_def [OF rs.report_store_axioms])

theorem spoofing_alert_exact_witness:
  "\<exists>db' fs. Collect id (rsql_iface 0) None sample_now sample_reports \<lparr>t_Raw = [], t_Canonical = ''d.e'', t_Meta = []\<rparr> = (db', Inr fs) \<and>
     list_ex (about ''dmarc.spoofing'' ''1.2.3.4'') fs"
proof -
  let ?t = "\<lparr>t_Raw = [], t_Canonical = ''d.e'', t_Meta = []\<rparr>"
  let ?W = "ending_from (to_second (sample_now - windowLong)) (filter (\<lambda>rep. rp_Domain rep = t_Canonical ?t) (rs_stored sample_reports))"
  have tot: "total_msgs (rs_stored sample_reports) < 2 ^ 46" by (simp add: sample_reports_total)
  have W: "?W = [rs_keep sample_report]"
    by (simp add: sample_reports_facts(2) ending_from_def)
      (simp add: sample_report_def sample_instant_def unixToInternal_def to_second_def windowLong_def Day_def)
  have fails: "\<not> Aligned (sample_row ip n ''fail'')" for ip n unfolding Aligned_def sample_row_def rrecord.simps by code_simp
  have "msgs (\<lambda>x. from_ip ''1.2.3.4'' x \<and> \<not> passes x) [sample_report] = 20" "msgs (from_ip ''1.2.3.4'') [sample_report] = 20"
    using fails by (simp_all add: msgs_def rows_of_def sample_report_def from_ip_def passes_def) (simp_all add: sample_row_def)
  then have "msgs (\<lambda>x. from_ip ''1.2.3.4'' x \<and> \<not> passes x) ?W = 20" "msgs (from_ip ''1.2.3.4'') ?W = 20"
    unfolding W using msgs_same [of _ "[sample_report]" "[rs_keep sample_report]"] by (simp_all add: same_reports_def)
  with spoofing_alert_exact [OF sample_reports_facts(1) sample_now_ok tot refl, where t = ?t and ip = "''1.2.3.4''" and sha = id and recv = 0]
  show ?thesis by auto
qed



end
