(* ===== verification/Console.thy ===== *)
theory Console
  imports Dmarc_Collector Dmarc_Report Report_Sqlite "HOL-Library.Char_ord" "HOL-Library.List_Lexorder"
begin

text \<open>
  The product endpoints (\<^verbatim>\<open>dmarcwatch/console.go\<close>): upload of report files, the summary per domain and the table of
  sources. A request is its decoded content, a response the status code with an error message or the value that is
  written as JSON with status 200. The argument \<open>fuel\<close> is the depth to which \<^verbatim>\<open>ParseFile\<close> follows nested
  archives, and \<open>None\<close> a handler that has not returned at that depth. Strings are ordered by bytes, as in \<^verbatim>\<open>sort.Strings\<close>.
\<close>

section \<open>Data\<close>

definition maxUploadFiles :: int where "maxUploadFiles = 50"
definition maxUploadFileSize :: nat where "maxUploadFileSize = 16 * 2 ^ 20"

type_synonym 'b response = "(int \<times> string) + 'b"

definition httpErr :: "int \<Rightarrow> string \<Rightarrow> 'b response" where
  "httpErr code msg = Inl (code, msg)"

abbreviation StatusBadRequest :: int where "StatusBadRequest \<equiv> 400"
abbreviation StatusInternalServerError :: int where "StatusInternalServerError \<equiv> 500"

record upload_file =
  uf_Filename :: string
  uf_Size :: int
  uf_Open :: "error + stream"

record upload_result =
  ur_Ingested :: int
  ur_Duplicates :: int
  ur_SkippedUnknown :: "(string, int) gomap"
  ur_FailedFiles :: "string list"
  ur_Domains :: "string list"

record 's upload_state =
  us_store :: 's
  us_res :: upload_result
  us_touched :: "string list"

section \<open>Upload\<close>

text \<open>Reading and parsing one file: the entry of the list of failed files, or the reports.\<close>

definition read_upload :: "parser_env \<Rightarrow> nat \<Rightarrow> upload_file \<Rightarrow> (string + report list) option" where
  "read_upload env fuel fh =
     (if uf_Size fh > int maxUploadFileSize then Some (Inl (uf_Filename fh @ '' (too large)''))
      else case uf_Open fh of
             Inl err \<Rightarrow> Some (Inl (uf_Filename fh))
           | Inr f \<Rightarrow>
               (case read_limited (maxUploadFileSize + 1) f of
                  Inl err \<Rightarrow> Some (Inl (uf_Filename fh))
                | Inr data \<Rightarrow>
                    if length data > maxUploadFileSize then Some (Inl (uf_Filename fh))
                    else case ParseFile env fuel (uf_Filename fh) data of
                           None \<Rightarrow> None
                         | Some (Inl err) \<Rightarrow> Some (Inl (uf_Filename fh))
                         | Some (Inr reps) \<Rightarrow> Some (Inr reps)))"

definition ingest_one ::
  "'s report_iface \<Rightarrow> string list \<Rightarrow> 's upload_state \<Rightarrow> report \<Rightarrow> 's upload_state \<times> error option" where
  "ingest_one I registered st rep =
     (let res = us_res st; d = rp_Domain rep in
      if d \<notin> set registered then
        (st\<lparr>us_res := res\<lparr>ur_SkippedUnknown :=
           gm_set d ((case gm_get (ur_SkippedUnknown res) d of None \<Rightarrow> 0 | Some k \<Rightarrow> k) + 1) (ur_SkippedUnknown res)\<rparr>\<rparr>, None)
      else case ri_PutReport I (us_store st) rep of
             Inl err \<Rightarrow> (st, Some err)
           | Inr (s, stored) \<Rightarrow>
               (let st = st\<lparr>us_store := s\<rparr> in
                if stored
                then (st\<lparr>us_res := res\<lparr>ur_Ingested := ur_Ingested res + 1\<rparr>, us_touched := List.insert d (us_touched st)\<rparr>, None)
                else (st\<lparr>us_res := res\<lparr>ur_Duplicates := ur_Duplicates res + 1\<rparr>\<rparr>, None)))"

fun upload_loop ::
  "parser_env \<Rightarrow> nat \<Rightarrow> 's report_iface \<Rightarrow> string list \<Rightarrow> 's upload_state \<Rightarrow> upload_file list \<Rightarrow>
   ('s upload_state \<times> error option) option" where
  "upload_loop env fuel I registered st [] = Some (st, None)"
| "upload_loop env fuel I registered st (fh # files) =
     (case read_upload env fuel fh of
        None \<Rightarrow> None
      | Some (Inl name) \<Rightarrow>
          upload_loop env fuel I registered
            (st\<lparr>us_res := (us_res st)\<lparr>ur_FailedFiles := ur_FailedFiles (us_res st) @ [name]\<rparr>\<rparr>) files
      | Some (Inr reps) \<Rightarrow>
          (case go_for (ingest_one I registered) st reps of
             (st, Some err) \<Rightarrow> Some (st, Some err)
           | (st, None) \<Rightarrow> upload_loop env fuel I registered st files))"

definition upload_start :: "'s \<Rightarrow> 's upload_state" where
  "upload_start s = \<lparr>us_store = s, us_res = \<lparr>ur_Ingested = 0, ur_Duplicates = 0, ur_SkippedUnknown = [], ur_FailedFiles = [],
     ur_Domains = []\<rparr>, us_touched = []\<rparr>"

text \<open>
  The handler: the form is what \<^verbatim>\<open>ParseMultipartForm\<close> yields for the field \<^verbatim>\<open>files\<close>. The result is the store, the response, and the
  domains \<^verbatim>\<open>OnIngest\<close> is called with, if it is.
\<close>

definition handleUpload ::
  "parser_env \<Rightarrow> nat \<Rightarrow> 's report_iface \<Rightarrow> string list \<Rightarrow> error + upload_file list \<Rightarrow> 's \<Rightarrow>
   ('s \<times> upload_result response \<times> string list option) option" where
  "handleUpload env fuel I domains form s =
     (case form of
        Inl err \<Rightarrow> Some (s, httpErr StatusBadRequest (''upload too large or malformed: '' @ err), None)
      | Inr files \<Rightarrow>
          if files = [] then
            Some (s, httpErr StatusBadRequest (''no files '' @ emdash @ '' send multipart field '' @ [CHR 0x22] @ ''files'' @ [CHR 0x22]), None)
          else if int (length files) > maxUploadFiles then
            Some (s, httpErr StatusBadRequest ''too many files in one upload (max 50)'', None)
          else case upload_loop env fuel I domains (upload_start s) files of
                 None \<Rightarrow> None
               | Some (st, Some err) \<Rightarrow> Some (us_store st, httpErr StatusInternalServerError err, None)
               | Some (st, None) \<Rightarrow>
                   (let ds = sort (us_touched st) in
                    Some (us_store st, Inr ((us_res st)\<lparr>ur_Domains := ds\<rparr>), if ds = [] then None else Some ds)))"

section \<open>Summary and sources\<close>

record domain_summary =
  su_Domain :: string
  su_Policy :: string
  su_Msgs30 :: int
  su_AlignedPct :: rat
  su_Sources :: int
  su_Orgs :: int
  su_LastReport :: string
  su_HasData :: bool

definition summary_of :: "string \<Rightarrow> overview \<Rightarrow> domain_summary" where
  "summary_of d ov =
     \<lparr>su_Domain = d, su_Policy = ov_Policy ov, su_Msgs30 = ov_Msgs30 ov,
      su_AlignedPct = round1 (pct (ov_Aligned30 ov) (ov_Msgs30 ov)), su_Sources = int (length (ov_Sources ov)),
      su_Orgs = ov_Orgs30 ov, su_LastReport = (if ov_HasData ov then format_date (ov_LastEnd ov) else []),
      su_HasData = ov_HasData ov\<rparr>"

fun summary_loop :: "'s report_iface \<Rightarrow> 's \<Rightarrow> time \<Rightarrow> domain_summary list \<Rightarrow> string list \<Rightarrow> domain_summary list response" where
  "summary_loop I s now out [] = Inr out"
| "summary_loop I s now out (d # ds) =
     (case ri_Overview I s d now of
        Inl err \<Rightarrow> httpErr StatusInternalServerError err
      | Inr ov \<Rightarrow> summary_loop I s now (out @ [summary_of d ov]) ds)"

definition handleSummary :: "'s report_iface \<Rightarrow> string list \<Rightarrow> time \<Rightarrow> 's \<Rightarrow> domain_summary list response" where
  "handleSummary I domains now s = summary_loop I s now [] (sort domains)"

definition handleSources ::
  "(string \<Rightarrow> string) \<Rightarrow> 's report_iface \<Rightarrow> string \<Rightarrow> time \<Rightarrow> 's \<Rightarrow> (string \<times> source_stat list) response" where
  "handleSources uni I query now s =
     (let d = ToLower uni (TrimSpace query) in
      if d = [] then httpErr StatusBadRequest ''domain is required''
      else case ri_Overview I s d now of
             Inl err \<Rightarrow> httpErr StatusInternalServerError err
           | Inr ov \<Rightarrow> Inr (d, ov_Sources ov))"

section \<open>What an upload does to a lawful store\<close>

definition skipped_total :: "upload_result \<Rightarrow> int" where
  "skipped_total res = sum_list (gm_vals (ur_SkippedUnknown res))"

lemma sum_list_gm_incr:
  "sum_list (gm_vals (gm_set k ((case gm_get m k of None \<Rightarrow> 0 | Some v \<Rightarrow> v) + 1) m)) = sum_list (gm_vals m) + (1 :: int)"
proof (induction m)
  case (Cons x m)
  then show ?case by (cases x) auto
qed simp

text \<open>
  The relation between the state before and after the reports \<open>reps\<close> were offered; \<open>news\<close> are those that were stored.
\<close>

context report_store
begin

definition ingested :: "string list \<Rightarrow> report list \<Rightarrow> report list \<Rightarrow> 's upload_state \<Rightarrow> 's upload_state \<Rightarrow> bool" where
  "ingested registered reps news st st' \<longleftrightarrow>
     sinv (us_store st') \<and>
     mset (reports (us_store st')) = mset (reports (us_store st)) + mset (map keep news) \<and>
     set news \<subseteq> {rep \<in> set reps. rp_Domain rep \<in> set registered} \<and>
     (\<forall>rep \<in> set reps. rp_Domain rep \<in> set registered \<longrightarrow> (\<exists>q \<in> set (reports (us_store st')). same_report rep q)) \<and>
     ur_Ingested (us_res st') = ur_Ingested (us_res st) + int (length news) \<and>
     ur_Ingested (us_res st') + ur_Duplicates (us_res st') + skipped_total (us_res st') =
       ur_Ingested (us_res st) + ur_Duplicates (us_res st) + skipped_total (us_res st) + int (length reps) \<and>
     set (us_touched st') = set (us_touched st) \<union> rp_Domain ` set news \<and>
     (distinct (us_touched st) \<longrightarrow> distinct (us_touched st')) \<and>
     ur_FailedFiles (us_res st') = ur_FailedFiles (us_res st)"

lemma ingest_one_effect:
  assumes s: "sinv (us_store st)" and rep: "acceptable rep"
  shows "\<exists>st' news. ingest_one I registered st rep = (st', None) \<and> ingested registered [rep] news st st'"
proof (cases "rp_Domain rep \<in> set registered")
  case False
  then show ?thesis
    by (intro exI [of _ "fst (ingest_one I registered st rep)"] exI [of _ "[]"])
      (simp add: ingest_one_def Let_def ingested_def s skipped_total_def sum_list_gm_incr)
next
  case True
  obtain s' b where put: "ri_PutReport I (us_store st) rep = Inr (s', b)" "sinv s'"
    "b \<longleftrightarrow> \<not> (\<exists>q \<in> set (reports (us_store st)). same_report rep q)"
    "if b then mset (reports s') = add_mset (keep rep) (mset (reports (us_store st))) else reports s' = reports (us_store st)"
    using put_law [OF s rep] by (elim exE conjE) auto
  show ?thesis
  proof (cases b)
    case stored: True
    then have ms: "mset (reports s') = add_mset (keep rep) (mset (reports (us_store st)))" using put(4) by simp
    then have "keep rep \<in> set (reports s')" by (metis multi_member_last set_mset_mset union_single_eq_member)
    then have "\<exists>q \<in> set (reports s'). same_report rep q" using keep_law by blast
    then show ?thesis using True stored put(1,2) ms
      by (intro exI [of _ "fst (ingest_one I registered st rep)"] exI [of _ "[rep]"])
        (simp add: ingest_one_def Let_def ingested_def skipped_total_def)
  next
    case False
    then show ?thesis using True put
      by (intro exI [of _ "fst (ingest_one I registered st rep)"] exI [of _ "[]"])
        (simp add: ingest_one_def Let_def ingested_def skipped_total_def)
  qed
qed

lemma reports_grow:
  "ingested registered reps news st st' \<Longrightarrow> q \<in> set (reports (us_store st)) \<Longrightarrow> q \<in> set (reports (us_store st'))"
  unfolding ingested_def by (metis UnCI set_mset_mset set_mset_union)

lemma ingested_trans:
  assumes 1: "ingested registered reps news st st'" and 2: "ingested registered reps' news' st' st''"
  shows "ingested registered (reps @ reps') (news @ news') st st''"
proof -
  have "\<exists>q \<in> set (reports (us_store st'')). same_report rep q"
    if "rep \<in> set (reps @ reps')" "rp_Domain rep \<in> set registered" for rep
    using that 1 2 reports_grow [OF 2] unfolding ingested_def by fastforce
  with 1 2 show ?thesis by (auto simp: ingested_def)
qed

lemma ingested_refl: "sinv (us_store st) \<Longrightarrow> ingested registered [] [] st st"
  by (simp add: ingested_def)

lemma ingest_all_effect:
  assumes "sinv (us_store st)" "list_all acceptable reps"
  shows "\<exists>st' news. go_for (ingest_one I registered) st reps = (st', None) \<and> ingested registered reps news st st'"
  using assms
proof (induction reps arbitrary: st)
  case Nil
  then show ?case using ingested_refl by auto
next
  case (Cons rep reps)
  obtain st1 news1 where 1: "ingest_one I registered st rep = (st1, None)" "ingested registered [rep] news1 st st1"
    using ingest_one_effect [of st rep registered] Cons.prems by auto
  then have "sinv (us_store st1)" by (simp add: ingested_def)
  with Cons.IH [of st1] Cons.prems obtain st2 news2 where
    2: "go_for (ingest_one I registered) st1 reps = (st2, None)" "ingested registered reps news2 st1 st2" by auto
  with 1 ingested_trans [OF 1(2) 2(2)] show ?case by auto
qed

text \<open>The reports a list of files holds, and the entries for those that cannot be read or parsed.\<close>

lemma upload_loop_effect:
  assumes "sinv (us_store st)" "map (read_upload env fuel) files = map Some rs"
    and "list_all acceptable (concat (map (case_sum (\<lambda>_. []) (\<lambda>reps. reps)) rs))"
  shows "\<exists>st' news. upload_loop env fuel I registered st files = Some (st', None) \<and>
     ingested registered (concat (map (case_sum (\<lambda>_. []) (\<lambda>reps. reps)) rs)) news
       (st\<lparr>us_res := (us_res st)\<lparr>ur_FailedFiles := ur_FailedFiles (us_res st) @ concat (map (case_sum (\<lambda>name. [name]) (\<lambda>_. [])) rs)\<rparr>\<rparr>) st'"
  using assms
proof (induction files arbitrary: st rs)
  case Nil
  then show ?case using ingested_refl [of st] by auto
next
  case (Cons fh files)
  then obtain r rs' where rs: "rs = r # rs'" "read_upload env fuel fh = Some r" "map (read_upload env fuel) files = map Some rs'"
    by (cases rs) auto
  let ?reps = "concat (map (case_sum (\<lambda>_. []) (\<lambda>reps. reps)) rs')"
  let ?fail = "concat (map (case_sum (\<lambda>name. [name]) (\<lambda>_. [])) rs')"
  show ?case
  proof (cases r)
    case (Inl name)
    let ?st = "st\<lparr>us_res := (us_res st)\<lparr>ur_FailedFiles := ur_FailedFiles (us_res st) @ [name]\<rparr>\<rparr>"
    from Cons.IH [of ?st rs'] Cons.prems rs Inl show ?thesis by simp
  next
    case (Inr reps)
    have "list_all acceptable reps" "list_all acceptable ?reps" using Cons.prems(3) rs Inr by simp_all
    with ingest_all_effect [OF Cons.prems(1)] obtain st1 news1 where
      1: "go_for (ingest_one I registered) st reps = (st1, None)" "ingested registered reps news1 st st1" by blast
    then have "sinv (us_store st1)" by (simp add: ingested_def)
    from Cons.IH [OF this rs(3) \<open>list_all acceptable ?reps\<close>] obtain st2 news2 where
      2: "upload_loop env fuel I registered st1 files = Some (st2, None)"
      "ingested registered ?reps news2 (st1\<lparr>us_res := (us_res st1)\<lparr>ur_FailedFiles := ur_FailedFiles (us_res st1) @ ?fail\<rparr>\<rparr>) st2" by blast
    let ?f = "\<lambda>st :: 's upload_state. st\<lparr>us_res := (us_res st)\<lparr>ur_FailedFiles := ur_FailedFiles (us_res st) @ ?fail\<rparr>\<rparr>"
    have "ingested registered reps news1 (?f st) (?f st1)" using 1(2) by (simp add: ingested_def skipped_total_def)
    from ingested_trans [OF this 2(2)] have "ingested registered (reps @ ?reps) (news1 @ news2) (?f st) st2" .
    with 1(1) 2(1) rs Inr show ?thesis by auto
  qed
qed

end

section \<open>Properties\<close>

definition sample_upload :: upload_file where
  "sample_upload = \<lparr>uf_Filename = ''r.xml'', uf_Size = 1, uf_Open = Inr (''x'', None)\<rparr>"

text \<open>
  C37. An upload into the SQLite report store, when every file's parsing returns and the parsed reports are acceptable: the request succeeds; the tables then hold
  the old reports and exactly the newly ingested ones, each from a registered domain; every report of a registered domain is stored afterwards; the
  counts of ingested, duplicate and skipped reports add up to the parsed reports; the failed files are those that were too large, unreadable or not a
  report; and the rescan is triggered for exactly the domains that received data, sorted and without repetition.
\<close>

theorem upload_ingests:
  assumes "rs_sinv db" "files \<noteq> []" "length files \<le> 50" "map (read_upload env fuel) files = map Some rs"
    and "reps = concat (map (case_sum (\<lambda>_. []) (\<lambda>reps. reps)) rs)" "list_all acceptable reps"
  shows "\<exists>db' res news. handleUpload env fuel (rsql_iface recv) domains (Inr files) db =
       Some (db', Inr res, if ur_Domains res = [] then None else Some (ur_Domains res)) \<and>
     rs_sinv db' \<and> mset (rs_stored db') = mset (rs_stored db) + mset (map rs_keep news) \<and>
     set news \<subseteq> {rep \<in> set reps. rp_Domain rep \<in> set domains} \<and>
     (\<forall>rep \<in> set reps. rp_Domain rep \<in> set domains \<longrightarrow> (\<exists>q \<in> set (rs_stored db'). same_report rep q)) \<and>
     ur_Ingested res = int (length news) \<and>
     ur_Ingested res + ur_Duplicates res + skipped_total res = int (length reps) \<and>
     ur_FailedFiles res = concat (map (case_sum (\<lambda>name. [name]) (\<lambda>_. [])) rs) \<and>
     sorted (ur_Domains res) \<and> distinct (ur_Domains res) \<and> set (ur_Domains res) = rp_Domain ` set news"
proof -
  note ax = rs.report_store_axioms [of recv]
  obtain st news where st: "upload_loop env fuel (rsql_iface recv) domains (upload_start db) files = Some (st, None)"
    "report_store.ingested rs_sinv rs_stored rs_keep domains reps news
       ((upload_start db)\<lparr>us_res := (us_res (upload_start db))\<lparr>ur_FailedFiles :=
          ur_FailedFiles (us_res (upload_start db)) @ concat (map (case_sum (\<lambda>name. [name]) (\<lambda>_. [])) rs)\<rparr>\<rparr>) st"
    using report_store.upload_loop_effect [OF ax, of "upload_start db" env fuel files rs domains] assms
    by (auto simp: upload_start_def)
  note eff = st(2) [unfolded report_store.ingested_def [OF ax]]
  let ?res = "(us_res st)\<lparr>ur_Domains := sort (us_touched st)\<rparr>"
  have "handleUpload env fuel (rsql_iface recv) domains (Inr files) db =
      Some (us_store st, Inr ?res, if ur_Domains ?res = [] then None else Some (ur_Domains ?res))"
    using st(1) assms(2,3) by (simp add: handleUpload_def maxUploadFiles_def Let_def)
  moreover have "skipped_total ?res = skipped_total (us_res st)" by (simp add: skipped_total_def)
  ultimately show ?thesis using eff
    by (intro exI [of _ "us_store st"] exI [of _ ?res] exI [of _ news]) (simp add: upload_start_def skipped_total_def)
qed

theorem upload_ingests_witness:
  "\<exists>db res. handleUpload (sample_parser []) 1 (rsql_iface 0) [''d.e''] (Inr [sample_upload]) empty_reports =
       Some (db, Inr res, if ur_Domains res = [] then None else Some (ur_Domains res)) \<and>
     ur_Ingested res + ur_Duplicates res + skipped_total res = 1"
proof -
  have "spelled ''pass''" "spelled ''fail''" by (simp_all add: spelled_def ascii_eval)
  then have acc: "acceptable sample_parsed"
    by (simp add: acceptable_def sample_parsed_def instant_ok_def time_Unix_def unixToInternal_def wrap64_def)
  then have reps: "list_all acceptable [sample_parsed]" by simp
  have files: "[sample_upload] \<noteq> []" "length [sample_upload] \<le> 50" by simp_all
  have read: "map (read_upload (sample_parser []) 1) [sample_upload] = map Some [Inr [sample_parsed]]"
    by (simp add: read_upload_def sample_upload_def read_limited_def maxUploadFileSize_def is_zip_def is_gzip_def parse_one_def sample_parse)
  have "[sample_parsed] = concat (map (case_sum (\<lambda>_. []) (\<lambda>reps. reps)) [Inr [sample_parsed]])" by simp
  from upload_ingests [OF empty_reports_ok(1) files read this reps, of 0 "[''d.e'']"]
  show ?thesis by (elim exE conjE) (intro exI conjI, assumption, simp)
qed

end
