(* ===== verification/Ulid.thy ===== *)
theory Ulid
  imports Prelude "HOL-Library.Word" "HOL-Library.Char_ord" "HOL-Library.List_Lexorder"
begin

unbundle bit_operations_syntax

text \<open>
  Identifiers of findings (\<^verbatim>\<open>store/ulid.go\<close>): 48 bits of milliseconds and 80 random bits as 26 characters of Crockford's base 32. The shifting
  loop works on two 64-bit words; it is shown to write the base-32 digits of the 128-bit number, so that identifiers sort by
  creation time. The argument \<open>rnd\<close> is what \<^verbatim>\<open>rand.Read\<close> yields for the last ten bytes. Strings are ordered by bytes.
\<close>

section \<open>Definitions\<close>

definition crockford :: string where
  "crockford = ''0123456789ABCDEFGHJKMNPQRSTVWXYZ''"

definition UnixMilli :: "time \<Rightarrow> int" where
  "UnixMilli t = wrap64 (t div 10 ^ 6 - unixToInternal * 1000)"

text \<open>\<^verbatim>\<open>binary.BigEndian.Uint64\<close>\<close>

definition bytes_value :: "8 word list \<Rightarrow> int" where
  "bytes_value bs = foldl (\<lambda>a b. a * 256 + uint b) 0 bs"

definition BigEndian_Uint64 :: "8 word list \<Rightarrow> 64 word" where
  "BigEndian_Uint64 bs = word_of_int (bytes_value bs)"

text \<open>The loop from the last character to the first, with the characters written so far.\<close>

fun crockford_loop :: "nat \<Rightarrow> 64 word \<Rightarrow> 64 word \<Rightarrow> string \<Rightarrow> string" where
  "crockford_loop 0 hi lo out = out"
| "crockford_loop (Suc i) hi lo out =
     crockford_loop i (drop_bit 5 hi) (drop_bit 5 lo OR push_bit 59 hi) (crockford ! unat (lo AND 0x1f) # out)"

definition encodeCrockford :: "8 word list \<Rightarrow> string" where
  "encodeCrockford b =
     (let hi = BigEndian_Uint64 (take 8 b); lo = BigEndian_Uint64 (drop 8 b) in crockford_loop 26 hi lo [])"

definition NewULID :: "time \<Rightarrow> error + 8 word list \<Rightarrow> error + string" where
  "NewULID t rnd =
     (let ms = word_of_int (UnixMilli t) :: 64 word;
          b = [ucast (drop_bit 40 ms), ucast (drop_bit 32 ms), ucast (drop_bit 24 ms),
               ucast (drop_bit 16 ms), ucast (drop_bit 8 ms), ucast ms]
      in case rnd of Inl err \<Rightarrow> Inl err | Inr r \<Rightarrow> Inr (encodeCrockford (b @ r)))"

section \<open>The loop writes base-32 digits\<close>

fun digits32 :: "nat \<Rightarrow> int \<Rightarrow> nat list" where
  "digits32 0 v = []"
| "digits32 (Suc k) v = digits32 k (v div 32) @ [nat (v mod 32)]"

text \<open>The 128-bit number that two words stand for.\<close>

definition joined :: "64 word \<Rightarrow> 64 word \<Rightarrow> int" where
  "joined hi lo = concat_bit 64 (uint lo) (uint hi)"

lemma bit_joined: "bit (joined hi lo) n \<longleftrightarrow> (if n < 64 then bit lo n else bit hi (n - 64))"
  using bit_imp_le_length [of hi "n - 64"] by (auto simp: joined_def bit_concat_bit_iff bit_uint_iff)

lemma shift_joined: "joined (drop_bit 5 hi) (drop_bit 5 lo OR push_bit 59 hi) = joined hi lo div 32"
proof -
  have "joined (drop_bit 5 hi) (drop_bit 5 lo OR push_bit 59 hi) = drop_bit 5 (joined hi lo)"
  proof (rule bit_eqI)
    fix n
    show "bit (joined (drop_bit 5 hi) (drop_bit 5 lo OR push_bit 59 hi)) n \<longleftrightarrow> bit (drop_bit 5 (joined hi lo)) n"
      unfolding bit_joined bit_drop_bit_eq comp_def
      using bit_imp_le_length [of lo "n + 5"] bit_imp_le_length [of hi "n - 59"]
      by (auto simp: bit_joined bit_or_iff bit_drop_bit_eq bit_push_bit_iff add.commute)
  qed
  then show ?thesis by (simp add: drop_bit_eq_div)
qed

lemma low_digit: "unat (lo AND 0x1f) = nat (joined hi lo mod 32)"
proof -
  have "joined hi lo mod 32 = take_bit 5 (joined hi lo)" by (simp add: take_bit_eq_mod)
  also have "\<dots> = take_bit 5 (uint lo)" by (rule bit_eqI) (auto simp: bit_take_bit_iff bit_joined bit_uint_iff)
  also have "\<dots> = uint (take_bit 5 lo)" by (simp add: unsigned_take_bit_eq)
  also have "take_bit 5 lo = lo AND 0x1f" by (simp add: take_bit_eq_mask mask_numeral)
  finally show ?thesis by (simp only: unat_eq_nat_uint)
qed

lemma crockford_loop_digits:
  "crockford_loop k hi lo out = map (\<lambda>d. crockford ! d) (digits32 k (joined hi lo)) @ out"
proof (induction k arbitrary: hi lo out)
  case (Suc k)
  show ?case by (simp add: Suc.IH shift_joined low_digit [of lo hi])
qed simp

lemma joined_value: "joined hi lo = uint hi * 2 ^ 64 + uint lo"
proof -
  have "take_bit 64 (uint lo) = uint lo" using uint_lt2p [of lo] by (simp add: take_bit_int_eq_self)
  then show ?thesis by (simp add: joined_def concat_bit_eq push_bit_eq_mult)
qed

section \<open>The bytes as a number\<close>

lemma bytes_value_snoc: "bytes_value (xs @ [b]) = bytes_value xs * 256 + uint b"
  by (simp add: bytes_value_def)

lemma bytes_value_append: "bytes_value (xs @ ys) = bytes_value xs * 256 ^ length ys + bytes_value ys"
proof (induction ys rule: rev_induct)
  case (snoc y ys)
  then show ?case by (simp add: bytes_value_snoc algebra_simps flip: append_assoc)
qed (simp add: bytes_value_def)

lemma bytes_value_bounds: "0 \<le> bytes_value bs \<and> bytes_value bs < 256 ^ length bs"
proof (induction bs rule: rev_induct)
  case (snoc b bs)
  have "uint b < 256" using uint_lt2p [of b] by simp
  moreover have "0 \<le> uint b" by simp
  ultimately show ?case using snoc by (simp add: bytes_value_snoc)
qed (simp add: bytes_value_def)

lemma digit_split:
  "x < 256 \<Longrightarrow> y < 256 \<Longrightarrow> 0 \<le> x \<Longrightarrow> 0 \<le> y \<Longrightarrow> a * 256 + x = b * 256 + y \<longleftrightarrow> a = b \<and> x = (y :: int)"
  by (cases a b rule: linorder_cases) auto

lemma bytes_value_inject:
  "length xs = length ys \<Longrightarrow> bytes_value xs = bytes_value ys \<longleftrightarrow> xs = ys"
proof (induction xs ys rule: rev_induct2)
  case (4 x xs y ys)
  have "uint x < 256" "uint y < 256" "0 \<le> uint x" "0 \<le> uint y"
    using uint_lt2p [of x] uint_lt2p [of y] by simp_all
  then have "bytes_value xs * 256 + uint x = bytes_value ys * 256 + uint y
      \<longleftrightarrow> bytes_value xs = bytes_value ys \<and> uint x = uint y" by (rule digit_split)
  then show ?case using 4 by (simp add: bytes_value_snoc word_uint_eq_iff)
qed simp_all

lemma uint_BigEndian: "length bs = 8 \<Longrightarrow> uint (BigEndian_Uint64 bs) = bytes_value bs"
  using bytes_value_bounds [of bs] by (simp add: BigEndian_Uint64_def uint_word_of_int)

lemma encodeCrockford_digits:
  assumes "length b = 16"
  shows "encodeCrockford b = map (\<lambda>d. crockford ! d) (digits32 26 (bytes_value b))"
proof -
  have "joined (BigEndian_Uint64 (take 8 b)) (BigEndian_Uint64 (drop 8 b))
      = bytes_value (take 8 b) * 2 ^ 64 + bytes_value (drop 8 b)"
    using assms by (simp add: joined_value uint_BigEndian)
  also have "\<dots> = bytes_value (take 8 b @ drop 8 b)"
    using assms by (simp only: bytes_value_append) simp
  finally show ?thesis by (simp add: encodeCrockford_def Let_def crockford_loop_digits)
qed

section \<open>The order of the texts\<close>

lemma crockford_increasing: "sorted_wrt (<) crockford"
  by (simp add: crockford_def less_char_def)

lemma crockford_less: "d < e \<Longrightarrow> e < 32 \<Longrightarrow> crockford ! d < crockford ! e"
  by (rule sorted_wrt_nth_less [OF crockford_increasing]) (simp_all add: crockford_def)

lemma length_digits32 [simp]: "length (digits32 k v) = k"
  by (induction k arbitrary: v) simp_all

lemma digits32_less:
  assumes "0 \<le> v" and "v < w" and "w < 32 ^ k"
  shows "map (\<lambda>d. crockford ! d) (digits32 k v) < map (\<lambda>d. crockford ! d) (digits32 k w)"
  using assms
proof (induction k arbitrary: v w)
  case (Suc k)
  let ?c = "map (\<lambda>d. crockford ! d)"
  have w: "w div 32 < 32 ^ k" using Suc.prems by (simp add: div_less_iff_less_mult mult.commute)
  show ?case
  proof (cases "v div 32 < w div 32")
    case True
    have "?c (digits32 k (v div 32)) < ?c (digits32 k (w div 32))" using Suc.prems True w by (intro Suc.IH) simp_all
    then show ?thesis by (simp add: list_less_def lexord_sufI)
  next
    case False
    then have "v div 32 = w div 32" using zdiv_mono1 [of v w 32] Suc.prems by simp
    moreover from this have "v mod 32 < w mod 32"
      using Suc.prems div_mult_mod_eq [of v 32] div_mult_mod_eq [of w 32] by linarith
    moreover have "0 \<le> v mod 32" "w mod 32 < 32" by simp_all
    ultimately have "crockford ! nat (v mod 32) < crockford ! nat (w mod 32)"
      by (intro crockford_less) (simp_all add: nat_less_iff)
    then show ?thesis using \<open>v div 32 = w div 32\<close> by (simp add: list_less_def lexord_append_leftI)
  qed
qed simp

lemma encodeCrockford_less_iff:
  assumes "length b = 16" and "length c = 16"
  shows "encodeCrockford b < encodeCrockford c \<longleftrightarrow> bytes_value b < bytes_value c"
proof -
  have bounds: "0 \<le> bytes_value x \<and> bytes_value x < 32 ^ 26" if "length x = 16" for x
    using bytes_value_bounds [of x] that by simp
  have up: "encodeCrockford x < encodeCrockford y"
    if "bytes_value x < bytes_value y" "length x = 16" "length y = 16" for x y
    using that bounds [of x] bounds [of y] by (simp add: encodeCrockford_digits digits32_less)
  show ?thesis
  proof (cases "bytes_value b" "bytes_value c" rule: linorder_cases)
    case less
    then show ?thesis using up [of b c] assms by simp
  next
    case equal
    then show ?thesis using assms by (simp add: encodeCrockford_digits)
  next
    case greater
    then show ?thesis using up [of c b] assms by (simp add: not_less_iff_gr_or_eq)
  qed
qed

lemma encodeCrockford_inject:
  assumes "length b = 16" and "length c = 16"
  shows "encodeCrockford b = encodeCrockford c \<longleftrightarrow> b = c"
  using encodeCrockford_less_iff [OF assms] encodeCrockford_less_iff [OF assms(2,1)] assms bytes_value_inject [of b c]
  by (metis less_irrefl linorder_cases)

section \<open>The time stamp\<close>

definition stamp :: "time \<Rightarrow> 8 word list" where
  "stamp t = (let ms = word_of_int (UnixMilli t) :: 64 word in
     [ucast (drop_bit 40 ms), ucast (drop_bit 32 ms), ucast (drop_bit 24 ms),
      ucast (drop_bit 16 ms), ucast (drop_bit 8 ms), ucast ms])"

lemma NewULID_stamp: "NewULID t (Inr r) = Inr (encodeCrockford (stamp t @ r))"
  by (simp add: NewULID_def stamp_def Let_def)

lemma length_stamp [simp]: "length (stamp t) = 6"
  by (simp add: stamp_def Let_def)

lemma byte_of: "uint (ucast (drop_bit n (ms :: 64 word)) :: 8 word) = uint ms div 2 ^ n mod 256"
  using uint_lt2p [of ms] unfolding unsigned_ucast_eq unsigned_drop_bit_eq
  by (simp add: drop_bit_eq_div take_bit_eq_mod)

lemma next_byte:
  assumes "0 \<le> q"
  shows "v div (p * 256) mod q * 256 + v div p mod 256 = v div p mod (256 * q :: int)"
  using zmod_zmult2_eq [OF assms, of "v div p" 256] by (simp add: zdiv_zmult2_eq)

lemma six_bytes:
  "((((v div 2 ^ 40 mod 256 * 256 + v div 2 ^ 32 mod 256) * 256 + v div 2 ^ 24 mod 256) * 256 + v div 2 ^ 16 mod 256) * 256
     + v div 2 ^ 8 mod 256) * 256 + v div 2 ^ 0 mod 256 = v mod 2 ^ 48" for v :: int
  using next_byte [of 256 v "2 ^ 32"] next_byte [of "256 ^ 2" v "2 ^ 24"] next_byte [of "256 ^ 3" v "2 ^ 16"]
    next_byte [of "256 ^ 4" v "2 ^ 8"] next_byte [of "256 ^ 5" v 1]
  by simp

lemma bytes_value_stamp:
  assumes "0 \<le> UnixMilli t" and "UnixMilli t < 2 ^ 48"
  shows "bytes_value (stamp t) = UnixMilli t"
proof -
  have "uint (word_of_int (UnixMilli t) :: 64 word) = UnixMilli t" using assms by (simp add: uint_word_of_int)
  then have "bytes_value (stamp t) = UnixMilli t mod 2 ^ 48"
    unfolding six_bytes [symmetric] using byte_of [of 0 "word_of_int (UnixMilli t)"]
    by (simp only: stamp_def Let_def bytes_value_def byte_of foldl.simps drop_bit_0 id_apply) simp
  then show ?thesis using assms by simp
qed

section \<open>Property\<close>

text \<open>
  C38. Identifiers sort by creation time. For moments whose Unix milliseconds fit the 48 bits of the layout and ten random bytes
  each, both identifiers are produced, they have 26 characters, the earlier millisecond gives the smaller text, within one
  millisecond the random bytes decide as a big-endian number, and two identifiers coincide only when both the millisecond and the
  random bytes do. When the random source fails no identifier is produced.
\<close>

theorem ulid_order:
  assumes "0 \<le> UnixMilli t" and "UnixMilli t < 2 ^ 48" and "0 \<le> UnixMilli u" and "UnixMilli u < 2 ^ 48"
    and "length r = 10" and "length q = 10"
  shows "NewULID t (Inl err) = Inl err \<and>
    (\<exists>x y. NewULID t (Inr r) = Inr x \<and> NewULID u (Inr q) = Inr y \<and> length x = 26 \<and> length y = 26 \<and>
      (x < y \<longleftrightarrow> UnixMilli t < UnixMilli u \<or> UnixMilli t = UnixMilli u \<and> bytes_value r < bytes_value q) \<and>
      (x = y \<longleftrightarrow> UnixMilli t = UnixMilli u \<and> r = q))"
proof
  show "NewULID t (Inl err) = Inl err" by (simp add: NewULID_def)
next
  have len: "length (stamp t @ r) = 16" "length (stamp u @ q) = 16" using assms by simp_all
  have val: "bytes_value (stamp t @ r) = UnixMilli t * 2 ^ 80 + bytes_value r"
    "bytes_value (stamp u @ q) = UnixMilli u * 2 ^ 80 + bytes_value q"
    using assms by (simp_all add: bytes_value_append bytes_value_stamp)
  have low: "0 \<le> bytes_value r \<and> bytes_value r < 2 ^ 80" "0 \<le> bytes_value q \<and> bytes_value q < 2 ^ 80"
    using bytes_value_bounds [of r] bytes_value_bounds [of q] assms by simp_all
  have "encodeCrockford (stamp t @ r) < encodeCrockford (stamp u @ q)
      \<longleftrightarrow> UnixMilli t < UnixMilli u \<or> UnixMilli t = UnixMilli u \<and> bytes_value r < bytes_value q"
    unfolding encodeCrockford_less_iff [OF len] val using low
    by (cases "UnixMilli t" "UnixMilli u" rule: linorder_cases) auto
  moreover have "encodeCrockford (stamp t @ r) = encodeCrockford (stamp u @ q) \<longleftrightarrow> UnixMilli t = UnixMilli u \<and> r = q"
    unfolding encodeCrockford_inject [OF len]
    using bytes_value_inject [of "stamp t" "stamp u"] bytes_value_stamp assms by auto
  ultimately show "\<exists>x y. NewULID t (Inr r) = Inr x \<and> NewULID u (Inr q) = Inr y \<and> length x = 26 \<and> length y = 26 \<and>
      (x < y \<longleftrightarrow> UnixMilli t < UnixMilli u \<or> UnixMilli t = UnixMilli u \<and> bytes_value r < bytes_value q) \<and>
      (x = y \<longleftrightarrow> UnixMilli t = UnixMilli u \<and> r = q)"
    using len by (auto simp: NewULID_stamp encodeCrockford_digits)
qed

theorem ulid_order_witness:
  "\<exists>x y. NewULID (unixToInternal * 10 ^ 9) (Inr (replicate 10 255)) = Inr x \<and>
     NewULID ((unixToInternal + 1) * 10 ^ 9) (Inr (replicate 10 0)) = Inr y \<and> length x = 26 \<and> x < y"
proof -
  have "UnixMilli (unixToInternal * 10 ^ 9) = 0" "UnixMilli ((unixToInternal + 1) * 10 ^ 9) = 1000"
    by (simp_all add: UnixMilli_def unixToInternal_def wrap64_def)
  then show ?thesis
    using ulid_order [of "unixToInternal * 10 ^ 9" "(unixToInternal + 1) * 10 ^ 9" "replicate 10 255" "replicate 10 0" "''entropy''"]
    by auto
qed

end
