(* ===== verification/Go_Text.thy ===== *)
theory Go_Text
  imports Core_Finding
begin

text \<open>
  More of the text functions of Go's standard library that the outer components call: searching and trimming of package
  \<^verbatim>\<open>strings\<close>, and \<^verbatim>\<open>strconv.Quote\<close>, which the verb \<^verbatim>\<open>%q\<close> prints.
\<close>

section \<open>Searching\<close>

text \<open>\<^verbatim>\<open>strings.IndexAny\<close> for ASCII sets and \<^verbatim>\<open>strings.LastIndex\<close> of one byte, \<open>None\<close> for \<open>-1\<close>.\<close>

fun IndexAny :: "string \<Rightarrow> string \<Rightarrow> nat option" where
  "IndexAny [] cs = None"
| "IndexAny (c # s) cs = (if c \<in> set cs then Some 0 else map_option Suc (IndexAny s cs))"

fun LastIndexByte :: "string \<Rightarrow> char \<Rightarrow> nat option" where
  "LastIndexByte [] c = None"
| "LastIndexByte (a # s) c =
     (case LastIndexByte s c of Some i \<Rightarrow> Some (Suc i) | None \<Rightarrow> if a = c then Some 0 else None)"

text \<open>\<^verbatim>\<open>strings.TrimRight\<close> with one ASCII character as the cut set.\<close>

definition TrimRight :: "string \<Rightarrow> char \<Rightarrow> string" where
  "TrimRight s c = rev (dropWhile (\<lambda>x. x = c) (rev s))"

lemma IndexAny_append:
  "IndexAny (s @ t) cs = (case IndexAny s cs of Some i \<Rightarrow> Some i | None \<Rightarrow> map_option (\<lambda>i. i + length s) (IndexAny t cs))"
  by (induction s) (auto simp: option.map_comp option.map_ident comp_def split: option.splits)

lemma IndexAny_None: "IndexAny s cs = None \<longleftrightarrow> set s \<inter> set cs = {}"
  by (induction s) auto

lemma LastIndexByte_None: "LastIndexByte s c = None \<longleftrightarrow> c \<notin> set s"
  by (induction s) (auto split: option.splits)

lemma LastIndexByte_split: "c \<notin> set t \<Longrightarrow> LastIndexByte (s @ c # t) c = Some (length s)"
  by (induction s) (auto simp: LastIndexByte_None split: option.splits)

lemma Index_absent: "p \<noteq> [] \<Longrightarrow> hd p \<notin> set s \<Longrightarrow> Index s p = None"
  by (induction s) (auto simp: HasPrefix_def neq_Nil_conv)

lemma Index_prefix:
  "p \<noteq> [] \<Longrightarrow> hd p \<notin> set s \<Longrightarrow> Index (s @ p @ t) p = Some (length s)"
proof (induction s)
  case Nil
  then show ?case by (auto simp: HasPrefix_def neq_Nil_conv)
next
  case (Cons c s)
  then show ?case by (auto simp: HasPrefix_def neq_Nil_conv)
qed

section \<open>Quoting\<close>

text \<open>The code point of the encoding of a rune, and a number in hexadecimal with a fixed number of digits.\<close>

definition rune_code :: "string \<Rightarrow> nat" where
  "rune_code r = (case r of
      [a] \<Rightarrow> of_char a
    | [a, b] \<Rightarrow> (of_char a - 0xC0) * 64 + (of_char b - 0x80)
    | [a, b, c] \<Rightarrow> ((of_char a - 0xE0) * 64 + (of_char b - 0x80)) * 64 + (of_char c - 0x80)
    | [a, b, c, d] \<Rightarrow>
        (((of_char a - 0xF0) * 64 + (of_char b - 0x80)) * 64 + (of_char c - 0x80)) * 64 + (of_char d - 0x80)
    | _ \<Rightarrow> 0)"

fun hex_pad :: "nat \<Rightarrow> nat \<Rightarrow> string" where
  "hex_pad 0 n = []"
| "hex_pad (Suc k) n = hex_pad k (n div 16) @ [hex_digit (n mod 16)]"

abbreviation backslash :: char where "backslash \<equiv> CHR 0x5C"
abbreviation dquote :: char where "dquote \<equiv> CHR 0x22"

definition quote_byte :: "char \<Rightarrow> string" where
  "quote_byte c =
     (if c = dquote \<or> c = backslash then [backslash, c]
      else if 32 \<le> (of_char c :: nat) \<and> of_char c < (127 :: nat) then [c]
      else case map_of (zip [7, 8, 12, 10, 13, 9, 11] ''abfnrtv'') (of_char c :: nat) of
             Some e \<Rightarrow> [backslash, e]
           | None \<Rightarrow> [backslash, CHR ''x''] @ hex_pad 2 (of_char c))"

text \<open>The argument \<open>isprint\<close> is \<^verbatim>\<open>unicode.IsPrint\<close> on the encodings of non-ASCII runes.\<close>

definition quote_rune :: "(string \<Rightarrow> bool) \<Rightarrow> string \<Rightarrow> string" where
  "quote_rune isprint r =
     (if length r = 1 then quote_byte (hd r)
      else if isprint r then r
      else if rune_code r < 0x10000 then [backslash, CHR ''u''] @ hex_pad 4 (rune_code r)
      else [backslash, CHR ''U''] @ hex_pad 8 (rune_code r))"

function quote_runes :: "(string \<Rightarrow> bool) \<Rightarrow> string \<Rightarrow> string" where
  "quote_runes isprint [] = []"
| "quote_runes isprint (c # s) =
     (let n = rune_size (c # s) in
      if n = 0 then [backslash, CHR ''x''] @ hex_pad 2 (of_char c) @ quote_runes isprint s
      else quote_rune isprint (take n (c # s)) @ quote_runes isprint (drop n (c # s)))"
  by pat_completeness auto
termination
  by (relation "measure (\<lambda>(isprint, s). length s)") auto

declare quote_runes.simps(2) [simp del]

definition Quote :: "(string \<Rightarrow> bool) \<Rightarrow> string \<Rightarrow> string" where
  "Quote isprint s = [dquote] @ quote_runes isprint s @ [dquote]"

definition plain :: "char \<Rightarrow> bool" where
  "plain c \<longleftrightarrow> 32 \<le> (of_char c :: nat) \<and> of_char c < (127 :: nat) \<and> c \<noteq> dquote \<and> c \<noteq> backslash"

lemma Quote_plain: "list_all plain s \<Longrightarrow> Quote isprint s = [dquote] @ s @ [dquote]"
proof -
  have "quote_runes isprint s = s" if "list_all plain s"
    using that by (induction s)
      (simp_all add: quote_runes.simps(2) rune_size_def ascii_def plain_def Let_def quote_rune_def quote_byte_def)
  then show "list_all plain s \<Longrightarrow> ?thesis" by (simp add: Quote_def)
qed

end
