(* ===== verification/Verify_Domain.thy ===== *)
theory Verify_Domain
  imports Go_Text
begin

text \<open>
  Domain-ownership verification: the challenge, its texts, the normalisation of domains and the check of a proof
  (\<^verbatim>\<open>verify/verify.go\<close>), and the two stores of challenges (\<^verbatim>\<open>verify/memstore.go\<close>, \<^verbatim>\<open>store/verify_sqlite.go\<close>)
  behind the interface \<^verbatim>\<open>Store\<close>, which is the locale \<open>challenge_store\<close>.

  The random bytes of \<^verbatim>\<open>rand.Read\<close> and the two lookups of a \<^verbatim>\<open>Verifier\<close> are arguments; a lookup function gives the
  answers the network has while one call of \<^verbatim>\<open>Satisfied\<close> runs.
\<close>

section \<open>Challenges\<close>

abbreviation StatePending :: string where "StatePending \<equiv> ''pending''"
abbreviation StateVerified :: string where "StateVerified \<equiv> ''verified''"

definition MethodDNS :: string where "MethodDNS = ''dns''"
definition MethodHTTP :: string where "MethodHTTP = ''http''"

definition tokenPrefix :: string where "tokenPrefix = ''hexward-verify=''"
definition dnsLabel :: string where "dnsLabel = ''_hexward-verify''"
definition httpPath :: string where "httpPath = ''/.well-known/hexward-verify.txt''"
definition legacyTokenPrefix :: string where "legacyTokenPrefix = ''sentinel-verify=''"
definition legacyDNSLabel :: string where "legacyDNSLabel = ''_sentinel-verify''"
definition legacyHTTPPath :: string where "legacyHTTPPath = ''/.well-known/sentinel-verify.txt''"

record challenge =
  ch_Domain :: string
  ch_Token :: string
  ch_State :: string
  ch_CreatedAt :: time
  ch_VerifiedAt :: "time option"

definition DNSRecordName :: "challenge \<Rightarrow> string" where
  "DNSRecordName c = dnsLabel @ ''.'' @ ch_Domain c"

definition DNSRecordValue :: "challenge \<Rightarrow> string" where
  "DNSRecordValue c = tokenPrefix @ ch_Token c"

definition HTTPURL :: "challenge \<Rightarrow> string" where
  "HTTPURL c = ''http://'' @ ch_Domain c @ httpPath"

definition HTTPFileContents :: "challenge \<Rightarrow> string" where
  "HTTPFileContents c = tokenPrefix @ ch_Token c"

definition LegacyDNSRecordName :: "challenge \<Rightarrow> string" where
  "LegacyDNSRecordName c = legacyDNSLabel @ ''.'' @ ch_Domain c"

definition LegacyDNSRecordValue :: "challenge \<Rightarrow> string" where
  "LegacyDNSRecordValue c = legacyTokenPrefix @ ch_Token c"

definition LegacyHTTPURL :: "challenge \<Rightarrow> string" where
  "LegacyHTTPURL c = ''http://'' @ ch_Domain c @ legacyHTTPPath"

definition LegacyHTTPFileContents :: "challenge \<Rightarrow> string" where
  "LegacyHTTPFileContents c = legacyTokenPrefix @ ch_Token c"

definition Instructions :: "(string \<Rightarrow> bool) \<Rightarrow> challenge \<Rightarrow> string" where
  "Instructions isprint c =
     ''Verify ownership of '' @ ch_Domain c @ '' by EITHER:'' @ [CHR 0x0A] @
     ''  DNS  '' @ emdash @ '' add a TXT record at '' @ Quote isprint (DNSRecordName c) @ '' with value '' @
       Quote isprint (DNSRecordValue c) @ [CHR 0x0A] @
     ''  HTTP '' @ emdash @ '' serve '' @ Quote isprint (HTTPURL c) @ '' containing '' @
       Quote isprint (HTTPFileContents c) @ [CHR 0x0A] @
     ''Then it verifies automatically on the next scan.''"

definition normalizeDomain :: "(string \<Rightarrow> string) \<Rightarrow> string \<Rightarrow> string" where
  "normalizeDomain uni inp =
     (let s = TrimSpace (ToLower uni inp);
          s = (case Index s ''://'' of None \<Rightarrow> s | Some i \<Rightarrow> drop (i + 3) s);
          s = (case IndexAny s ''/?#'' of None \<Rightarrow> s | Some i \<Rightarrow> take i s);
          s = (case LastIndexByte s (CHR '':'') of None \<Rightarrow> s | Some i \<Rightarrow> if \<not> Contains s '']'' then take i s else s)
      in TrimSuffix s ''.'')"

definition NewChallenge ::
  "(string \<Rightarrow> string) \<Rightarrow> string \<Rightarrow> time \<Rightarrow> error + string \<Rightarrow> error + challenge" where
  "NewChallenge uni domain now rnd =
     (let d = normalizeDomain uni domain in
      if d = [] then Inl ''empty domain''
      else case rnd of
             Inl err \<Rightarrow> Inl err
           | Inr b \<Rightarrow> Inr \<lparr>ch_Domain = d, ch_Token = hex_EncodeToString b, ch_State = StatePending,
                          ch_CreatedAt = now, ch_VerifiedAt = None\<rparr>)"

section \<open>The verifier\<close>

record verifier =
  vf_LookupTXT :: "(string \<Rightarrow> error + string list) option"
  vf_FetchHTTP :: "(string \<Rightarrow> error + string) option"

fun dns_loop :: "(string \<Rightarrow> error + string list) \<Rightarrow> string list \<Rightarrow> string list \<Rightarrow> bool" where
  "dns_loop look want [] = False"
| "dns_loop look want (name # names) =
     (case look name of
        Inl _ \<Rightarrow> dns_loop look want names
      | Inr records \<Rightarrow> if list_ex (\<lambda>r. TrimSpace r \<in> set want) records then True else dns_loop look want names)"

fun http_loop :: "(string \<Rightarrow> error + string) \<Rightarrow> string list \<Rightarrow> string list \<Rightarrow> bool" where
  "http_loop fetch want [] = False"
| "http_loop fetch want (url # urls) =
     (case fetch url of
        Inl _ \<Rightarrow> http_loop fetch want urls
      | Inr body \<Rightarrow> if TrimSpace body \<in> set want then True else http_loop fetch want urls)"

definition Satisfied :: "verifier \<Rightarrow> challenge \<Rightarrow> bool \<times> string \<times> error option" where
  "Satisfied v c =
     (let wantDNS = [DNSRecordValue c, LegacyDNSRecordValue c];
          wantHTTP = [HTTPFileContents c, LegacyHTTPFileContents c]
      in if (case vf_LookupTXT v of None \<Rightarrow> False
             | Some look \<Rightarrow> dns_loop look wantDNS [DNSRecordName c, LegacyDNSRecordName c])
         then (True, MethodDNS, None)
         else if (case vf_FetchHTTP v of None \<Rightarrow> False
             | Some fetch \<Rightarrow> http_loop fetch wantHTTP [HTTPURL c, LegacyHTTPURL c])
         then (True, MethodHTTP, None)
         else (False, [], None))"

section \<open>The store interface\<close>

locale challenge_store =
  fixes Put :: "'s \<Rightarrow> string \<Rightarrow> challenge \<Rightarrow> error + 's"
    and Get :: "'s \<Rightarrow> string \<Rightarrow> string \<Rightarrow> error + challenge option"
    and Lst :: "'s \<Rightarrow> string \<Rightarrow> error + challenge list"
    and Delete :: "'s \<Rightarrow> string \<Rightarrow> string \<Rightarrow> error + 's"
    and view :: "'s \<Rightarrow> string \<Rightarrow> string \<Rightarrow> challenge option"
    and inv :: "'s \<Rightarrow> bool"
    and okm :: "string \<Rightarrow> bool"
  assumes put_law: "inv s \<Longrightarrow> okm m \<Longrightarrow> \<exists>s'. Put s m c = Inr s' \<and> inv s' \<and>
      (\<forall>m' d. okm m' \<longrightarrow> view s' m' d = (if m' = m \<and> d = ch_Domain c then Some c else view s m' d))"
    and delete_law: "inv s \<Longrightarrow> okm m \<Longrightarrow> \<exists>s'. Delete s m d = Inr s' \<and> inv s' \<and>
      (\<forall>m' d'. okm m' \<longrightarrow> view s' m' d' = (if m' = m \<and> d' = d then None else view s m' d'))"
    and get_law: "inv s \<Longrightarrow> okm m \<Longrightarrow> Get s m d = Inr (view s m d)"
    and list_law: "inv s \<Longrightarrow> okm m \<Longrightarrow> \<exists>cs. Lst s m = Inr cs \<and> distinct cs \<and> set cs = {c. view s m (ch_Domain c) = Some c}"

text \<open>Operations that change a store, and a run of them.\<close>

datatype vop = VPut string challenge | VDelete string string

fun vop_module :: "vop \<Rightarrow> string" where
  "vop_module (VPut m c) = m"
| "vop_module (VDelete m d) = m"

fun vop_step ::
  "('s \<Rightarrow> string \<Rightarrow> challenge \<Rightarrow> error + 's) \<Rightarrow> ('s \<Rightarrow> string \<Rightarrow> string \<Rightarrow> error + 's) \<Rightarrow> 's \<Rightarrow> vop \<Rightarrow> 's \<times> error option" where
  "vop_step put del s (VPut m c) = (case put s m c of Inl err \<Rightarrow> (s, Some err) | Inr s' \<Rightarrow> (s', None))"
| "vop_step put del s (VDelete m d) = (case del s m d of Inl err \<Rightarrow> (s, Some err) | Inr s' \<Rightarrow> (s', None))"

definition vop_run ::
  "('s \<Rightarrow> string \<Rightarrow> challenge \<Rightarrow> error + 's) \<Rightarrow> ('s \<Rightarrow> string \<Rightarrow> string \<Rightarrow> error + 's) \<Rightarrow> 's \<Rightarrow> vop list \<Rightarrow> 's \<times> error option" where
  "vop_run put del = go_for (vop_step put del)"

text \<open>The specification: the last operation on a module and domain decides.\<close>

fun vop_spec :: "(string \<Rightarrow> string \<Rightarrow> challenge option) \<Rightarrow> vop \<Rightarrow> string \<Rightarrow> string \<Rightarrow> challenge option" where
  "vop_spec f (VPut m c) m' d = (if m' = m \<and> d = ch_Domain c then Some c else f m' d)"
| "vop_spec f (VDelete m e) m' d = (if m' = m \<and> d = e then None else f m' d)"

lemma vop_spec_cong: "(\<And>d. f m d = g m d) \<Longrightarrow> vop_spec f x m d = vop_spec g x m d"
  by (cases x) auto

lemma vop_fold_cong: "(\<And>d. f m d = g m d) \<Longrightarrow> foldl vop_spec f ops m d = foldl vop_spec g ops m d"
proof (induction ops arbitrary: f g)
  case (Cons x ops)
  show ?case using Cons.IH [of "vop_spec f x" "vop_spec g x"] vop_spec_cong [of f m g x] Cons.prems by simp
qed simp

context challenge_store
begin

lemma step_law:
  assumes "inv s" and "okm (vop_module x)"
  shows "\<exists>s'. vop_step Put Delete s x = (s', None) \<and> inv s' \<and> (\<forall>m d. okm m \<longrightarrow> view s' m d = vop_spec (view s) x m d)"
proof (cases x)
  case (VPut m c)
  then obtain s' where "Put s m c = Inr s'" "inv s'"
      "\<forall>m' d. okm m' \<longrightarrow> view s' m' d = (if m' = m \<and> d = ch_Domain c then Some c else view s m' d)"
    using put_law [OF assms(1), of m c] assms(2) by auto
  then show ?thesis using VPut by simp
next
  case (VDelete m e)
  then obtain s' where "Delete s m e = Inr s'" "inv s'"
      "\<forall>m' d. okm m' \<longrightarrow> view s' m' d = (if m' = m \<and> d = e then None else view s m' d)"
    using delete_law [OF assms(1), of m e] assms(2) by auto
  then show ?thesis using VDelete by simp
qed

lemma run_law:
  assumes "inv s" and "list_all (\<lambda>x. okm (vop_module x)) ops"
  shows "\<exists>s'. vop_run Put Delete s ops = (s', None) \<and> inv s' \<and> (\<forall>m d. okm m \<longrightarrow> view s' m d = foldl vop_spec (view s) ops m d)"
  using assms
proof (induction ops arbitrary: s)
  case Nil
  then show ?case by (simp add: vop_run_def)
next
  case (Cons x ops)
  then obtain s1 where s1: "vop_step Put Delete s x = (s1, None)" "inv s1"
      "\<forall>m d. okm m \<longrightarrow> view s1 m d = vop_spec (view s) x m d"
    using step_law [of s x] by auto
  obtain s2 where s2: "vop_run Put Delete s1 ops = (s2, None)" "inv s2"
      "\<forall>m d. okm m \<longrightarrow> view s2 m d = foldl vop_spec (view s1) ops m d"
    using Cons.IH [OF s1(2)] Cons.prems(2) by auto
  have "view s2 m d = foldl vop_spec (view s) (x # ops) m d" if "okm m" for m d
    using s2(3) that vop_fold_cong [of "view s1" m "vop_spec (view s) x" ops d] s1(3) by simp
  then show ?case using s1(1) s2 by (auto simp: vop_run_def)
qed

text \<open>What a client reads after a run from a store without challenges.\<close>

lemma run_reads:
  assumes "inv s" and "\<forall>m d. okm m \<longrightarrow> view s m d = None" and "list_all (\<lambda>x. okm (vop_module x)) ops"
  shows "\<exists>s'. vop_run Put Delete s ops = (s', None) \<and> inv s' \<and>
    (\<forall>m d. okm m \<longrightarrow> Get s' m d = Inr (foldl vop_spec (\<lambda>_ _. None) ops m d)) \<and>
    (\<forall>m. okm m \<longrightarrow> (\<exists>cs. Lst s' m = Inr cs \<and> distinct cs \<and>
       set cs = {c. foldl vop_spec (\<lambda>_ _. None) ops m (ch_Domain c) = Some c}))"
proof -
  obtain s' where s': "vop_run Put Delete s ops = (s', None)" "inv s'"
      "\<forall>m d. okm m \<longrightarrow> view s' m d = foldl vop_spec (view s) ops m d"
    using run_law [OF assms(1,3)] by blast
  have v: "view s' m d = foldl vop_spec (\<lambda>_ _. None) ops m d" if "okm m" for m d
    using s'(3) that vop_fold_cong [of "view s" m "\<lambda>_ _. None" ops d] assms(2) by simp
  have "Get s' m d = Inr (foldl vop_spec (\<lambda>_ _. None) ops m d)" if "okm m" for m d
    using get_law [OF s'(2) that] v [OF that] by simp
  moreover have "\<exists>cs. Lst s' m = Inr cs \<and> distinct cs \<and> set cs = {c. foldl vop_spec (\<lambda>_ _. None) ops m (ch_Domain c) = Some c}"
    if "okm m" for m
    using list_law [OF s'(2) that] v [OF that] by simp
  ultimately show ?thesis using s'(1,2) by blast
qed

end

section \<open>The in-memory store\<close>

type_synonym vmem = "(string, challenge) gomap"

definition vm_key :: "string \<Rightarrow> string \<Rightarrow> string" where
  "vm_key mdl domain = mdl @ [CHR 0x00] @ domain"

definition vm_NewMemStore :: vmem where "vm_NewMemStore = []"

definition vm_Put :: "vmem \<Rightarrow> string \<Rightarrow> challenge \<Rightarrow> error + vmem" where
  "vm_Put s mdl c = Inr (gm_set (vm_key mdl (ch_Domain c)) c s)"

definition vm_Get :: "vmem \<Rightarrow> string \<Rightarrow> string \<Rightarrow> error + challenge option" where
  "vm_Get s mdl domain = Inr (gm_get s (vm_key mdl domain))"

definition vm_List :: "vmem \<Rightarrow> string \<Rightarrow> error + challenge list" where
  "vm_List s mdl = Inr (map snd (filter (\<lambda>(k, c). length k > length mdl \<and> take (length mdl) k = mdl \<and> k ! length mdl = CHR 0x00) s))"

definition vm_Delete :: "vmem \<Rightarrow> string \<Rightarrow> string \<Rightarrow> error + vmem" where
  "vm_Delete s mdl domain = Inr (gm_delete (vm_key mdl domain) s)"

definition vm_inv :: "vmem \<Rightarrow> bool" where
  "vm_inv s \<longleftrightarrow> gm_ok s \<and> (\<forall>k c. gm_get s k = Some c \<longrightarrow> (\<exists>m. nul_free m \<and> k = vm_key m (ch_Domain c)))"

definition vm_view :: "vmem \<Rightarrow> string \<Rightarrow> string \<Rightarrow> challenge option" where
  "vm_view s m d = gm_get s (vm_key m d)"

lemma vm_key_inj: "nul_free m \<Longrightarrow> nul_free m' \<Longrightarrow> vm_key m d = vm_key m' d' \<longleftrightarrow> m = m' \<and> d = d'"
  using split_at_first [of "CHR 0x00" m m' d d'] by (auto simp: nul_free_def vm_key_def)

lemma vm_key_match:
  "length k > length m \<and> take (length m) k = m \<and> k ! length m = CHR 0x00 \<longleftrightarrow> (\<exists>d. k = vm_key m d)"
proof
  assume *: "length k > length m \<and> take (length m) k = m \<and> k ! length m = CHR 0x00"
  then have "k = take (length m) k @ k ! length m # drop (Suc (length m)) k" by (metis id_take_nth_drop)
  with * show "\<exists>d. k = vm_key m d" by (metis append_Cons append_Nil vm_key_def)
qed (auto simp: vm_key_def)

lemma vm_list_law:
  assumes "vm_inv s" and "nul_free m"
  shows "\<exists>cs. vm_List s m = Inr cs \<and> distinct cs \<and> set cs = {c. vm_view s m (ch_Domain c) = Some c}"
proof -
  let ?es = "filter (\<lambda>(k, c). \<exists>d. k = vm_key m d) s"
  have ok: "gm_ok s" using assms(1) by (simp add: vm_inv_def)
  have key: "k = vm_key m (ch_Domain c)" if "(k, c) \<in> set ?es" for k c
  proof -
    from that obtain d where d: "k = vm_key m d" and "(k, c) \<in> set s" by auto
    then have "gm_get s k = Some c" using iffD1 [OF gm_ok_get_iff [OF ok]] by simp
    then obtain m' where "nul_free m'" "k = vm_key m' (ch_Domain c)" using assms(1) unfolding vm_inv_def by blast
    then show ?thesis using d vm_key_inj [OF assms(2)] by simp
  qed
  have "vm_List s m = Inr (map snd ?es)" by (simp add: vm_List_def vm_key_match)
  moreover have "inj_on snd (set ?es)" by (rule inj_onI) (metis key prod.collapse)
  then have "distinct (map snd ?es)" using ok by (simp add: distinct_map)
  moreover have "set (map snd ?es) = {c. vm_view s m (ch_Domain c) = Some c}"
  proof (intro equalityI subsetI)
    fix c assume "c \<in> set (map snd ?es)"
    then have "c \<in> snd ` set ?es" unfolding set_map .
    then obtain e where "e \<in> set ?es" "c = snd e" by (elim imageE)
    then have "(fst e, c) \<in> set ?es" by simp
    then have "(vm_key m (ch_Domain c), c) \<in> set s" using key by fastforce
    then show "c \<in> {c. vm_view s m (ch_Domain c) = Some c}"
      using iffD1 [OF gm_ok_get_iff [OF ok]] by (simp add: vm_view_def)
  next
    fix c assume "c \<in> {c. vm_view s m (ch_Domain c) = Some c}"
    then have "(vm_key m (ch_Domain c), c) \<in> set s" by (simp add: vm_view_def map_of_SomeD)
    then show "c \<in> set (map snd ?es)" by force
  qed
  ultimately show ?thesis by blast
qed

interpretation vm: challenge_store vm_Put vm_Get vm_List vm_Delete vm_view vm_inv nul_free
proof (unfold_locales, goal_cases)
  case (1 s m c)
  then show ?case
    by (auto simp: vm_Put_def vm_inv_def vm_view_def vm_key_inj)
next
  case (2 s m d)
  then show ?case
    by (auto simp: vm_Delete_def vm_inv_def vm_view_def vm_key_inj)
next
  case (3 s m d)
  then show ?case by (simp add: vm_Get_def vm_view_def)
next
  case (4 s m)
  then show ?case by (rule vm_list_law)
qed

section \<open>The SQLite store\<close>

record vrow =
  vr_module :: string
  vr_domain :: string
  vr_token :: string
  vr_state :: string
  vr_created_at :: time
  vr_verified_at :: "time option"

type_synonym vsql = "vrow list"

definition NewSQLiteVerifyStore :: vsql where "NewSQLiteVerifyStore = []"

definition challenge_row :: "string \<Rightarrow> challenge \<Rightarrow> vrow" where
  "challenge_row mdl c = \<lparr>vr_module = mdl, vr_domain = ch_Domain c, vr_token = ch_Token c, vr_state = ch_State c,
     vr_created_at = ch_CreatedAt c, vr_verified_at = ch_VerifiedAt c\<rparr>"

definition vr_at :: "string \<Rightarrow> string \<Rightarrow> vrow \<Rightarrow> bool" where
  "vr_at mdl domain x \<longleftrightarrow> vr_module x = mdl \<and> vr_domain x = domain"

definition vs_Put :: "vsql \<Rightarrow> string \<Rightarrow> challenge \<Rightarrow> error + vsql" where
  "vs_Put db mdl c =
     (let y = challenge_row mdl c in
      if list_ex (vr_at mdl (ch_Domain c)) db
      then Inr (map (\<lambda>x. if vr_at mdl (ch_Domain c) x
                  then x\<lparr>vr_token := vr_token y, vr_state := vr_state y, vr_created_at := vr_created_at y,
                         vr_verified_at := vr_verified_at y\<rparr> else x) db)
      else Inr (db @ [y]))"

definition scanChallenge :: "vrow \<Rightarrow> challenge" where
  "scanChallenge x = \<lparr>ch_Domain = vr_domain x, ch_Token = vr_token x, ch_State = vr_state x,
     ch_CreatedAt = vr_created_at x, ch_VerifiedAt = vr_verified_at x\<rparr>"

definition vs_Get :: "vsql \<Rightarrow> string \<Rightarrow> string \<Rightarrow> error + challenge option" where
  "vs_Get db mdl domain = Inr (map_option scanChallenge (find (vr_at mdl domain) db))"

definition vs_List :: "vsql \<Rightarrow> string \<Rightarrow> error + challenge list" where
  "vs_List db mdl = Inr (map scanChallenge (sort_key vr_domain (filter (\<lambda>x. vr_module x = mdl) db)))"

definition vs_Delete :: "vsql \<Rightarrow> string \<Rightarrow> string \<Rightarrow> error + vsql" where
  "vs_Delete db mdl domain = Inr (filter (\<lambda>x. \<not> vr_at mdl domain x) db)"

definition vs_inv :: "vsql \<Rightarrow> bool" where
  "vs_inv db \<longleftrightarrow> distinct (map (\<lambda>x. (vr_module x, vr_domain x)) db)"

definition vs_view :: "vsql \<Rightarrow> string \<Rightarrow> string \<Rightarrow> challenge option" where
  "vs_view db m d = map_option scanChallenge (find (vr_at m d) db)"

lemma scan_row: "scanChallenge (challenge_row m c) = c"
  by (simp add: scanChallenge_def challenge_row_def)

lemma vs_view_append: "vs_view (db @ [y]) m d = (case vs_view db m d of None \<Rightarrow> (if vr_at m d y then Some (scanChallenge y) else None) | Some c \<Rightarrow> Some c)"
  by (induction db) (auto simp: vs_view_def)

lemma vs_view_None: "vs_view db m d = None \<longleftrightarrow> \<not> list_ex (vr_at m d) db"
  by (induction db) (auto simp: vs_view_def)

lemma vs_view_map:
  assumes "\<And>x. vr_at m d (g x) = vr_at m d x"
  shows "vs_view (map g db) m d = map_option scanChallenge (map_option g (find (vr_at m d) db))"
  by (induction db) (auto simp: vs_view_def assms)

lemma vs_view_filter:
  "vs_view (filter (\<lambda>x. \<not> vr_at m d x) db) m' d' = (if m' = m \<and> d' = d then None else vs_view db m' d')"
  by (induction db) (auto simp: vs_view_def vr_at_def)

lemma vs_view_Some:
  assumes "vs_inv db"
  shows "vs_view db m (ch_Domain c) = Some c \<longleftrightarrow> (\<exists>x \<in> set db. vr_module x = m \<and> scanChallenge x = c)"
  using assms
proof (induction db)
  case (Cons y db)
  show ?case
  proof (cases "vr_at m (ch_Domain c) y")
    case True
    have "\<not> (vr_module x = m \<and> scanChallenge x = c)" if "x \<in> set db" for x
      using that True Cons.prems by (auto simp: vs_inv_def vr_at_def scanChallenge_def image_iff)
    then show ?thesis using True by (auto simp: vs_view_def vr_at_def)
  next
    case False
    then have "\<not> (vr_module y = m \<and> scanChallenge y = c)" by (auto simp: vr_at_def scanChallenge_def)
    then show ?thesis using False Cons.IH Cons.prems by (auto simp: vs_view_def vs_inv_def)
  qed
qed (simp add: vs_view_def)

lemma vs_Put_law:
  assumes "vs_inv db"
  shows "\<exists>db'. vs_Put db m c = Inr db' \<and> vs_inv db' \<and>
    (\<forall>m' d. vs_view db' m' d = (if m' = m \<and> d = ch_Domain c then Some c else vs_view db m' d))"
proof (cases "list_ex (vr_at m (ch_Domain c)) db")
  case True
  let ?g = "\<lambda>x. if vr_at m (ch_Domain c) x then x\<lparr>vr_token := vr_token (challenge_row m c), vr_state := vr_state (challenge_row m c),
    vr_created_at := vr_created_at (challenge_row m c), vr_verified_at := vr_verified_at (challenge_row m c)\<rparr> else x"
  have "vs_Put db m c = Inr (map ?g db)" using True by (simp add: vs_Put_def Let_def)
  moreover have "map (\<lambda>x. (vr_module x, vr_domain x)) (map ?g db) = map (\<lambda>x. (vr_module x, vr_domain x)) db" by simp
  then have "vs_inv (map ?g db)" using assms by (simp only: vs_inv_def)
  moreover have "vs_view (map ?g db) m' d = (if m' = m \<and> d = ch_Domain c then Some c else vs_view db m' d)" for m' d
  proof -
    have "vs_view (map ?g db) m' d = map_option (scanChallenge \<circ> ?g) (find (vr_at m' d) db)"
      by (subst vs_view_map) (simp_all add: vr_at_def option.map_comp)
    also have "\<dots> = (if m' = m \<and> d = ch_Domain c then Some c else vs_view db m' d)"
    proof (cases "find (vr_at m' d) db")
      case None
      then have "\<not> (m' = m \<and> d = ch_Domain c)" using True by (auto simp: find_None_iff list_ex_iff)
      then show ?thesis using None by (auto simp: vs_view_def)
    next
      case (Some x)
      then have "vr_at m' d x" by (auto simp: find_Some_iff)
      then show ?thesis using Some by (auto simp: vs_view_def vr_at_def scanChallenge_def challenge_row_def)
    qed
    finally show ?thesis .
  qed
  ultimately show ?thesis by blast
next
  case False
  then have new: "vs_view db m (ch_Domain c) = None" by (simp add: vs_view_None)
  have "vs_inv (db @ [challenge_row m c])"
    using assms False by (auto simp: vs_inv_def challenge_row_def list_ex_iff vr_at_def)
  moreover have "vs_view (db @ [challenge_row m c]) m' d = (if m' = m \<and> d = ch_Domain c then Some c else vs_view db m' d)" for m' d
    unfolding vs_view_append using new by (auto simp: scan_row vr_at_def challenge_row_def scanChallenge_def split: option.split)
  ultimately show ?thesis using False by (simp add: vs_Put_def Let_def)
qed

lemma vs_list_law:
  assumes "vs_inv db"
  shows "\<exists>cs. vs_List db m = Inr cs \<and> distinct cs \<and> set cs = {c. vs_view db m (ch_Domain c) = Some c}"
proof -
  let ?xs = "sort_key vr_domain (filter (\<lambda>x. vr_module x = m) db)"
  have "distinct db" using assms by (simp add: vs_inv_def distinct_map)
  moreover have "inj_on (\<lambda>x. (vr_module x, vr_domain x)) (set db)" using assms by (simp add: vs_inv_def distinct_map)
  then have "inj_on scanChallenge (set ?xs)" by (auto simp: inj_on_def scanChallenge_def)
  ultimately have "distinct (map scanChallenge ?xs)" by (simp add: distinct_map)
  moreover have "set (map scanChallenge ?xs) = {c. vs_view db m (ch_Domain c) = Some c}"
    unfolding vs_view_Some [OF assms] by auto
  ultimately show ?thesis by (simp add: vs_List_def)
qed

interpretation vs: challenge_store vs_Put vs_Get vs_List vs_Delete vs_view vs_inv nul_free
proof (unfold_locales, goal_cases)
  case (1 s m c)
  then show ?case using vs_Put_law by blast
next
  case (2 s m d)
  then show ?case by (auto simp: vs_Delete_def vs_inv_def vs_view_filter distinct_map inj_on_def)
next
  case (3 s m d)
  then show ?case by (simp add: vs_Get_def vs_view_def)
next
  case (4 s m)
  then show ?case using vs_list_law by blast
qed

lemma vs_List_sorted: "vs_List db m = Inr cs \<Longrightarrow> sorted (map ch_Domain cs)"
proof -
  have "map ch_Domain (map scanChallenge xs) = map vr_domain xs" for xs by (simp add: scanChallenge_def)
  then show "vs_List db m = Inr cs \<Longrightarrow> sorted (map ch_Domain cs)" by (auto simp: vs_List_def simp del: map_map)
qed

section \<open>Spellings of a domain\<close>

text \<open>A host name in lower case, and the parts a user may write around it.\<close>

definition host_char :: "char \<Rightarrow> bool" where
  "host_char c \<longleftrightarrow> c = CHR ''.'' \<or> c = CHR ''-'' \<or> byte_in 48 57 c \<or> byte_in 97 122 c"

definition host_ok :: "string \<Rightarrow> bool" where
  "host_ok h \<longleftrightarrow> h \<noteq> [] \<and> list_all host_char h \<and> last h \<noteq> CHR ''.''"

definition scheme_ok :: "string \<Rightarrow> bool" where
  "scheme_ok sch \<longleftrightarrow> sch = [] \<or> (\<exists>w. sch = w @ ''://'' \<and> w \<noteq> [] \<and> list_all (\<lambda>c. ascii c \<and> host_char (lower_byte c)) w)"

definition port_ok :: "string \<Rightarrow> bool" where
  "port_ok p \<longleftrightarrow> p = [] \<or> (\<exists>n. p = '':'' @ n \<and> list_all (byte_in 48 57) n)"

definition rest_ok :: "string \<Rightarrow> bool" where
  "rest_ok r \<longleftrightarrow> r = [] \<or> hd r \<in> set ''/?#'' \<and> list_all solid r"

lemma lower_byte_eq: "\<not> byte_in 97 122 d \<Longrightarrow> \<not> byte_in 65 90 d \<Longrightarrow> lower_byte c = d \<longleftrightarrow> c = d"
  by (auto simp: lower_byte_def byte_in_def)

lemma solid_lower: "solid c \<Longrightarrow> solid (lower_byte c)"
  by (simp add: solid_def lower_byte_def ascii_def)

lemma TrimSpace_all_solid: "list_all solid s \<Longrightarrow> TrimSpace s = s"
proof (cases "s = []")
  case False
  moreover assume "list_all solid s"
  ultimately show ?thesis using hd_in_set [OF False] last_in_set [OF False]
    by (intro TrimSpace_solid) (simp_all add: list_all_iff)
qed simp

lemma host_charD:
  assumes "host_char c"
  shows "solid c" and "c \<notin> set ''/?#:]''"
  using assms by (auto simp: host_char_def solid_def ascii_def byte_in_def)

lemma Index_lower: "Index (map lower_byte s) ''://'' = Index s ''://''"
proof -
  have *: "lower_byte c = CHR '':'' \<longleftrightarrow> c = CHR '':''" "lower_byte c = CHR ''/'' \<longleftrightarrow> c = CHR ''/''" for c
    by (simp_all add: lower_byte_eq byte_in_def)
  have pre: "HasPrefix (map lower_byte s) ''://'' \<longleftrightarrow> HasPrefix s ''://''" for s
    by (auto simp: HasPrefix_def take_map numeral_3_eq_3 * map_eq_Cons_conv)
  show ?thesis
  proof (induction s)
    case (Cons a s)
    show ?case using pre [of "a # s"] by (simp add: Cons.IH)
  qed simp
qed

lemma host_lower:
  assumes "map lower_byte u = h" and "list_all ascii u" and "list_all host_char h"
  shows "list_all solid u"
  using assms
proof (induction u arbitrary: h)
  case (Cons c u)
  then have "host_char (lower_byte c)" "ascii c" by auto
  then have "solid c" by (auto simp: host_char_def lower_byte_def solid_def byte_in_def split: if_splits)
  then show ?case using Cons by auto
qed simp

text \<open>The four cuts, on text that is in lower case and has no white space.\<close>

lemma cut_rest:
  assumes "set t \<inter> set ''/?#'' = {}" and "r = [] \<or> hd r \<in> set ''/?#''"
  shows "(case IndexAny (t @ r) ''/?#'' of None \<Rightarrow> t @ r | Some i \<Rightarrow> take i (t @ r)) = t"
proof -
  have none: "IndexAny t ''/?#'' = None" using assms(1) by (simp add: IndexAny_None)
  from assms(2) have "r = [] \<or> IndexAny r ''/?#'' = Some 0" by (cases r) auto
  then show ?thesis by (auto simp: IndexAny_append none)
qed

lemma cut_port:
  assumes "CHR '':'' \<notin> set t" and "CHR '']'' \<notin> set t" and "port_ok p"
  shows "(case LastIndexByte (t @ p) (CHR '':'') of None \<Rightarrow> t @ p
          | Some i \<Rightarrow> if \<not> Contains (t @ p) '']'' then take i (t @ p) else t @ p) = t"
proof (cases "p = []")
  case True
  then show ?thesis using assms(1) LastIndexByte_None [of t "CHR '':''"] by simp
next
  case False
  then obtain n where p: "p = CHR '':'' # n" and n: "list_all (byte_in 48 57) n" using assms(3) by (auto simp: port_ok_def)
  have "CHR '':'' \<notin> set n" "CHR '']'' \<notin> set n" using n by (auto simp: list_all_iff byte_in_def)
  then have "LastIndexByte (t @ p) (CHR '':'') = Some (length t)" "Index (t @ p) '']'' = None"
    using assms(2) by (auto simp: p LastIndexByte_split intro!: Index_absent)
  then show ?thesis by (simp add: Contains_def)
qed

lemma cut_dot:
  assumes "h \<noteq> []" and "last h \<noteq> CHR ''.''" and "dot \<in> {[], ''.''}"
  shows "TrimSuffix (h @ dot) ''.'' = h"
proof -
  from assms(1) obtain g c where "h = g @ [c]" by (cases h rule: rev_cases) auto
  then show ?thesis using assms(2,3) by (auto simp: TrimSuffix_def HasSuffix_def)
qed

lemma all_solid_lower: "list_all solid s \<Longrightarrow> list_all solid (map lower_byte s)"
  by (induction s) (simp_all add: solid_lower)

lemma digits_solid: "list_all (byte_in 48 57) n \<Longrightarrow> list_all solid n"
  by (erule list.pred_mono_strong) (simp add: byte_in_def solid_def ascii_def)

lemma cut_scheme:
  assumes "scheme_ok sch" and "sch = [] \<Longrightarrow> \<not> Contains t ''://''"
  shows "(let s = map lower_byte (sch @ t) in case Index s ''://'' of None \<Rightarrow> s | Some i \<Rightarrow> drop (i + 3) s) = map lower_byte t"
proof (cases "sch = []")
  case True
  then show ?thesis using assms(2) by (simp add: Let_def Index_lower Contains_def)
next
  case False
  then obtain w where w: "sch = w @ ''://''" "list_all (\<lambda>c. ascii c \<and> host_char (lower_byte c)) w"
    using assms(1) by (auto simp: scheme_ok_def)
  have low: "map lower_byte ''://'' = ''://''" by (simp add: lower_byte_def)
  have "CHR '':'' \<notin> set (map lower_byte w)" using w(2) host_charD(2) by (fastforce simp: list_all_iff)
  then have "Index (map lower_byte w @ ''://'' @ map lower_byte t) ''://'' = Some (length (map lower_byte w))"
    by (intro Index_prefix) simp_all
  then show ?thesis by (simp only: w(1) map_append low append_assoc Let_def option.case) simp
qed

lemma normalize_spelling:
  assumes "host_ok h" and "map lower_byte u = h" and "list_all ascii u" and "scheme_ok sch" and "dot \<in> {[], ''.''}"
    and "port_ok port" and "rest_ok rest" and "sch = [] \<Longrightarrow> \<not> Contains (u @ dot @ port @ rest) ''://''"
  shows "normalizeDomain uni (sch @ u @ dot @ port @ rest) = h"
proof -
  let ?s = "sch @ u @ dot @ port @ rest" and ?r = "map lower_byte rest"
  have h: "list_all host_char h" "h \<noteq> []" "last h \<noteq> CHR ''.''" using assms(1) by (auto simp: host_ok_def)
  have wsolid: "list_all solid w" if "list_all (\<lambda>c. ascii c \<and> host_char (lower_byte c)) w" for w
    using that by (auto simp: list_all_iff intro!: host_lower [of "[_]" "[_]", simplified])
  have "list_all solid sch" using assms(4) wsolid by (auto simp: scheme_ok_def solid_def ascii_def)
  moreover have "list_all solid u" by (rule host_lower [OF assms(2,3) h(1)])
  moreover have "list_all solid dot" "list_all solid rest" using assms(5,7) by (auto simp: rest_ok_def solid_def ascii_def)
  moreover have "list_all solid port" using assms(6) digits_solid by (auto simp: port_ok_def solid_def ascii_def)
  ultimately have solid: "list_all solid ?s" by simp
  then have "list_all ascii ?s" by (simp add: list_all_iff solid_def)
  moreover have "list_all solid (map lower_byte ?s)" by (rule all_solid_lower [OF solid])
  ultimately have trim: "TrimSpace (ToLower uni ?s) = map lower_byte ?s" using TrimSpace_all_solid by (metis ToLower_ascii)
  have digits: "map lower_byte n = n" if "list_all (byte_in 48 57) n" for n
    using that by (auto simp: list_all_iff byte_in_def lower_byte_def intro!: map_idI)
  have low: "map lower_byte dot = dot" "map lower_byte port = port"
    using assms(5,6) digits by (auto simp: port_ok_def lower_byte_def)
  have hset: "c \<notin> set ''/?#:]''" if "c \<in> set h" for c using h(1) that host_charD(2) by (auto simp: list_all_iff)
  have digit: "c \<notin> set n" if "list_all (byte_in 48 57) n" "\<not> byte_in 48 57 c" for c n using that by (auto simp: list_all_iff)
  have pset: "set port \<inter> set ''/?#'' = {}" using assms(6) digit by (auto simp: port_ok_def byte_in_def)
  have 1: "(case Index (map lower_byte ?s) ''://'' of None \<Rightarrow> map lower_byte ?s | Some i \<Rightarrow> drop (i + 3) (map lower_byte ?s))
      = (h @ dot @ port) @ ?r"
    using cut_scheme [OF assms(4,8)] by (simp only: Let_def map_append assms(2) low append_assoc)
  have "?r = [] \<or> hd ?r \<in> set ''/?#''" using assms(7) by (cases rest) (auto simp: rest_ok_def lower_byte_def)
  then have 2: "(case IndexAny ((h @ dot @ port) @ ?r) ''/?#'' of None \<Rightarrow> (h @ dot @ port) @ ?r
      | Some i \<Rightarrow> take i ((h @ dot @ port) @ ?r)) = (h @ dot) @ port"
    using hset pset assms(5) by (subst cut_rest) auto
  have 3: "(case LastIndexByte ((h @ dot) @ port) (CHR '':'') of None \<Rightarrow> (h @ dot) @ port
      | Some i \<Rightarrow> if \<not> Contains ((h @ dot) @ port) '']'' then take i ((h @ dot) @ port) else (h @ dot) @ port) = h @ dot"
    using hset assms(5,6) by (intro cut_port) auto
  show ?thesis unfolding normalizeDomain_def Let_def trim 1 2 3 by (rule cut_dot [OF h(2,3) assms(5)])
qed

section \<open>Proofs of ownership\<close>

lemma dns_loop_iff:
  "dns_loop look want names \<longleftrightarrow> (\<exists>name \<in> set names. \<exists>rs. look name = Inr rs \<and> (\<exists>r \<in> set rs. TrimSpace r \<in> set want))"
  by (induction names) (auto simp: list_ex_iff split: sum.splits)

lemma http_loop_iff:
  "http_loop fetch want urls \<longleftrightarrow> (\<exists>url \<in> set urls. \<exists>body. fetch url = Inr body \<and> TrimSpace body \<in> set want)"
  by (induction urls) (auto split: sum.splits)

lemma hex_solid: "list_all solid (hex_EncodeToString b)"
proof -
  have "solid (hex_digit n)" if "n < 16" for n
    using that by (auto simp: hex_digit_def solid_def ascii_def)
  then show ?thesis by (auto simp: hex_EncodeToString_def list_all_iff less_mult_imp_div_less of_char_less)
qed

lemma NewChallenge_fields:
  assumes "NewChallenge uni d now (Inr b) = Inr c"
  shows "ch_Domain c = normalizeDomain uni d" and "ch_Token c = hex_EncodeToString b" and "ch_State c = StatePending"
    and "ch_CreatedAt c = now" and "ch_VerifiedAt c = None"
  using assms by (auto simp: NewChallenge_def Let_def split: if_splits)

lemma value_trim:
  assumes "ch_Token c = hex_EncodeToString b"
  shows "TrimSpace (DNSRecordValue c) = DNSRecordValue c" and "TrimSpace (HTTPFileContents c) = HTTPFileContents c"
  using hex_solid [of b]
  by (auto simp: DNSRecordValue_def HTTPFileContents_def tokenPrefix_def assms solid_def ascii_def intro!: TrimSpace_all_solid)

text \<open>The texts that prove a challenge, and a network that only carries texts placed for another one.\<close>

definition proofs_of :: "challenge \<Rightarrow> string set" where
  "proofs_of c = {tokenPrefix @ ch_Token c, legacyTokenPrefix @ ch_Token c}"

definition carries_only :: "verifier \<Rightarrow> string set \<Rightarrow> bool" where
  "carries_only v texts \<longleftrightarrow>
     (\<forall>look name rs. vf_LookupTXT v = Some look \<longrightarrow> look name = Inr rs \<longrightarrow> TrimSpace ` set rs \<subseteq> texts) \<and>
     (\<forall>fetch url body. vf_FetchHTTP v = Some fetch \<longrightarrow> fetch url = Inr body \<longrightarrow> TrimSpace body \<in> texts)"

lemma Satisfied_foreign:
  assumes "carries_only v texts" and "fst (Satisfied v c)"
  shows "proofs_of c \<inter> texts \<noteq> {}"
proof -
  have want: "set [DNSRecordValue c, LegacyDNSRecordValue c] = proofs_of c" "set [HTTPFileContents c, LegacyHTTPFileContents c] = proofs_of c"
    by (auto simp: proofs_of_def DNSRecordValue_def LegacyDNSRecordValue_def HTTPFileContents_def LegacyHTTPFileContents_def)
  consider (dns) look where "vf_LookupTXT v = Some look"
      "dns_loop look [DNSRecordValue c, LegacyDNSRecordValue c] [DNSRecordName c, LegacyDNSRecordName c]"
    | (http) fetch where "vf_FetchHTTP v = Some fetch"
      "http_loop fetch [HTTPFileContents c, LegacyHTTPFileContents c] [HTTPURL c, LegacyHTTPURL c]"
    using assms(2) by (auto simp: Satisfied_def Let_def split: option.splits if_splits)
  then show ?thesis
  proof cases
    case dns
    then show ?thesis using assms(1) unfolding dns_loop_iff want carries_only_def by blast
  next
    case http
    then show ?thesis using assms(1) unfolding http_loop_iff want carries_only_def by blast
  qed
qed

lemma proofs_disjoint: "proofs_of c \<inter> proofs_of c' \<noteq> {} \<Longrightarrow> ch_Token c = ch_Token c'"
  by (auto simp: proofs_of_def tokenPrefix_def legacyTokenPrefix_def)

section \<open>Properties\<close>



text \<open>
  C39. Ownership proofs. A challenge is satisfied as soon as the TXT records of its DNS name contain the value of its instructions, or
  the file of its instructions is served, white space around the text being ignored; the check never fails with an error; and a network that
  only carries the proof texts of another challenge satisfies it only if both challenges were drawn from the same random bytes.
\<close>

theorem ownership_proof:
  assumes "NewChallenge uni d now (Inr b) = Inr c" and "NewChallenge uni d' now' (Inr b') = Inr c'"
  shows "(vf_LookupTXT v = Some look \<and> look (DNSRecordName c) = Inr rs \<and> DNSRecordValue c \<in> set rs
            \<longrightarrow> Satisfied v c = (True, MethodDNS, None)) \<and>
    (vf_FetchHTTP v = Some fetch \<and> fetch (HTTPURL c) = Inr body \<and> TrimSpace body = HTTPFileContents c \<longrightarrow> fst (Satisfied v c)) \<and>
    snd (snd (Satisfied v c)) = None \<and>
    (carries_only v (proofs_of c') \<and> fst (Satisfied v c) \<longrightarrow> b = b')"
proof (intro conjI impI)
  note c = NewChallenge_fields [OF assms(1)] and c' = NewChallenge_fields [OF assms(2)]
  show "Satisfied v c = (True, MethodDNS, None)"
    if "vf_LookupTXT v = Some look \<and> look (DNSRecordName c) = Inr rs \<and> DNSRecordValue c \<in> set rs"
  proof -
    have "dns_loop look [DNSRecordValue c, LegacyDNSRecordValue c] [DNSRecordName c, LegacyDNSRecordName c]"
      unfolding dns_loop_iff using that value_trim(1) [OF c(2)] by (metis list.set_intros(1))
    then show ?thesis using that by (simp add: Satisfied_def del: dns_loop.simps http_loop.simps)
  qed
  show "fst (Satisfied v c)"
    if "vf_FetchHTTP v = Some fetch \<and> fetch (HTTPURL c) = Inr body \<and> TrimSpace body = HTTPFileContents c"
  proof -
    have "http_loop fetch [HTTPFileContents c, LegacyHTTPFileContents c] [HTTPURL c, LegacyHTTPURL c]"
      unfolding http_loop_iff using that by (metis list.set_intros(1))
    then show ?thesis using that by (simp add: Satisfied_def del: dns_loop.simps http_loop.simps)
  qed
  show "snd (snd (Satisfied v c)) = None" by (simp add: Satisfied_def Let_def)
  show "b = b'" if "carries_only v (proofs_of c') \<and> fst (Satisfied v c)"
    using Satisfied_foreign [of v "proofs_of c'" c] proofs_disjoint [of c c'] that c(2) c'(2) hex_inj by metis
qed

definition sample_challenge :: challenge where
  "sample_challenge = \<lparr>ch_Domain = ''a.b'', ch_Token = hex_EncodeToString ''k'', ch_State = StatePending, ch_CreatedAt = 0, ch_VerifiedAt = None\<rparr>"

lemma sample_challenge_issued: "NewChallenge id ''a.b'' 0 (Inr ''k'') = Inr sample_challenge"
proof -
  have "normalizeDomain id ([] @ ''a.b'' @ [] @ [] @ []) = ''a.b''"
    by (rule normalize_spelling) (simp_all add: host_ok_def host_char_def byte_in_def lower_byte_def ascii_def scheme_ok_def port_ok_def
      rest_ok_def Contains_def HasPrefix_def)
  then show ?thesis by (simp add: NewChallenge_def sample_challenge_def)
qed

theorem ownership_proof_witness:
  "Satisfied \<lparr>vf_LookupTXT = Some (\<lambda>_. Inr [DNSRecordValue sample_challenge]), vf_FetchHTTP = None\<rparr> sample_challenge = (True, MethodDNS, None)"
  using ownership_proof [OF sample_challenge_issued sample_challenge_issued,
      of "\<lparr>vf_LookupTXT = Some (\<lambda>_. Inr [DNSRecordValue sample_challenge]), vf_FetchHTTP = None\<rparr>"
        "\<lambda>_. Inr [DNSRecordValue sample_challenge]" "[DNSRecordValue sample_challenge]"] by simp

text \<open>
  C40. The two stores of challenges behave alike. After any sequence of puts and deletes on modules whose names have no NUL byte, from empty
  stores, neither has failed, both return the same challenge for every module and domain, namely the one of the last put that no delete followed, and both
  list the same challenges of a module without repetition, the SQLite store in the order of the domains.
\<close>

theorem challenge_stores_agree:
  assumes "list_all (\<lambda>x. nul_free (vop_module x)) ops"
  shows "\<exists>s db. vop_run vm_Put vm_Delete vm_NewMemStore ops = (s, None) \<and> vop_run vs_Put vs_Delete NewSQLiteVerifyStore ops = (db, None) \<and>
    (\<forall>m d. nul_free m \<longrightarrow> vm_Get s m d = Inr (foldl vop_spec (\<lambda>_ _. None) ops m d) \<and> vs_Get db m d = vm_Get s m d) \<and>
    (\<forall>m. nul_free m \<longrightarrow> (\<exists>cs cs'. vm_List s m = Inr cs \<and> vs_List db m = Inr cs' \<and> mset cs = mset cs' \<and> distinct cs' \<and>
       sorted (map ch_Domain cs')))"
proof -
  obtain s where s: "vop_run vm_Put vm_Delete vm_NewMemStore ops = (s, None)"
      "\<forall>m d. nul_free m \<longrightarrow> vm_Get s m d = Inr (foldl vop_spec (\<lambda>_ _. None) ops m d)"
      "\<forall>m. nul_free m \<longrightarrow> (\<exists>cs. vm_List s m = Inr cs \<and> distinct cs \<and> set cs = {c. foldl vop_spec (\<lambda>_ _. None) ops m (ch_Domain c) = Some c})"
    using vm.run_reads [OF _ _ assms, of vm_NewMemStore] by (auto simp: vm_inv_def vm_view_def vm_NewMemStore_def)
  obtain db where db: "vop_run vs_Put vs_Delete NewSQLiteVerifyStore ops = (db, None)"
      "\<forall>m d. nul_free m \<longrightarrow> vs_Get db m d = Inr (foldl vop_spec (\<lambda>_ _. None) ops m d)"
      "\<forall>m. nul_free m \<longrightarrow> (\<exists>cs. vs_List db m = Inr cs \<and> distinct cs \<and> set cs = {c. foldl vop_spec (\<lambda>_ _. None) ops m (ch_Domain c) = Some c})"
    using vs.run_reads [OF _ _ assms, of NewSQLiteVerifyStore] by (auto simp: vs_inv_def vs_view_def NewSQLiteVerifyStore_def)
  have "\<exists>cs cs'. vm_List s m = Inr cs \<and> vs_List db m = Inr cs' \<and> mset cs = mset cs' \<and> distinct cs' \<and> sorted (map ch_Domain cs')"
    if "nul_free m" for m
  proof -
    obtain cs where cs: "vm_List s m = Inr cs" "distinct cs" "set cs = {c. foldl vop_spec (\<lambda>_ _. None) ops m (ch_Domain c) = Some c}"
      using s(3) \<open>nul_free m\<close> by blast
    obtain cs' where cs': "vs_List db m = Inr cs'" "distinct cs'" "set cs' = {c. foldl vop_spec (\<lambda>_ _. None) ops m (ch_Domain c) = Some c}"
      using db(3) \<open>nul_free m\<close> by blast
    have "mset cs = mset cs'" using cs(2,3) cs'(2,3) set_eq_iff_mset_eq_distinct by metis
    then show ?thesis using cs(1) cs'(1,2) vs_List_sorted [OF cs'(1)] by blast
  qed
  then show ?thesis using s(1,2) db(1,2) by simp
qed

theorem challenge_stores_agree_witness:
  "\<exists>s. vop_run vm_Put vm_Delete vm_NewMemStore [VPut ''m'' sample_challenge] = (s, None) \<and> vm_Get s ''m'' ''a.b'' = Inr (Some sample_challenge)"
proof -
  have "list_all (\<lambda>x. nul_free (vop_module x)) [VPut ''m'' sample_challenge]" "nul_free ''m''" by (simp_all add: nul_free_def)
  then show ?thesis using challenge_stores_agree [of "[VPut ''m'' sample_challenge]"] by (auto simp: sample_challenge_def)
qed

end
