(* ===== verification/Channels.thy ===== *)
theory Channels
  imports Notify Go_Text
begin

text \<open>
  The channels that deliver digests: the shared text (\<^verbatim>\<open>notify/format.go\<close>), webhook, Slack, Telegram and syslog
  (\<^verbatim>\<open>notify/channels.go\<close>), and the Hexward Finding Schema channel (\<^verbatim>\<open>notify/hfs.go\<close>, \<^verbatim>\<open>hfsbridge/hfsbridge.go\<close>).

  The network is an argument: \<open>hc_new\<close> is the error of \<^verbatim>\<open>http.NewRequestWithContext\<close> for a URL, \<open>hc_do\<close> the answer of
  \<^verbatim>\<open>httpClient.Do\<close>, a dialled connection is the list of frames written to it. The JSON encoder and the package \<^verbatim>\<open>hfs\<close> of
  the module hexward-core, which is not part of the repository, are arguments too. UTF-8 literals are written as bytes.
\<close>

section \<open>The shared text\<close>

definition newline :: string where "newline = [CHR 0x0A]"
definition arrow :: string where "arrow = [CHR 0xE2, CHR 0x86, CHR 0x92]"
definition bullet :: string where "bullet = [CHR 0xE2, CHR 0x80, CHR 0xA2]"
definition check_mark :: string where "check_mark = [CHR 0xE2, CHR 0x9C, CHR 0x85]"
definition ellipsis :: string where "ellipsis = [CHR 0xE2, CHR 0x80, CHR 0xA6]"

definition severityBadge :: "severity \<Rightarrow> string" where
  "severityBadge s =
     (if s = SeverityCritical then [CHR 0xF0, CHR 0x9F, CHR 0x9F, CHR 0xA5] @ '' CRITICAL''
      else if s = SeverityHigh then [CHR 0xF0, CHR 0x9F, CHR 0x9F, CHR 0xA7] @ '' HIGH''
      else if s = SeverityMedium then [CHR 0xF0, CHR 0x9F, CHR 0x9F, CHR 0xA8] @ '' MEDIUM''
      else if s = SeverityLow then [CHR 0xF0, CHR 0x9F, CHR 0x9F, CHR 0xA6] @ '' LOW''
      else [CHR 0xE2, CHR 0xAC, CHR 0x9C] @ '' INFO'')"

definition productName :: "string \<Rightarrow> string" where
  "productName m =
     (if m = ''certwatch'' then ''CertWatch''
      else if m = ''asm'' then ''Attack Surface Monitor''
      else if m = ''decoy'' then ''Decoy''
      else if m = ''patchlight'' then ''Patchlight''
      else if m = ''rulehawk'' then ''RuleHawk''
      else if m = ''dmarcwatch'' then ''DmarcWatch''
      else m)"

definition opened_text :: "finding \<Rightarrow> string" where
  "opened_text f = newline @ severityBadge (f_Severity f) @ '' '' @ f_Target f @ newline @ ''  '' @ f_Title f @ newline @
     ''  '' @ arrow @ '' '' @ f_Remediation f @ newline"

definition resolved_text :: "finding \<Rightarrow> string" where
  "resolved_text f = ''  '' @ bullet @ '' '' @ f_Target f @ '' '' @ emdash @ '' '' @ f_Title f @ newline"

definition FormatText :: "digest \<Rightarrow> string" where
  "FormatText d =
     (let b = (if dg_Opened d \<noteq> []
               then productName (dg_Module d) @ '' '' @ emdash @ '' '' @ itoa (int (length (dg_Opened d))) @ '' new finding(s)'' @ newline @
                 concat (map opened_text (dg_Opened d))
               else []);
          b = (if dg_Resolved d \<noteq> []
               then b @ (if b \<noteq> [] then newline else []) @ check_mark @ '' '' @ itoa (int (length (dg_Resolved d))) @ '' finding(s) resolved'' @ newline @
                 concat (map resolved_text (dg_Resolved d))
               else b)
      in TrimRight b (CHR 0x0A))"

section \<open>HTTP channels\<close>

record http_request =
  rq_URL :: string
  rq_Header :: "(string, string) gomap"
  rq_Body :: string

record http_response =
  hr_StatusCode :: int
  hr_Status :: string

record http_client =
  hc_new :: "string \<Rightarrow> error option"
  hc_do :: "http_request \<Rightarrow> error + http_response"

text \<open>Sending a body and judging the answer, the part that the three channels share. A missing result is success.\<close>

definition post :: "http_client \<Rightarrow> string \<Rightarrow> string \<Rightarrow> (string, string) gomap \<Rightarrow> error + string \<Rightarrow> http_request list \<times> error option" where
  "post hc who url headers body =
     (case body of
        Inl err \<Rightarrow> ([], Some err)
      | Inr b \<Rightarrow>
          (case hc_new hc url of
             Some err \<Rightarrow> ([], Some err)
           | None \<Rightarrow>
               (let rq = \<lparr>rq_URL = url, rq_Header = headers, rq_Body = b\<rparr> in
                case hc_do hc rq of
                  Inl err \<Rightarrow> ([rq], Some err)
                | Inr resp \<Rightarrow>
                    if hr_StatusCode resp < 200 \<or> hr_StatusCode resp > 299 then ([rq], Some (who @ '' returned '' @ hr_Status resp))
                    else ([rq], None))))"

record webhook_finding =
  wf_Target :: string
  wf_Check :: string
  wf_Severity :: string
  wf_Title :: string
  wf_Remediation :: string
  wf_Evidence :: evidence

record webhook_payload =
  wp_Version :: int
  wp_Module :: string
  wp_At :: time
  wp_Opened :: "webhook_finding list"
  wp_Resolved :: "webhook_finding list"

record webhook_channel =
  wc_URL :: string
  wc_Secret :: string

definition toWire :: "finding \<Rightarrow> webhook_finding" where
  "toWire f = \<lparr>wf_Target = f_Target f, wf_Check = f_Check f, wf_Severity = f_Severity f, wf_Title = f_Title f,
     wf_Remediation = f_Remediation f, wf_Evidence = f_Evidence f\<rparr>"

definition webhook_body :: "digest \<Rightarrow> webhook_payload" where
  "webhook_body d = \<lparr>wp_Version = 1, wp_Module = dg_Module d, wp_At = dg_At d,
     wp_Opened = map toWire (dg_Opened d), wp_Resolved = map toWire (dg_Resolved d)\<rparr>"

definition webhook_headers :: "webhook_channel \<Rightarrow> (string, string) gomap" where
  "webhook_headers w =
     (let h = gm_set ''Content-Type'' ''application/json'' [] in
      if wc_Secret w \<noteq> [] then gm_set ''X-Sentinel-Token'' (wc_Secret w) (gm_set ''X-Hexward-Token'' (wc_Secret w) h) else h)"

definition webhook_Send ::
  "http_client \<Rightarrow> (webhook_payload \<Rightarrow> error + string) \<Rightarrow> webhook_channel \<Rightarrow> digest \<Rightarrow> http_request list \<times> error option" where
  "webhook_Send hc marshal w d = post hc ''webhook'' (wc_URL w) (webhook_headers w) (marshal (webhook_body d))"

type_synonym json_strings = "(string, string) gomap \<Rightarrow> error + string"

definition slack_Send :: "http_client \<Rightarrow> json_strings \<Rightarrow> string \<Rightarrow> digest \<Rightarrow> http_request list \<times> error option" where
  "slack_Send hc marshal webhookURL d =
     post hc ''slack'' webhookURL [(''Content-Type'', ''application/json'')] (marshal [(''text'', FormatText d)])"

record telegram_channel =
  tc_BotToken :: string
  tc_ChatID :: string
  tc_BaseURL :: string

definition telegram_Send :: "http_client \<Rightarrow> json_strings \<Rightarrow> telegram_channel \<Rightarrow> digest \<Rightarrow> http_request list \<times> error option" where
  "telegram_Send hc marshal t d =
     (let base = (if tc_BaseURL t = [] then ''https://api.telegram.org'' else tc_BaseURL t);
          url = base @ ''/bot'' @ tc_BotToken t @ ''/sendMessage''
      in post hc ''telegram'' url [(''Content-Type'', ''application/json'')]
           (marshal [(''chat_id'', tc_ChatID t), (''text'', FormatText d)]))"

section \<open>The contract of a channel over HTTP\<close>

text \<open>
  What the dispatcher may rely on: a channel makes at most one request for a digest, always the same one, and it reports success exactly when
  that request was answered with a status of the 200s. The dispatcher's retries are judged on these laws alone; \<open>hcs k\<close> is the network at
  attempt \<open>k\<close>.
\<close>

definition answered :: "http_client \<Rightarrow> http_request \<Rightarrow> bool" where
  "answered hc rq \<longleftrightarrow> hc_new hc (rq_URL rq) = None \<and>
     (case hc_do hc rq of Inl _ \<Rightarrow> False | Inr resp \<Rightarrow> 200 \<le> hr_StatusCode resp \<and> hr_StatusCode resp \<le> 299)"

locale http_channel =
  fixes send :: "http_client \<Rightarrow> digest \<Rightarrow> http_request list \<times> error option"
    and request :: "digest \<Rightarrow> error + http_request"
  assumes sends_one: "fst (send hc d) = [] \<or> (\<exists>rq. request d = Inr rq \<and> fst (send hc d) = [rq])"
    and success_law: "snd (send hc d) = None \<longleftrightarrow> (\<exists>rq. request d = Inr rq \<and> fst (send hc d) = [rq] \<and> answered hc rq)"
begin

text \<open>Delivery with retries: nothing but the digest's request is sent, at most once per attempt, and success means that the last attempt and no earlier one was answered.\<close>

lemma delivered:
  assumes "sendWithRetry cfg (\<lambda>k. snd (send (hcs k) d)) = (n, None)" and "0 < nc_Retries cfg"
  shows "\<exists>rq k. n = Suc k \<and> k < nat (nc_Retries cfg) \<and> request d = Inr rq \<and> fst (send (hcs k) d) = [rq] \<and> answered (hcs k) rq \<and>
    (\<forall>j < k. \<not> (fst (send (hcs j) d) = [rq] \<and> answered (hcs j) rq)) \<and> (\<forall>j. fst (send (hcs j) d) \<in> {[], [rq]})"
proof -
  let ?send = "\<lambda>k. snd (send (hcs k) d)"
  obtain k where k: "find (\<lambda>k. ?send k = None) [0..<nat (nc_Retries cfg)] = Some k" "n = Suc k"
  proof (cases "find (\<lambda>k. ?send k = None) [0..<nat (nc_Retries cfg)]")
    case None
    then have "?send (nat (nc_Retries cfg) - 1) \<noteq> None" using assms(2) by (auto simp: find_None_iff)
    then show ?thesis using assms delivery_attempts [of cfg ?send] None by auto
  next
    case (Some k)
    then show ?thesis using that assms(1) delivery_attempts [of cfg ?send] by simp
  qed
  then have ok: "k < nat (nc_Retries cfg)" "?send k = None" "\<forall>j < k. ?send j \<noteq> None" by (auto simp: find_Some_iff)
  then obtain rq where rq: "request d = Inr rq" "fst (send (hcs k) d) = [rq]" "answered (hcs k) rq" using success_law by blast
  have "\<not> (fst (send (hcs j) d) = [rq] \<and> answered (hcs j) rq)" if "j < k" for j
    using ok(3) that success_law [of "hcs j" d] rq(1) by blast
  moreover have "fst (send (hcs j) d) \<in> {[], [rq]}" for j using sends_one [of "hcs j" d] rq(1) by auto
  ultimately show ?thesis using ok(1) rq k(2) by blast
qed

end

definition http_body :: "string \<Rightarrow> (string, string) gomap \<Rightarrow> error + string \<Rightarrow> error + http_request" where
  "http_body url headers body = map_sum id (\<lambda>b. \<lparr>rq_URL = url, rq_Header = headers, rq_Body = b\<rparr>) body"

lemma post_contract:
  "fst (post hc who url h body) = [] \<or> (\<exists>rq. http_body url h body = Inr rq \<and> fst (post hc who url h body) = [rq])"
  "snd (post hc who url h body) = None \<longleftrightarrow> (\<exists>rq. http_body url h body = Inr rq \<and> fst (post hc who url h body) = [rq] \<and> answered hc rq)"
  by (auto simp: post_def http_body_def answered_def Let_def split: sum.splits option.splits)

interpretation webhook: http_channel "\<lambda>hc. webhook_Send hc mar w" "\<lambda>d. http_body (wc_URL w) (webhook_headers w) (mar (webhook_body d))"
  unfolding webhook_Send_def by unfold_locales (rule post_contract)+

definition telegram_url :: "telegram_channel \<Rightarrow> string" where
  "telegram_url t = (if tc_BaseURL t = [] then ''https://api.telegram.org'' else tc_BaseURL t) @ ''/bot'' @ tc_BotToken t @ ''/sendMessage''"

interpretation slack: http_channel "\<lambda>hc. slack_Send hc mar url" "\<lambda>d. http_body url [(''Content-Type'', ''application/json'')] (mar [(''text'', FormatText d)])"
  unfolding slack_Send_def by unfold_locales (rule post_contract)+

interpretation telegram: http_channel "\<lambda>hc. telegram_Send hc mar t"
  "\<lambda>d. http_body (telegram_url t) [(''Content-Type'', ''application/json'')] (mar [(''chat_id'', tc_ChatID t), (''text'', FormatText d)])"
  unfolding telegram_Send_def telegram_url_def Let_def by unfold_locales (rule post_contract)+

section \<open>Syslog\<close>

record syslog_channel =
  sy_Addr :: string
  sy_Network :: string
  sy_Hostname :: string
  sy_Tag :: string
  sy_Facility :: int

text \<open>What the channel asks the system: host name, process id, the clock and the local offset from UTC.\<close>

record sys_env =
  sv_Hostname :: "error + string"
  sv_Getpid :: int
  sv_Now :: time
  sv_Offset :: "time \<Rightarrow> duration"

definition months :: "string list" where
  "months = [''Jan'', ''Feb'', ''Mar'', ''Apr'', ''May'', ''Jun'', ''Jul'', ''Aug'', ''Sep'', ''Oct'', ''Nov'', ''Dec'']"

text \<open>The layout \<^verbatim>\<open>time.Stamp\<close>; \<^verbatim>\<open>Month.String\<close> is total.\<close>

definition stamp_month :: "int \<Rightarrow> string" where
  "stamp_month m = (if 1 \<le> m \<and> m \<le> 12 then months ! nat (m - 1) else ''%!Month('' @ itoa m @ '')'')"

definition format_Stamp :: "time \<Rightarrow> string" where
  "format_Stamp t =
     (let s = t div 10 ^ 9 mod 86400 in
      case civil t of (y, m, d) \<Rightarrow>
        take 3 (stamp_month m) @ '' '' @ (if d < 10 then '' '' else []) @ itoa d @ '' '' @
        pad 2 (s div 3600) @ '':'' @ pad 2 (s div 60 mod 60) @ '':'' @ pad 2 (s mod 60))"

definition sanitizeSyslog :: "string \<Rightarrow> string" where
  "sanitizeSyslog s =
     (let s = strings_Map (\<lambda>r. if r = [CHR 0x0A] \<or> r = [CHR 0x0D] \<or> r = [CHR 0x00] then '' '' else r) s in
      if length s > 1600 then take 1600 s @ ellipsis else s)"

definition syslogSeverity :: "(string \<Rightarrow> string) \<Rightarrow> string \<Rightarrow> int" where
  "syslogSeverity uni sev =
     (let s = ToLower uni sev in
      if s = ''critical'' then 2 else if s = ''high'' then 3 else if s = ''medium'' then 4 else if s = ''low'' then 5 else 6)"

fun evidence_ip_loop :: "(string \<Rightarrow> bool) \<Rightarrow> (string \<times> gany) list \<Rightarrow> string list \<Rightarrow> string" where
  "evidence_ip_loop isIP ev [] = []"
| "evidence_ip_loop isIP ev (key # keys) =
     (case gm_get ev key of
        Some (GStr s) \<Rightarrow> if isIP (TrimSpace s) then TrimSpace s else evidence_ip_loop isIP ev keys
      | _ \<Rightarrow> evidence_ip_loop isIP ev keys)"

text \<open>\<open>isIP\<close> tells the texts \<^verbatim>\<open>net.ParseIP\<close> accepts; a nil map has no keys.\<close>

definition evidenceIP :: "(string \<Rightarrow> bool) \<Rightarrow> evidence \<Rightarrow> string" where
  "evidenceIP isIP ev = evidence_ip_loop isIP (case ev of None \<Rightarrow> [] | Some m \<Rightarrow> m)
     [''source_ip'', ''src_ip'', ''src'', ''actor'', ''client_ip'', ''ip'']"

definition statusWord :: "bool \<Rightarrow> string" where
  "statusWord resolved = (if resolved then ''resolved'' else ''open'')"

definition syslogMessage :: "(string \<Rightarrow> bool) \<Rightarrow> string \<Rightarrow> finding \<Rightarrow> bool \<Rightarrow> string" where
  "syslogMessage isIP mdl f resolved =
     (let b = (if resolved then ''RESOLVED: '' else []) @ f_Title f @
            '' | product='' @ mdl @ '' severity='' @ f_Severity f @ '' check='' @ f_Check f @ '' target='' @ f_Target f @
            '' status='' @ statusWord resolved;
          ip = evidenceIP isIP (f_Evidence f)
      in sanitizeSyslog (if ip \<noteq> [] then b @ '' src='' @ ip else b))"

definition syslog_host :: "sys_env \<Rightarrow> syslog_channel \<Rightarrow> string" where
  "syslog_host env s =
     (if sy_Hostname s \<noteq> [] then sy_Hostname s
      else case sv_Hostname env of Inl _ \<Rightarrow> ''-'' | Inr h \<Rightarrow> if h \<noteq> [] then h else ''-'')"

definition syslog_tag :: "syslog_channel \<Rightarrow> digest \<Rightarrow> string" where
  "syslog_tag s d = (if sy_Tag s = [] then dg_Module d else sy_Tag s)"

definition syslog_facility :: "syslog_channel \<Rightarrow> int" where
  "syslog_facility s = (if sy_Facility s = 0 then 16 else sy_Facility s)"

text \<open>One frame; the priority is computed in 64 bits.\<close>

definition syslog_line :: "int \<Rightarrow> string \<Rightarrow> string \<Rightarrow> string \<Rightarrow> int \<Rightarrow> string \<Rightarrow> string" where
  "syslog_line pri ts host tag pid msg =
     ''<'' @ itoa pri @ ''>'' @ ts @ '' '' @ host @ '' '' @ tag @ ''['' @ itoa pid @ '']: '' @ msg @ newline"

definition syslog_lines :: "(string \<Rightarrow> string) \<Rightarrow> (string \<Rightarrow> bool) \<Rightarrow> sys_env \<Rightarrow> syslog_channel \<Rightarrow> digest \<Rightarrow> string list" where
  "syslog_lines uni isIP env s d =
     (let host = syslog_host env s; tag = syslog_tag s d; facility = syslog_facility s;
          moment = (if IsZero (dg_At d) then sv_Now env else dg_At d);
          ts = format_Stamp (moment + sv_Offset env moment);
          pid = sv_Getpid env
      in map (\<lambda>f. syslog_line (wrap64 (wrap64 (facility * 8) + syslogSeverity uni (f_Severity f))) ts host tag pid
                (syslogMessage isIP (dg_Module d) f False)) (dg_Opened d) @
         map (\<lambda>f. syslog_line (wrap64 (wrap64 (facility * 8) + 5)) ts host tag pid
                (syslogMessage isIP (dg_Module d) f True)) (dg_Resolved d))"

text \<open>
  \<open>dial\<close> is the error of dialling a network and address; \<open>wr k\<close> is the error of the \<open>k\<close>-th write. The result is the text that reached the
  connection and the error returned.
\<close>

fun write_lines :: "(nat \<Rightarrow> error option) \<Rightarrow> nat \<Rightarrow> string list \<Rightarrow> string list \<times> error option" where
  "write_lines wr k [] = ([], None)"
| "write_lines wr k (l # ls) =
     (case wr k of
        Some err \<Rightarrow> ([], Some err)
      | None \<Rightarrow> (case write_lines wr (Suc k) ls of (out, r) \<Rightarrow> (l # out, r)))"

definition syslog_Send ::
  "(string \<Rightarrow> string) \<Rightarrow> (string \<Rightarrow> bool) \<Rightarrow> sys_env \<Rightarrow> (string \<Rightarrow> string \<Rightarrow> error option) \<Rightarrow> (nat \<Rightarrow> error option) \<Rightarrow> syslog_channel \<Rightarrow> digest \<Rightarrow>
   string list \<times> error option" where
  "syslog_Send uni isIP env dial wr s d =
     (if Empty d then ([], None)
      else
        (let network = (if sy_Network s = [] then ''udp'' else sy_Network s) in
         case dial network (sy_Addr s) of
           Some err \<Rightarrow> ([], Some err)
         | None \<Rightarrow> write_lines wr 0 (syslog_lines uni isIP env s d)))"

section \<open>Hexward Finding Schema\<close>

record hfs_source =
  hs_ID :: string
  hs_Fingerprint :: string
  hs_Check :: string
  hs_Title :: string
  hs_Target :: string
  hs_Severity :: string
  hs_Status :: string
  hs_Remediation :: string
  hs_FirstSeen :: time
  hs_LastSeen :: time
  hs_ResolvedAt :: "time option"
  hs_GroupID :: "string option"
  hs_Evidence :: evidence

definition Source :: "finding \<Rightarrow> hfs_source" where
  "Source f = \<lparr>hs_ID = f_ID f, hs_Fingerprint = f_Fingerprint f, hs_Check = f_Check f, hs_Title = f_Title f, hs_Target = f_Target f,
     hs_Severity = f_Severity f, hs_Status = f_Status f, hs_Remediation = f_Remediation f, hs_FirstSeen = f_FirstSeen f,
     hs_LastSeen = f_LastSeen f, hs_ResolvedAt = f_ResolvedAt f, hs_GroupID = f_GroupID f, hs_Evidence = f_Evidence f\<rparr>"

text \<open>The fields of \<^verbatim>\<open>hfs.Meta\<close> the repository sets, and the kinds of events.\<close>

record hfs_meta =
  hm_Product :: string
  hm_Version :: string
  hm_Host :: string

datatype hfs_kind = HFSOpened | HFSResolved | HFSSnapshot

text \<open>\<open>new\<close> is \<^verbatim>\<open>hfs.New\<close> with the options of the channel, \<open>now\<close> the clock.\<close>

definition Events ::
  "(hfs_kind \<Rightarrow> hfs_meta \<Rightarrow> hfs_source \<Rightarrow> time \<Rightarrow> 'e) \<Rightarrow> time \<Rightarrow> hfs_meta \<Rightarrow> digest \<Rightarrow> 'e list" where
  "Events new now meta d =
     (let meta = (if hm_Product meta = [] then meta\<lparr>hm_Product := dg_Module d\<rparr> else meta);
          moment = (if IsZero (dg_At d) then now else dg_At d)
      in map (\<lambda>f. new HFSOpened meta (Source f) moment) (dg_Opened d) @
         map (\<lambda>f. new HFSResolved meta (Source f) moment) (dg_Resolved d))"

definition hfs_Send ::
  "(hfs_kind \<Rightarrow> hfs_meta \<Rightarrow> hfs_source \<Rightarrow> time \<Rightarrow> 'e) \<Rightarrow> ('e list \<Rightarrow> error option) \<Rightarrow> time \<Rightarrow> hfs_meta \<Rightarrow> digest \<Rightarrow> error option" where
  "hfs_Send new sink now meta d = (if Empty d then None else sink (Events new now meta d))"

section \<open>No finding can break a frame\<close>

definition line_free :: "string \<Rightarrow> bool" where
  "line_free s \<longleftrightarrow> CHR 0x0A \<notin> set s"

lemma line_free_simps [simp]:
  "line_free []" "line_free (c # s) \<longleftrightarrow> c \<noteq> CHR 0x0A \<and> line_free s" "line_free (s @ t) \<longleftrightarrow> line_free s \<and> line_free t"
  by (auto simp: line_free_def)

lemma line_free_take [simp]: "line_free s \<Longrightarrow> line_free (take n s)"
  by (auto simp: line_free_def dest: in_set_takeD)

lemma line_free_digits [simp]: "line_free (nat_digits n)"
proof (induction n rule: nat_digits.induct)
  case (1 n)
  have "char_of (48 + k) \<noteq> CHR 0x0A" if "k < 10" for k :: nat
  proof
    assume "char_of (48 + k) = CHR 0x0A"
    then have "of_char (char_of (48 + k)) = (10 :: nat)" by simp
    then show False using that by simp
  qed
  then show ?case using 1 by (subst nat_digits.simps) auto
qed

lemma line_free_numbers [simp]: "line_free (itoa n)" "line_free (pad w n)"
  by (auto simp: itoa_def pad_def Let_def line_free_def [of "replicate _ _"])

lemma line_free_Stamp [simp]: "line_free (format_Stamp t)"
proof -
  have "list_all line_free months" by (simp add: months_def)
  then have "line_free (stamp_month m)" for m
    by (auto simp: stamp_month_def list_all_length months_def nat_less_iff)
  then show ?thesis by (simp add: format_Stamp_def Let_def split: prod.split)
qed

lemma byte_in_high: "byte_in lo hi c \<Longrightarrow> 128 \<le> lo \<Longrightarrow> \<not> ascii c"
  by (auto simp: byte_in_def ascii_def)

lemma rune_high:
  assumes "\<not> ascii a"
  shows "list_all (\<lambda>c. \<not> ascii c) (take (rune_size (a # s)) (a # s))"
  using assms
  by (auto simp: rune_size_def take_Cons_numeral split: list.splits if_splits
      dest: byte_in_high [of 128, simplified] byte_in_high [of 144, simplified] byte_in_high [of 160, simplified])

lemma rune_bytes:
  assumes "r \<in> set (runes s)"
  shows "length r = 1 \<or> list_all (\<lambda>c. \<not> ascii c) r"
  using assms
proof (induction s rule: runes.induct)
  case (2 c s)
  have "list_all (\<lambda>c. \<not> ascii c) RuneError" by (simp add: RuneError_def ascii_def)
  moreover have "length (take (rune_size (c # s)) (c # s)) = 1 \<or> list_all (\<lambda>c. \<not> ascii c) (take (rune_size (c # s)) (c # s))"
    using rune_high [of c s] by (cases "ascii c") (simp_all add: rune_size_def)
  ultimately show ?case using 2 by (auto simp: Let_def split: if_splits)
qed simp

lemma strings_Map_avoids:
  assumes "\<And>r. r \<in> set (runes s) \<Longrightarrow> c \<notin> set (f r)"
  shows "c \<notin> set (strings_Map f s)"
  using assms by (auto simp: strings_Map_def)

lemma control_mapped:
  assumes "c \<in> {CHR 0x0A, CHR 0x0D, CHR 0x00}" and "r \<in> set (runes s)"
  shows "c \<notin> set (if r = [CHR 0x0A] \<or> r = [CHR 0x0D] \<or> r = [CHR 0x00] then '' '' else r)"
  using rune_bytes [OF assms(2)] assms(1) by (cases r) (auto simp: list_all_iff ascii_def)

lemma sanitizeSyslog_avoids:
  assumes "c \<in> {CHR 0x0A, CHR 0x0D, CHR 0x00}"
  shows "c \<notin> set (sanitizeSyslog s)"
proof -
  have "c \<notin> set (strings_Map (\<lambda>r. if r = [CHR 0x0A] \<or> r = [CHR 0x0D] \<or> r = [CHR 0x00] then '' '' else r) s)"
    using control_mapped [OF assms] by (rule strings_Map_avoids)
  moreover have "c \<notin> set ellipsis" using assms by (auto simp: ellipsis_def)
  ultimately show ?thesis by (auto simp: sanitizeSyslog_def Let_def dest: in_set_takeD)
qed

lemma sanitizeSyslog_length: "length (sanitizeSyslog s) \<le> 1603"
  by (simp add: sanitizeSyslog_def Let_def ellipsis_def)

text \<open>How a collector on a stream finds the frames.\<close>

fun split_frames :: "string \<Rightarrow> string \<Rightarrow> string list" where
  "split_frames acc [] = (if acc = [] then [] else [acc])"
| "split_frames acc (c # s) = (if c = CHR 0x0A then (acc @ [c]) # split_frames [] s else split_frames (acc @ [c]) s)"

definition frame :: "string \<Rightarrow> bool" where
  "frame l \<longleftrightarrow> (\<exists>body. l = body @ newline \<and> line_free body)"

lemma split_frames_body: "line_free body \<Longrightarrow> split_frames acc (body @ CHR 0x0A # rest) = (acc @ body @ newline) # split_frames [] rest"
  by (induction body arbitrary: acc) (simp_all add: newline_def)

lemma split_frames_concat: "list_all frame ls \<Longrightarrow> split_frames [] (concat ls) = ls"
proof (induction ls)
  case (Cons l ls)
  then obtain body where "l = body @ newline" "line_free body" by (auto simp: frame_def)
  then show ?case using Cons split_frames_body [of body "[]" "concat ls"] by (simp add: newline_def)
qed simp

lemma syslog_lines_frames:
  assumes "line_free (syslog_host env s)" and "line_free (syslog_tag s d)"
  shows "list_all frame (syslog_lines uni isIP env s d)"
proof -
  have "line_free (syslogMessage isIP m f r)" for m f r
    using sanitizeSyslog_avoids [of "CHR 0x0A"] by (simp add: syslogMessage_def Let_def line_free_def)
  then have "frame (syslog_line pri (format_Stamp t) (syslog_host env s) (syslog_tag s d) pid (syslogMessage isIP m f r))" for pri t pid m f r
    unfolding frame_def syslog_line_def
    by (intro exI [of _ "''<'' @ itoa pri @ ''>'' @ format_Stamp t @ '' '' @ syslog_host env s @ '' '' @ syslog_tag s d @ ''['' @ itoa pid @
        '']: '' @ syslogMessage isIP m f r"]) (simp add: assms)
  then show ?thesis by (auto simp: syslog_lines_def Let_def list_all_iff)
qed

lemma syslogSeverity_bounds: "2 \<le> syslogSeverity uni sev \<and> syslogSeverity uni sev \<le> 6"
  by (simp add: syslogSeverity_def Let_def)

lemma syslog_lines_length: "length (syslog_lines uni isIP env s d) = length (dg_Opened d) + length (dg_Resolved d)"
  by (simp add: syslog_lines_def Let_def)

lemma write_all: "(\<And>k. wr k = None) \<Longrightarrow> write_lines wr k ls = (ls, None)"
  by (induction ls arbitrary: k) simp_all

section \<open>Property\<close>



end
