(* ===== verification/Regexp.thy ===== *)
theory Regexp
  imports Go_Text
begin

text \<open>
  The part of package \<^verbatim>\<open>regexp\<close> that the guards of the AI client use: case-insensitive literals, classes, alternatives, bounded and
  unbounded repetition of a class, and ASCII word boundaries. A text is cut into its runes, a byte that is no valid UTF-8 being a rune of
  its own, and an expression yields the positions at which a match that starts at a given position can end, so \<^verbatim>\<open>MatchString\<close> asks
  whether there is any.
\<close>

section \<open>Texts as runes\<close>

function pieces :: "string \<Rightarrow> string list" where
  "pieces [] = []"
| "pieces (c # s) =
     (let n = rune_size (c # s) in
      if n = 0 then [c] # pieces s else take n (c # s) # pieces (drop n (c # s)))"
  by pat_completeness auto
termination
  by (relation "measure length") auto

declare pieces.simps(2) [simp del]

lemma concat_pieces [simp]: "concat (pieces s) = s"
  by (induction s rule: pieces.induct) (simp_all add: pieces.simps(2) Let_def)

lemma rune_size_le: "rune_size s \<le> length s"
  by (auto simp: rune_size_def split: list.splits)

definition valid_rune :: "string \<Rightarrow> bool" where
  "valid_rune r \<longleftrightarrow> r \<noteq> [] \<and> rune_size r = length r"

lemma rune_size_bound: "rune_size s \<le> 4"
  by (auto simp: rune_size_def split: list.split)

lemma rune_size_prefix: "rune_size s \<noteq> 0 \<Longrightarrow> rune_size (take (rune_size s) s @ t) = rune_size s"
proof -
  assume *: "rune_size s \<noteq> 0"
  have four: "rune_size s = 1 \<or> rune_size s = 2 \<or> rune_size s = 3 \<or> rune_size s = 4" using * rune_size_bound [of s] by linarith
  have len: "rune_size s \<le> length s" by (rule rune_size_le)
  obtain a u where s: "s = a # u" using * by (cases s) (auto simp: rune_size_def)
  show ?thesis
  proof (cases "ascii a")
    case True
    then show ?thesis by (simp add: s rune_size_def)
  next
    case False
    then have "rune_size s \<noteq> 1" by (auto simp: s rune_size_def split: list.split)
    with four consider "rune_size s = 2" | "rune_size s = 3" | "rune_size s = 4" by blast
    then show ?thesis
    proof cases
      case 1
      then obtain b v where "u = b # v" using len s by (cases u) auto
      then show ?thesis using 1 False by (auto simp: s rune_size_def split: if_splits list.splits)
    next
      case 2
      then obtain b c v where "u = b # c # v" using len s by (cases u; cases "tl u") auto
      then show ?thesis using 2 False by (auto simp: s rune_size_def numeral_3_eq_3 split: if_splits list.splits)
    next
      case 3
      then obtain b c d v where "u = b # c # d # v" using len s by (cases u; cases "tl u"; cases "tl (tl u)") auto
      then show ?thesis using 3 False by (auto simp: s rune_size_def take_Cons_numeral split: if_splits)
    qed
  qed
qed

lemma rune_size_mono: "rune_size x \<noteq> 0 \<Longrightarrow> rune_size (x @ y) = rune_size x"
  using rune_size_prefix [of x "drop (rune_size x) x @ y"] by (simp flip: append_assoc)

lemma pieces_step: "rune_size x \<noteq> 0 \<Longrightarrow> pieces x = take (rune_size x) x # pieces (drop (rune_size x) x)"
  by (cases x) (simp_all add: rune_size_def [of "[]"] pieces.simps(2) Let_def)

text \<open>A continuation byte cannot begin a rune, so a rune does not reach over an ASCII byte or into bytes that begin one.\<close>

definition tail_byte :: "char \<Rightarrow> bool" where "tail_byte = byte_in 0x80 0xBF"

lemma rune_size_tail:
  assumes "x \<noteq> []" and "rune_size x = 0" and "y = [] \<or> \<not> tail_byte (hd y) \<or> \<not> tail_byte (last x) \<and> tl x \<noteq> []"
  shows "rune_size (x @ y) = 0"
proof -
  obtain a u where x: "x = a # u" using assms(1) by (cases x) auto
  have na: "\<not> ascii a" using assms(2) by (auto simp: x rune_size_def)
  consider "u = []" | b where "u = [b]" | b c where "u = [b, c]" | b c d v where "u = b # c # d # v"
    by (metis list.exhaust)
  then show ?thesis
  proof cases
    case 1
    then show ?thesis using assms(3) na
      by (cases y) (auto simp: x rune_size_def tail_byte_def byte_in_def split: list.splits)
  next
    case 2
    then show ?thesis using assms(2,3) na
      by (cases y) (auto simp: x rune_size_def tail_byte_def byte_in_def split: list.splits if_splits)
  next
    case 3
    show ?thesis
    proof (cases y)
      case (Cons e y')
      then have "\<not> (byte_in 0x80 0xBF c \<and> byte_in 0x80 0xBF e)" using assms(3) 3 by (auto simp: x tail_byte_def)
      then show ?thesis using assms(2) na 3 Cons by (cases "byte_in 0x80 0xBF c") (auto simp: x rune_size_def split: if_splits)
    qed (use assms(2) in simp)
  next
    case 4
    have "rune_size (a # b # c # d # v @ y) = rune_size (a # b # c # d # v)" by (simp only: rune_size_def list.case)
    then show ?thesis using assms(2) 4 by (simp only: x append_Cons)
  qed
qed

lemma pieces_append:
  "x = [] \<or> ascii (last x) \<or> y = [] \<or> \<not> tail_byte (hd y) \<Longrightarrow> pieces (x @ y) = pieces x @ pieces y"
proof (induction x rule: pieces.induct)
  case (2 c s)
  show ?case
  proof (cases "rune_size (c # s) = 0")
    case True
    have "\<not> ascii c" using True by (auto simp: rune_size_def)
    then have "y = [] \<or> \<not> tail_byte (hd y) \<or> \<not> tail_byte (last (c # s)) \<and> tl (c # s) \<noteq> []"
      using 2(3) by (auto simp: tail_byte_def byte_in_def ascii_def)
    from rune_size_tail [OF _ True this] have "rune_size (c # s @ y) = 0" by simp
    moreover have "pieces (s @ y) = pieces s @ pieces y"
      using 2(1) [OF refl True] 2(3) \<open>\<not> ascii c\<close> by (cases "s = []") auto
    ultimately show ?thesis using True by (simp add: pieces.simps(2))
  next
    case False
    let ?n = "rune_size (c # s)"
    have n: "rune_size (c # s @ y) = ?n" using rune_size_mono [OF False, of y] by simp
    have "?n \<le> length (c # s)" by (rule rune_size_le)
    moreover have "pieces (drop ?n (c # s) @ y) = pieces (drop ?n (c # s)) @ pieces y"
      using 2(2) [OF refl False] 2(3) by (cases "drop ?n (c # s) = []") (auto simp del: drop_Cons)
    moreover have "take ?n ((c # s) @ y) = take ?n (c # s)" "drop ?n ((c # s) @ y) = drop ?n (c # s) @ y"
      using \<open>?n \<le> length (c # s)\<close> unfolding take_append drop_append by simp_all
    ultimately show ?thesis using pieces_step [of "(c # s) @ y"] pieces_step [OF False] False n by simp
  qed
qed simp

text \<open>A list of runes as \<open>pieces\<close> yields them: taking a text apart again gives the list.\<close>

definition tidy :: "string list \<Rightarrow> bool" where
  "tidy t \<longleftrightarrow> pieces (concat t) = t"

lemma tidy_pieces [simp]: "tidy (pieces s)"
  by (simp add: tidy_def)

lemma tidy_Cons: "tidy (r # t) \<Longrightarrow> tidy t"
proof -
  assume t: "tidy (r # t)"
  show ?thesis
  proof (cases "r @ concat t")
    case Nil
    then have "concat (r # t) = []" by simp
    then show ?thesis using t by (simp add: tidy_def del: concat.simps concat_eq_Nil_conv)
  next
    case (Cons c s)
    let ?n = "rune_size (c # s)"
    from t have p: "pieces (c # s) = r # t" by (simp add: tidy_def Cons)
    have "\<exists>u. pieces u = t \<and> u = concat t"
    proof (cases "?n = 0")
      case True
      then show ?thesis using p by (intro exI [of _ s]) (auto simp: pieces.simps(2))
    next
      case False
      then show ?thesis using p by (intro exI [of _ "drop ?n (c # s)"]) (auto simp: pieces.simps(2) Let_def)
    qed
    then show ?thesis by (auto simp: tidy_def)
  qed
qed

lemma tidy_suffix: "tidy (x @ y) \<Longrightarrow> tidy y"
  by (induction x) (auto dest: tidy_Cons)

lemma tidy_prefix: "tidy (x @ y) \<Longrightarrow> tidy x"
proof (induction x)
  case (Cons r x)
  have x: "tidy x" using Cons tidy_Cons by simp
  obtain c s where cs: "r @ concat x @ concat y = c # s" using Cons.prems
    by (cases "r @ concat x @ concat y") (simp_all add: tidy_def)
  let ?n = "rune_size (c # s)"
  have p: "pieces (c # s) = r # x @ y" using Cons.prems cs by (simp add: tidy_def)
  show ?case
  proof (cases "?n = 0")
    case True
    then have r: "r = [c]" "s = concat x @ concat y" using p cs by (auto simp: pieces.simps(2))
    have "rune_size (c # concat x) = 0" using rune_size_mono [of "c # concat x" "concat y"] True r(2) by auto
    then show ?thesis using x r(1) by (simp add: tidy_def pieces.simps(2))
  next
    case False
    then have r: "r = take ?n (c # s)" using p by (simp add: pieces.simps(2) Let_def)
    have n: "rune_size (r @ concat x) = ?n" unfolding r by (rule rune_size_prefix [OF False])
    moreover have "length r = ?n" unfolding r using rune_size_le [of "c # s"] by simp
    ultimately have "pieces (r @ concat x) = r # pieces (concat x)" using pieces_step [of "r @ concat x"] False by simp
    then show ?thesis using x by (simp add: tidy_def)
  qed
qed (simp add: tidy_def)

lemma tidy_append:
  assumes "tidy x" and "tidy y" and "x = [] \<or> (\<exists>c. ascii c \<and> last x = [c])"
  shows "tidy (x @ y)"
proof -
  have "concat x = [] \<or> ascii (last (concat x))"
    using assms(3) by (cases x rule: rev_cases) auto
  then have "pieces (concat x @ concat y) = pieces (concat x) @ pieces (concat y)" by (intro pieces_append) auto
  then show ?thesis using assms(1,2) by (simp add: tidy_def)
qed

definition is_char :: "(char \<Rightarrow> bool) \<Rightarrow> string \<Rightarrow> bool" where
  "is_char p r \<longleftrightarrow> (case r of [c] \<Rightarrow> ascii c \<and> p c | _ \<Rightarrow> False)"

definition word_char :: "string \<Rightarrow> bool" where
  "word_char = is_char (\<lambda>c. byte_in 48 57 c \<or> byte_in 65 90 c \<or> byte_in 97 122 c \<or> c = CHR ''_'')"

definition space_char :: "string \<Rightarrow> bool" where
  "space_char = is_char (\<lambda>c. of_char c \<in> {9, 10, 12, 13, 32 :: nat})"

text \<open>A letter in either case; simple folding adds U+017F to \<open>s\<close> and U+212A to \<open>k\<close>.\<close>

definition fold_char :: "char \<Rightarrow> string \<Rightarrow> bool" where
  "fold_char c r \<longleftrightarrow> is_char (\<lambda>x. lower_byte x = c) r \<or> c = CHR ''s'' \<and> r = [CHR 0xC5, CHR 0xBF] \<or>
     c = CHR ''k'' \<and> r = [CHR 0xE2, CHR 0x84, CHR 0xAA]"

section \<open>Expressions\<close>

datatype rx =
    Eps
  | Cls "string \<Rightarrow> bool"
  | Seq rx rx
  | Alt rx rx
  | Many "string \<Rightarrow> bool"
  | UpTo nat "string \<Rightarrow> bool"
  | WordB

definition lit :: "string \<Rightarrow> rx" where
  "lit w = foldr (\<lambda>c r. Seq (Cls (fold_char c)) r) w Eps"

definition alts :: "rx list \<Rightarrow> rx" where
  "alts rs = (case rs of [] \<Rightarrow> Cls (\<lambda>_. False) | r # rs \<Rightarrow> foldl Alt r rs)"

definition seqs :: "rx list \<Rightarrow> rx" where
  "seqs rs = foldr Seq rs Eps"

definition words :: "string list \<Rightarrow> rx" where
  "words ws = alts (map lit ws)"

definition opt :: "rx \<Rightarrow> rx" where "opt r = Alt r Eps"

definition some :: "(string \<Rightarrow> bool) \<Rightarrow> rx" where "some p = Seq (Cls p) (Many p)"

definition word_at :: "string list \<Rightarrow> nat \<Rightarrow> bool" where
  "word_at t i \<longleftrightarrow> i < length t \<and> word_char (t ! i)"

definition boundary :: "string list \<Rightarrow> nat \<Rightarrow> bool" where
  "boundary t i \<longleftrightarrow> (0 < i \<and> word_at t (i - 1)) \<noteq> word_at t i"

text \<open>The positions after at most \<open>n\<close> runes of a class.\<close>

fun class_runs :: "(string \<Rightarrow> bool) \<Rightarrow> string list \<Rightarrow> nat \<Rightarrow> nat \<Rightarrow> nat list" where
  "class_runs p t 0 i = [i]"
| "class_runs p t (Suc n) i = i # (if i < length t \<and> p (t ! i) then class_runs p t n (Suc i) else [])"

fun ends :: "rx \<Rightarrow> string list \<Rightarrow> nat \<Rightarrow> nat list" where
  "ends Eps t i = [i]"
| "ends (Cls p) t i = (if i < length t \<and> p (t ! i) then [Suc i] else [])"
| "ends (Seq a b) t i = concat (map (ends b t) (remdups (ends a t i)))"
| "ends (Alt a b) t i = ends a t i @ ends b t i"
| "ends (Many p) t i = class_runs p t (length t - i) i"
| "ends (UpTo n p) t i = class_runs p t n i"
| "ends WordB t i = (if boundary t i then [i] else [])"

definition match_pieces :: "rx \<Rightarrow> string list \<Rightarrow> bool" where
  "match_pieces r t \<longleftrightarrow> list_ex (\<lambda>i. ends r t i \<noteq> []) [0..<Suc (length t)]"

definition MatchString :: "rx \<Rightarrow> string \<Rightarrow> bool" where
  "MatchString r s = match_pieces r (pieces s)"

section \<open>Meaning\<close>

text \<open>The reference semantics: \<open>r\<close> matches the runes from \<open>i\<close> up to \<open>j\<close> in the context of the text.\<close>

fun rmatch :: "string list \<Rightarrow> rx \<Rightarrow> nat \<Rightarrow> nat \<Rightarrow> bool" where
  "rmatch t Eps i j \<longleftrightarrow> j = i"
| "rmatch t (Cls p) i j \<longleftrightarrow> j = Suc i \<and> i < length t \<and> p (t ! i)"
| "rmatch t (Seq a b) i j \<longleftrightarrow> (\<exists>k. rmatch t a i k \<and> rmatch t b k j)"
| "rmatch t (Alt a b) i j \<longleftrightarrow> rmatch t a i j \<or> rmatch t b i j"
| "rmatch t (Many p) i j \<longleftrightarrow> i \<le> j \<and> j \<le> max i (length t) \<and> (\<forall>k. i \<le> k \<and> k < j \<longrightarrow> p (t ! k))"
| "rmatch t (UpTo n p) i j \<longleftrightarrow> i \<le> j \<and> j \<le> max i (length t) \<and> j \<le> i + n \<and> (\<forall>k. i \<le> k \<and> k < j \<longrightarrow> p (t ! k))"
| "rmatch t WordB i j \<longleftrightarrow> j = i \<and> boundary t i"

lemma class_runs_iff: "j \<in> set (class_runs p t n i) \<longleftrightarrow> i \<le> j \<and> j \<le> max i (length t) \<and> j \<le> i + n \<and> (\<forall>k. i \<le> k \<and> k < j \<longrightarrow> p (t ! k))"
proof (induction n arbitrary: i)
  case (Suc n)
  have all: "(\<forall>k. i \<le> k \<and> k < j \<longrightarrow> p (t ! k)) \<longleftrightarrow> p (t ! i) \<and> (\<forall>k. Suc i \<le> k \<and> k < j \<longrightarrow> p (t ! k))" if "i < j"
    using that by (auto simp: Suc_le_eq) (metis le_eq_less_or_eq)
  show ?case
  proof (cases "i < j")
    case True
    then show ?thesis using Suc.IH [of "Suc i"] all by auto
  next
    case False
    then show ?thesis using Suc.IH [of "Suc i"] by auto
  qed
qed auto

lemma ends_iff: "j \<in> set (ends r t i) \<longleftrightarrow> rmatch t r i j"
  by (induction r arbitrary: i j) (auto simp: class_runs_iff)

lemma match_pieces_iff: "match_pieces r t \<longleftrightarrow> (\<exists>i j. i \<le> length t \<and> rmatch t r i j)"
proof -
  have "ends r t i \<noteq> [] \<longleftrightarrow> (\<exists>j. rmatch t r i j)" for i
    unfolding ends_iff [symmetric] by (cases "ends r t i") auto
  then show ?thesis by (simp add: match_pieces_def list_ex_iff Bex_def less_Suc_eq_le del: upt_Suc)
qed

section \<open>Context\<close>

text \<open>
  Whether an expression matches a part of a text depends on the part alone when the runes next to it are no word characters: a boundary at
  the end of a text is a boundary before such a rune too.
\<close>

definition calm_end :: "string list \<Rightarrow> bool" where
  "calm_end t \<longleftrightarrow> t = [] \<or> \<not> word_char (last t)"

definition calm_start :: "string list \<Rightarrow> bool" where
  "calm_start t \<longleftrightarrow> t = [] \<or> \<not> word_char (hd t)"

definition quiet :: "string list \<Rightarrow> bool" where
  "quiet t \<longleftrightarrow> list_all (\<lambda>r. \<not> word_char r) t"

lemma quiet_calm: "quiet t \<Longrightarrow> calm_end t \<and> calm_start t"
  by (cases "t = []") (auto simp: quiet_def calm_end_def calm_start_def list_all_iff)

lemma calm_snoc: "\<not> word_char d \<Longrightarrow> calm_end (t @ [d])" and calm_Cons: "\<not> word_char d \<Longrightarrow> calm_start (d # t)"
  by (simp_all add: calm_end_def calm_start_def)

lemma word_at_context:
  assumes "calm_start post" and "i \<le> length t"
  shows "word_at (pre @ t @ post) (length pre + i) = word_at t i"
proof (cases "i < length t")
  case False
  then have "i = length t" using assms(2) by simp
  then show ?thesis using assms(1) by (cases post) (auto simp: word_at_def calm_start_def nth_append)
qed (simp add: word_at_def nth_append)

lemma boundary_context:
  assumes "calm_end pre" and "calm_start post" and "i \<le> length t"
  shows "boundary (pre @ t @ post) (length pre + i) = boundary t i"
proof (cases i)
  case 0
  have "\<not> word_at (pre @ t @ post) (length pre - 1)" if "0 < length pre"
    using assms(1) that by (auto simp: word_at_def nth_append calm_end_def last_conv_nth)
  then show ?thesis using word_at_context [OF assms(2), of 0 t pre] 0 by (auto simp: boundary_def)
next
  case (Suc k)
  then show ?thesis using word_at_context [OF assms(2), of k t pre] word_at_context [OF assms(2,3), of pre] assms(3)
    by (simp add: boundary_def)
qed

lemma rmatch_le: "rmatch t r i j \<Longrightarrow> i \<le> j"
proof (induction r arbitrary: i j)
  case (Seq a b)
  from Seq.prems obtain k where "rmatch t a i k" "rmatch t b k j" by auto
  then show ?case using Seq.IH by (meson order_trans)
qed auto

lemma rmatch_bounds: "rmatch t r i j \<Longrightarrow> i \<le> length t \<Longrightarrow> i \<le> j \<and> j \<le> length t"
  by (induction r arbitrary: i j) (fastforce+)

lemma all_shift:
  assumes "j \<le> length t"
  shows "(\<forall>k. length pre + i \<le> k \<and> k < length pre + j \<longrightarrow> p ((pre @ t @ post) ! k)) \<longleftrightarrow> (\<forall>k. i \<le> k \<and> k < j \<longrightarrow> p (t ! k))" (is "?L \<longleftrightarrow> ?R")
proof
  assume ?L
  show ?R
  proof (intro allI impI)
    fix k assume "i \<le> k \<and> k < j"
    then show "p (t ! k)" using \<open>?L\<close> [rule_format, of "length pre + k"] assms by (simp add: nth_append)
  qed
next
  assume ?R
  show ?L
  proof (intro allI impI)
    fix k assume k: "length pre + i \<le> k \<and> k < length pre + j"
    then obtain l where "k = length pre + l" "i \<le> l" "l < j" by (auto simp: le_iff_add)
    then show "p ((pre @ t @ post) ! k)" using \<open>?R\<close> assms by (simp add: nth_append)
  qed
qed

lemma rmatch_context:
  assumes "calm_end pre" and "calm_start post"
  shows "i \<le> j \<Longrightarrow> j \<le> length t \<Longrightarrow> rmatch (pre @ t @ post) r (length pre + i) (length pre + j) \<longleftrightarrow> rmatch t r i j"
proof (induction r arbitrary: i j)
  case (Cls p)
  then show ?case by (auto simp: nth_append)
next
  case (Seq a b)
  show ?case
  proof
    assume "rmatch (pre @ t @ post) (Seq a b) (length pre + i) (length pre + j)"
    then obtain k where k: "rmatch (pre @ t @ post) a (length pre + i) k" "rmatch (pre @ t @ post) b k (length pre + j)" by auto
    then have "length pre + i \<le> k" "k \<le> length pre + j" by (auto dest: rmatch_le)
    then obtain l where "k = length pre + l" "i \<le> l" "l \<le> j" by (auto simp: le_iff_add)
    then show "rmatch t (Seq a b) i j" using Seq k by auto
  next
    assume "rmatch t (Seq a b) i j"
    then obtain k where k: "rmatch t a i k" "rmatch t b k j" by auto
    then have "i \<le> k" "k \<le> j" by (auto dest: rmatch_le)
    then have "rmatch (pre @ t @ post) a (length pre + i) (length pre + k)" "rmatch (pre @ t @ post) b (length pre + k) (length pre + j)"
      using Seq k by auto
    then show "rmatch (pre @ t @ post) (Seq a b) (length pre + i) (length pre + j)" by auto
  qed
next
  case (Many p)
  then show ?case using all_shift [of j t pre i p post] by auto
next
  case (UpTo n p)
  then show ?case using all_shift [of j t pre i p post] by auto
next
  case WordB
  then show ?case using boundary_context [OF assms, of i t] by auto
qed auto

lemma match_part:
  assumes "calm_end pre" and "calm_start post" and "match_pieces r t"
  shows "match_pieces r (pre @ t @ post)"
proof -
  obtain i j where ij: "i \<le> length t" "rmatch t r i j" using assms(3) by (auto simp: match_pieces_iff)
  then have "rmatch (pre @ t @ post) r (length pre + i) (length pre + j)"
    using rmatch_context [OF assms(1,2)] rmatch_bounds [OF ij(2,1)] by blast
  moreover have "length pre + i \<le> length (pre @ t @ post)" using ij(1) by simp
  ultimately show ?thesis unfolding match_pieces_iff by blast
qed

section \<open>Separators\<close>

text \<open>
  An expression \<open>edged\<close> begins and ends its matches at word boundaries, and one that \<open>avoids\<close> a set of runes matches none of them. Such an
  expression matches a text that is cut by one of these runes exactly where it matches one of the parts, and white space around a text makes no
  difference.
\<close>

definition edged :: "rx \<Rightarrow> bool" where
  "edged r \<longleftrightarrow> (\<forall>t i j. rmatch t r i j \<longrightarrow> boundary t i \<and> boundary t j)"

fun avoids :: "(string \<Rightarrow> bool) \<Rightarrow> rx \<Rightarrow> bool" where
  "avoids st Eps \<longleftrightarrow> True"
| "avoids st (Cls p) \<longleftrightarrow> (\<forall>x. st x \<longrightarrow> \<not> p x)"
| "avoids st (Seq a b) \<longleftrightarrow> avoids st a \<and> avoids st b"
| "avoids st (Alt a b) \<longleftrightarrow> avoids st a \<and> avoids st b"
| "avoids st (Many p) \<longleftrightarrow> (\<forall>x. st x \<longrightarrow> \<not> p x)"
| "avoids st (UpTo n p) \<longleftrightarrow> (\<forall>x. st x \<longrightarrow> \<not> p x)"
| "avoids st WordB \<longleftrightarrow> True"

lemma avoids_match: "avoids st r \<Longrightarrow> rmatch t r i j \<Longrightarrow> i \<le> k \<Longrightarrow> k < j \<Longrightarrow> \<not> st (t ! k)"
proof (induction r arbitrary: i j)
  case (Cls p)
  then have "k = i" by simp
  then show ?case using Cls by auto
next
  case (Seq a b)
  then obtain l where "rmatch t a i l" "rmatch t b l j" by auto
  then show ?case using Seq by (cases "k < l") (auto simp: not_less)
qed auto

lemma edged_Seq: "edged (Seq WordB (Seq a WordB))"
  by (auto simp: edged_def)

lemma edged_Alt: "edged a \<Longrightarrow> edged b \<Longrightarrow> edged (Alt a b)"
  by (auto simp: edged_def)

lemma edged_seqs: "edged (seqs (WordB # rs @ [WordB]))"
proof -
  have "rmatch t (seqs (rs @ [WordB])) i j \<Longrightarrow> boundary t j" for t i j
    by (induction rs arbitrary: i) (auto simp: seqs_def)
  then show ?thesis by (auto simp: edged_def seqs_def)
qed

lemma edged_none: "edged r \<Longrightarrow> \<not> match_pieces r []"
  by (auto simp: match_pieces_iff edged_def boundary_def word_at_def)

lemma match_cut:
  assumes "avoids st r" and "st d" and "\<not> word_char d" and "match_pieces r (x @ d # y)"
  shows "match_pieces r x \<or> match_pieces r y"
proof -
  obtain i j where ij: "i \<le> length (x @ d # y)" "rmatch (x @ d # y) r i j" using assms(4) by (auto simp: match_pieces_iff)
  have le: "i \<le> j" "j \<le> length (x @ d # y)" using rmatch_bounds [OF ij(2,1)] by auto
  have "\<not> (i \<le> length x \<and> length x < j)" using avoids_match [OF assms(1) ij(2), of "length x"] assms(2) by auto
  then consider "j \<le> length x" | "length x < i" by linarith
  then show ?thesis
  proof cases
    case 1
    then have "rmatch x r i j"
      using rmatch_context [of "[]" "d # y" i j x r] ij(2) le(1) calm_Cons [OF assms(3)] by (simp add: calm_end_def)
    then show ?thesis using 1 le(1) unfolding match_pieces_iff by (meson order_trans)
  next
    case 2
    then obtain k l where kl: "i = length (x @ [d]) + k" "j = length (x @ [d]) + l" "k \<le> l" using le(1)
      by (metis Suc_leI add_le_cancel_left le_iff_add length_append_singleton order_trans)
    then have "rmatch y r k l"
      using rmatch_context [of "x @ [d]" "[]" k l y r] ij(2) le(2) calm_snoc [OF assms(3)] by (simp add: calm_start_def)
    then show ?thesis using kl le unfolding match_pieces_iff by auto
  qed
qed

lemma match_trim:
  assumes "edged r" and "quiet pre" and "quiet post" and "match_pieces r (pre @ t @ post)"
  shows "match_pieces r t"
proof -
  let ?u = "pre @ t @ post"
  obtain i j where ij: "i \<le> length ?u" "rmatch ?u r i j" using assms(4) by (auto simp: match_pieces_iff)
  have le: "i \<le> j" by (rule rmatch_le [OF ij(2)])
  have word: "length pre \<le> k \<and> k < length pre + length t" if "word_at ?u k" for k
    using that assms(2,3) by (auto simp: word_at_def nth_append quiet_def list_all_length split: if_splits)
  have "boundary ?u i" "boundary ?u j" using assms(1) ij(2) by (auto simp: edged_def)
  then have "length pre \<le> i" "j \<le> length pre + length t"
    using word [of i] word [of "i - 1"] word [of j] word [of "j - 1"] unfolding boundary_def by (metis diff_le_self order_trans, linarith)
  then obtain k l where kl: "i = length pre + k" "j = length pre + l" "k \<le> l" "l \<le> length t" using le by (auto simp: le_iff_add)
  then have "rmatch t r k l" using rmatch_context [of pre post k l t r] ij(2) quiet_calm assms(2,3) by blast
  then show ?thesis using kl unfolding match_pieces_iff by (meson order_trans)
qed

end
