(* ===== verification/Ai_Evidence.thy ===== *)
theory Ai_Evidence
  imports Regexp Channels
begin

text \<open>
  What leaves the process for the AI sidecar (\<^verbatim>\<open>internal/aiclient/evidence.go\<close>, and the data of \<^verbatim>\<open>types.go\<close>): the sanitised copy of
  a finding's evidence, its bounds, and the packet built from a finding. The expressions that recognise instruction-like text are those of
  the source. A value of another Go type is seen through its JSON form, which the argument \<open>rt\<close> yields (\<open>None\<close> where marshalling or
  unmarshalling fails); the JSON encoder of a packet is an argument.
\<close>

section \<open>Instruction-like text\<close>

definition stop_class :: "string \<Rightarrow> bool" where
  "stop_class r \<longleftrightarrow> r \<notin> set (map (\<lambda>c. [c]) [CHR ''.'', CHR ''!'', CHR ''?'', CHR 0x0A])"

definition plural :: "string \<Rightarrow> rx" where "plural w = Seq (lit w) (opt (lit ''s''))"

definition instructionPatterns :: "rx list" where
  "instructionPatterns =
    [seqs [WordB, words [''ignore'', ''disregard'', ''forget'', ''override''], WordB, UpTo 40 stop_class, WordB,
       words [''previous'', ''prior'', ''above'', ''all'', ''any'', ''your'', ''the''], WordB, UpTo 40 stop_class, WordB,
       alts [plural ''instruction'', plural ''rule'', lit ''prompt'', plural ''guideline''], WordB],
     seqs [WordB, alts [lit ''system prompt'', lit ''developer message'', lit ''you are now'', lit ''act as'',
       Seq (lit ''pretend '') (words [''to be'', ''you are'']), plural ''new instruction'', lit ''from now on''], WordB],
     seqs [WordB, words [''mark'', ''set'', ''treat'', ''report'', ''classify''], WordB, UpTo 60 stop_class, WordB, words [''as'', ''to''], some space_char,
       words [''resolved'', ''fixed'', ''closed'', ''safe'', ''low'', ''info'', ''informational'', ''critical'', ''high'', ''medium''], WordB],
     seqs [WordB, alts [lit ''output only'', seqs [lit ''respond '', opt (lit ''only ''), lit ''with''], seqs [lit ''reply '', opt (lit ''only ''), lit ''with''],
       seqs [lit ''return '', opt (lit ''only ''), opt (lit ''the ''), words [''following'', ''this''], lit '' json''], lit ''print exactly''], WordB],
     seqs [lit ''<'', opt (lit ''|''),
       words [''im_start'', ''im_end'', ''system'', ''user'', ''assistant'', ''endoftext'', ''eot_id'', ''start_header_id''], opt (lit ''|''), lit ''>''],
     seqs [WordB, words [''assistant'', ''system'', ''user''], Many space_char, lit '':'', Many space_char, lit ''{'']]"

definition instructionPlaceholder :: string where
  "instructionPlaceholder = ''[omitted: instruction-like text]''"

definition neutralizeInstructions :: "string \<Rightarrow> string" where
  "neutralizeInstructions s = (if list_ex (\<lambda>re. MatchString re s) instructionPatterns then instructionPlaceholder else s)"

section \<open>Sanitising\<close>

definition maxEvidenceKeys :: nat where "maxEvidenceKeys = 24"
definition maxEvidenceString :: nat where "maxEvidenceString = 400"
definition maxEvidenceList :: nat where "maxEvidenceList = 12"
definition maxEvidenceDepth :: nat where "maxEvidenceDepth = 3"

definition secretKeyMarkers :: "string list" where
  "secretKeyMarkers =
     [''password'', ''passwd'', ''passphrase'', ''secret'', ''token'', ''apikey'', ''api_key'', ''api-key'', ''private'', ''credential'', ''cookie'',
      ''session'', ''authorization'', ''bearer'', ''license_key'', ''licence_key'', ''signature'']"

definition isSecretKey :: "(string \<Rightarrow> string) \<Rightarrow> string \<Rightarrow> bool" where
  "isSecretKey uni k = list_ex (\<lambda>m. Contains (ToLower uni k) m) secretKeyMarkers"

definition truncateRunes :: "string \<Rightarrow> nat \<Rightarrow> string" where
  "truncateRunes s n = (let r = runes s in if length r \<le> n then s else concat (take n r) @ ellipsis)"

text \<open>What \<^verbatim>\<open>json.Unmarshal\<close> stores into an interface value.\<close>

datatype jvalue = JNull | JBool bool | JNum rat | JStr string | JArr "jvalue list" | JObj "(string \<times> jvalue) list"

fun of_json :: "jvalue \<Rightarrow> gany" where
  "of_json JNull = GNil"
| "of_json (JBool b) = GBool b"
| "of_json (JNum q) = GFloat q"
| "of_json (JStr s) = GStr s"
| "of_json (JArr js) = GList (map of_json js)"
| "of_json (JObj kvs) = GMap (Some (map (\<lambda>(k, j). (k, of_json j)) kvs))"

fun is_other :: "gany \<Rightarrow> bool" where
  "is_other (GOther _) = True"
| "is_other _ = False"

lemma of_json_known [simp]: "\<not> is_other (of_json j)"
  by (cases j) simp_all

definition clean_text :: "string \<Rightarrow> string" where
  "clean_text s = truncateRunes (neutralizeInstructions s) maxEvidenceString"

definition kept_keys :: "(string \<Rightarrow> string) \<Rightarrow> (string \<times> gany) list \<Rightarrow> string list" where
  "kept_keys uni m = take maxEvidenceKeys (sort (filter (\<lambda>k. \<not> isSecretKey uni k) (gm_keys m)))"

function sanitizeValue :: "(string \<Rightarrow> string) \<Rightarrow> (string \<Rightarrow> jvalue option) \<Rightarrow> gany \<Rightarrow> nat \<Rightarrow> gany"
  and sanitizeMap :: "(string \<Rightarrow> string) \<Rightarrow> (string \<Rightarrow> jvalue option) \<Rightarrow> evidence \<Rightarrow> nat \<Rightarrow> evidence" where
  "sanitizeValue uni rt v depth =
     (case v of
        GNil \<Rightarrow> v | GBool _ \<Rightarrow> v | GInt _ \<Rightarrow> v | GFloat _ \<Rightarrow> v
      | GStr s \<Rightarrow> GStr (clean_text s)
      | GMap m \<Rightarrow>
          if depth \<ge> maxEvidenceDepth then GStr ''[omitted: nested too deep]'' else GMap (sanitizeMap uni rt m (depth + 1))
      | GList xs \<Rightarrow>
          if depth \<ge> maxEvidenceDepth then GStr ''[omitted: nested too deep]''
          else GList (map (\<lambda>x. sanitizeValue uni rt x (depth + 1)) (take maxEvidenceList xs))
      | GStrs ss \<Rightarrow> GList (map (\<lambda>s. GStr (clean_text s)) (take maxEvidenceList ss))
      | GOther tag \<Rightarrow>
          (case rt tag of None \<Rightarrow> GStr ''[omitted: not serialisable]'' | Some j \<Rightarrow> sanitizeValue uni rt (of_json j) depth))"
| "sanitizeMap uni rt inp depth =
     (case inp of
        None \<Rightarrow> None
      | Some m \<Rightarrow>
          (let keys = kept_keys uni m in
           if keys = [] then None
           else Some (map (\<lambda>k. (k, case gm_get m k of Some v \<Rightarrow> sanitizeValue uni rt v depth | None \<Rightarrow> GNil)) keys)))"
  by pat_completeness auto
termination
  by (relation "measure (\<lambda>x. case x of Inl (uni, rt, v, depth) \<Rightarrow> 3 * (4 - depth) + (if is_other v then 1 else 0)
       | Inr (uni, rt, m, depth) \<Rightarrow> 3 * (4 - depth) + 2)")
     (auto simp: maxEvidenceDepth_def)

declare sanitizeValue.simps [simp del] sanitizeMap.simps [simp del]

definition SanitizeEvidence :: "(string \<Rightarrow> string) \<Rightarrow> (string \<Rightarrow> jvalue option) \<Rightarrow> evidence \<Rightarrow> evidence" where
  "SanitizeEvidence uni rt inp = sanitizeMap uni rt inp 1"

section \<open>Packets\<close>

record core_finding =
  cf_Fingerprint :: string
  cf_Module :: string
  cf_Check :: string
  cf_Title :: string
  cf_Target :: string
  cf_Severity :: string
  cf_Status :: string
  cf_Remediation :: string
  cf_Evidence :: evidence

definition FeatureExplainFinding :: string where "FeatureExplainFinding = ''hexward.explain_finding''"

record evidence_packet =
  ep_Feature :: string
  ep_Product :: string
  ep_Finding :: string
  ep_Language :: string

definition NormalizeLanguage :: "(string \<Rightarrow> string) \<Rightarrow> string \<Rightarrow> string" where
  "NormalizeLanguage uni lang =
     (let l = ToLower uni (TrimSpace lang); l = map (\<lambda>c. if c = CHR ''_'' then CHR ''-'' else c) l in
      if l = ''id'' \<or> l = ''in'' \<or> l = ''ind'' \<or> HasPrefix l ''id-'' \<or> l = ''indonesian'' \<or> l = ''bahasa'' \<or> l = ''bahasa indonesia''
      then ''id'' else ''en'')"

text \<open>The finding as it is encoded, and the packet.\<close>

definition outgoing :: "(string \<Rightarrow> string) \<Rightarrow> (string \<Rightarrow> jvalue option) \<Rightarrow> core_finding \<Rightarrow> core_finding" where
  "outgoing uni rt f =
     f\<lparr>cf_Title := truncateRunes (neutralizeInstructions (cf_Title f)) maxEvidenceString,
       cf_Target := truncateRunes (neutralizeInstructions (cf_Target f)) maxEvidenceString,
       cf_Remediation := truncateRunes (neutralizeInstructions (cf_Remediation f)) (2 * maxEvidenceString),
       cf_Evidence := SanitizeEvidence uni rt (cf_Evidence f)\<rparr>"

definition NewFindingPacket ::
  "(string \<Rightarrow> string) \<Rightarrow> (string \<Rightarrow> jvalue option) \<Rightarrow> (core_finding \<Rightarrow> error + string) \<Rightarrow> string \<Rightarrow> string \<Rightarrow> core_finding \<Rightarrow> error + evidence_packet" where
  "NewFindingPacket uni rt marshal product language f =
     (if TrimSpace product = [] then Inl ''aiclient: product is required''
      else if TrimSpace (cf_Check f) = [] \<or> TrimSpace (cf_Title f) = [] \<or> TrimSpace (cf_Severity f) = []
      then Inl ''aiclient: finding needs check, title and severity''
      else case marshal (outgoing uni rt f) of
             Inl err \<Rightarrow> Inl (''aiclient: marshal finding: '' @ err)
           | Inr raw \<Rightarrow> Inr \<lparr>ep_Feature = FeatureExplainFinding, ep_Product = product, ep_Finding = raw,
                            ep_Language = NormalizeLanguage uni language\<rparr>)"

section \<open>Bounds\<close>

text \<open>
  What the sidecar may see: strings of at most 401 runes, lists of at most 12 values, maps of at most 24 keys in ascending order and none of them
  secret-like, no values of types other than those of JSON, and no more than the given levels of nesting.
\<close>

fun tame :: "(string \<Rightarrow> string) \<Rightarrow> nat \<Rightarrow> gany \<Rightarrow> bool" where
  "tame uni n GNil \<longleftrightarrow> True"
| "tame uni n (GBool b) \<longleftrightarrow> True"
| "tame uni n (GInt i) \<longleftrightarrow> True"
| "tame uni n (GFloat q) \<longleftrightarrow> True"
| "tame uni n (GStr s) \<longleftrightarrow> length (runes s) \<le> Suc maxEvidenceString"
| "tame uni n (GMap None) \<longleftrightarrow> 0 < n"
| "tame uni n (GMap (Some m)) \<longleftrightarrow> 0 < n \<and> sorted (gm_keys m) \<and> length m \<le> maxEvidenceKeys \<and> list_all (\<lambda>(k, v). \<not> isSecretKey uni k \<and> tame uni (n - 1) v) m"
| "tame uni n (GList xs) \<longleftrightarrow> length xs \<le> maxEvidenceList \<and> list_all (tame uni (n - 1)) xs"
| "tame uni n (GStrs ss) \<longleftrightarrow> False"
| "tame uni n (GOther t) \<longleftrightarrow> False"

lemma length_runes_le: "length (runes s) \<le> length s"
proof (induction s rule: runes.induct)
  case (2 c s)
  show ?case
  proof (cases "rune_size (c # s) = 0")
    case True
    then show ?thesis using 2(1) [OF refl] by (simp add: Let_def)
  next
    case False
    then have "length (runes (drop (rune_size (c # s)) (c # s))) \<le> length (c # s) - rune_size (c # s)"
      using 2(2) [OF refl] by simp
    then show ?thesis using False rune_size_le [of "c # s"] by (simp add: Let_def)
  qed
qed simp

lemma runes_valid: "r \<in> set (runes s) \<Longrightarrow> valid_rune r"
proof (induction s rule: runes.induct)
  case (2 c s)
  have "valid_rune RuneError" by (simp add: valid_rune_def RuneError_def rune_size_def ascii_def byte_in_def)
  moreover have "valid_rune (take (rune_size (c # s)) (c # s))" if "rune_size (c # s) \<noteq> 0"
    using rune_size_prefix [OF that, of "[]"] that rune_size_le [of "c # s"] by (auto simp: valid_rune_def)
  ultimately show ?case using 2 by (auto simp: Let_def split: if_splits)
qed simp

lemma runes_append: "valid_rune r \<Longrightarrow> runes (r @ t) = r # runes t"
proof -
  assume r: "valid_rune r"
  then have "rune_size (r @ t) = length r" using rune_size_prefix [of r t] by (auto simp: valid_rune_def)
  then show ?thesis using r by (cases r) (auto simp: valid_rune_def Let_def)
qed

lemma runes_concat: "list_all valid_rune rs \<Longrightarrow> runes (concat rs @ t) = rs @ runes t"
  by (induction rs) (simp_all add: runes_append)

lemma truncateRunes_bound: "length (runes (truncateRunes s n)) \<le> Suc n"
proof (cases "length (runes s) \<le> n")
  case False
  have "list_all valid_rune (take n (runes s))" using runes_valid by (auto simp: list_all_iff dest: in_set_takeD)
  moreover have "runes ellipsis = [ellipsis]" using runes_append [of ellipsis "[]"]
    by (simp add: valid_rune_def ellipsis_def rune_size_def ascii_def byte_in_def)
  ultimately show ?thesis using False runes_concat by (simp add: truncateRunes_def Let_def)
qed (simp add: truncateRunes_def Let_def)

lemma clean_text_bound: "length (runes (clean_text s)) \<le> Suc maxEvidenceString"
  unfolding clean_text_def by (rule truncateRunes_bound)

lemma short_text: "length s \<le> 401 \<Longrightarrow> length (runes s) \<le> Suc maxEvidenceString"
  using length_runes_le [of s] by (simp add: maxEvidenceString_def)

lemma kept_keys_facts:
  "sorted (kept_keys uni m)" "length (kept_keys uni m) \<le> maxEvidenceKeys" "list_all (\<lambda>k. \<not> isSecretKey uni k) (kept_keys uni m)"
  "set (kept_keys uni m) \<subseteq> set (gm_keys m)"
  by (auto simp: kept_keys_def list_all_iff dest: in_set_takeD)

lemma sanitize_tame:
  "depth \<le> 3 \<Longrightarrow> tame uni (3 - depth) (sanitizeValue uni rt v depth)"
  "depth \<le> 3 \<Longrightarrow> tame uni (4 - depth) (GMap (sanitizeMap uni rt inp depth))"
proof (induction uni rt v depth and uni rt inp depth rule: sanitizeValue_sanitizeMap.induct)
  case (1 uni rt v depth)
  show ?case
  proof (cases v)
    case (GStr s)
    then show ?thesis by (simp add: sanitizeValue.simps clean_text_bound)
  next
    case (GMap m)
    show ?thesis
    proof (cases "depth \<ge> maxEvidenceDepth")
      case False
      then show ?thesis using 1(1) [OF GMap False] by (simp add: sanitizeValue.simps GMap maxEvidenceDepth_def)
    qed (simp add: sanitizeValue.simps GMap short_text del: runes.simps)
  next
    case (GList xs)
    show ?thesis
    proof (cases "depth \<ge> maxEvidenceDepth")
      case False
      have "tame uni (2 - depth) (sanitizeValue uni rt x (depth + 1))" if "x \<in> set (take maxEvidenceList xs)" for x
        using 1(2) [OF GList False that] False by (simp add: maxEvidenceDepth_def)
      then show ?thesis using False by (simp add: sanitizeValue.simps GList list_all_iff)
    qed (simp add: sanitizeValue.simps GList short_text del: runes.simps)
  next
    case (GStrs ss)
    then show ?thesis by (simp add: sanitizeValue.simps list_all_iff clean_text_bound)
  next
    case (GOther tag)
    show ?thesis
    proof (cases "rt tag")
      case None
      then show ?thesis by (simp add: sanitizeValue.simps GOther short_text del: runes.simps)
    next
      case (Some j)
      then show ?thesis using 1(3) [OF GOther Some 1(4)] by (subst sanitizeValue.simps) (simp add: GOther)
    qed
  qed (simp_all add: sanitizeValue.simps)
next
  case (2 uni rt inp depth)
  show ?case
  proof (cases inp)
    case None
    then show ?thesis using 2(2) by (simp add: sanitizeMap.simps)
  next
    case (Some m)
    let ?v = "\<lambda>k. case gm_get m k of Some v \<Rightarrow> sanitizeValue uni rt v depth | None \<Rightarrow> GNil"
    have "tame uni (3 - depth) (?v k)" if "k \<in> set (kept_keys uni m)" for k
    proof -
      have "kept_keys uni m \<noteq> []" using that by auto
      then show ?thesis using 2(1) [OF Some refl _ that _ 2(2)] by (cases "gm_get m k") auto
    qed
    then show ?thesis using kept_keys_facts [of uni m] 2(2)
      by (auto simp: sanitizeMap.simps Some Let_def list_all_iff comp_def)
  qed
qed

lemma sort_cong: "mset xs = mset ys \<Longrightarrow> sort xs = sort ys"
  by (metis sorted_list_of_multiset_mset)

lemma gm_perm: "gm_ok m \<Longrightarrow> mset m = mset m' \<Longrightarrow> gm_get m = gm_get m'"
  using map_of_inject_set [of m m'] mset_eq_imp_distinct_iff [of "map fst m" "map fst m'"] mset_eq_setD [of m m'] by simp

lemma kept_keys_perm: "mset m = mset m' \<Longrightarrow> kept_keys uni m = kept_keys uni m'"
  unfolding kept_keys_def by (metis mset_filter mset_map sort_cong)

text \<open>The keys that stay are the least of those that are not secret-like.\<close>

lemma take_strict_least:
  fixes k :: "'a :: linorder"
  assumes "sorted_wrt (<) ys"
  shows "k \<in> set (take n ys) \<longleftrightarrow> k \<in> set ys \<and> card {x \<in> set ys. x < k} < n"
  using assms
proof (induction ys arbitrary: n)
  case (Cons y ys)
  have "card {x \<in> set (y # ys). x < k} = Suc (card {x \<in> set ys. x < k})" if "k \<in> set ys"
  proof -
    have "{x \<in> set (y # ys). x < k} = insert y {x \<in> set ys. x < k}" and "y \<notin> set ys" using Cons.prems that by auto
    then show ?thesis by simp
  qed
  moreover have "{x \<in> set (y # ys). x < y} = {}" using Cons.prems by auto
  then have zero: "card {x \<in> set (y # ys). x < y} = 0" by (simp only: card.empty)
  ultimately have suc: "k \<in> set ys \<Longrightarrow> card {x \<in> set (y # ys). x < k} = Suc (card {x \<in> set ys. x < k})" by blast
  show ?case
  proof (cases n)
    case (Suc l)
    have ne: "k \<noteq> y" if "k \<in> set ys" using Cons.prems that by auto
    show ?thesis
    proof (cases "k \<in> set ys")
      case True
      then show ?thesis unfolding Suc suc [OF True] using Cons.IH [of l] Cons.prems ne [OF True] by simp
    next
      case False
      then have "k \<notin> set (take l ys)" by (auto dest: in_set_takeD)
      then show ?thesis
      proof (cases "k = y")
        case True
        show ?thesis unfolding True Suc zero by simp
      qed (use False in \<open>simp add: Suc\<close>)
    qed
  qed simp
qed simp

lemma take_sorted_least:
  fixes k :: "'a :: linorder"
  assumes "distinct xs"
  shows "k \<in> set (take n (sort xs)) \<longleftrightarrow> k \<in> set xs \<and> card {x \<in> set xs. x < k} < n"
  using take_strict_least [of "sort xs" k n] assms by (simp add: strict_sorted_iff)

section \<open>Property\<close>

text \<open>
  C27. What the sidecar is sent of a finding's evidence, whatever values of whatever types the evidence holds: at every level no key with a marker
  of a secret and at most 24 keys in ascending order, lists of at most 12 values, strings of at most 401 runes, at most three levels of maps, and no
  value outside the types of JSON. At the top level the keys kept are the 24 least that are not secret-like, each with the sanitised value stored
  under it, and the result does not depend on the order in which the map is visited.
\<close>

theorem evidence_sanitized:
  assumes "gm_ok m" and "mset m' = mset m"
  shows "tame uni 3 (GMap (SanitizeEvidence uni rt (Some m))) \<and> SanitizeEvidence uni rt (Some m') = SanitizeEvidence uni rt (Some m) \<and>
    (\<forall>k v. gm_get (case SanitizeEvidence uni rt (Some m) of None \<Rightarrow> [] | Some out \<Rightarrow> out) k = Some v \<longleftrightarrow>
       (\<exists>w. gm_get m k = Some w \<and> v = sanitizeValue uni rt w 1 \<and> \<not> isSecretKey uni k \<and>
          card {k' \<in> dom (gm_get m). \<not> isSecretKey uni k' \<and> k' < k} < 24))"
proof (intro conjI allI)
  show "tame uni 3 (GMap (SanitizeEvidence uni rt (Some m)))"
    using sanitize_tame(2) [of 1 uni rt "Some m"] by (simp add: SanitizeEvidence_def)
  have "gm_get m' = gm_get m" by (rule gm_perm [OF assms(1), symmetric]) (simp only: assms(2))
  moreover have "kept_keys uni m' = kept_keys uni m" by (rule kept_keys_perm [OF assms(2)])
  ultimately show "SanitizeEvidence uni rt (Some m') = SanitizeEvidence uni rt (Some m)"
    by (simp add: SanitizeEvidence_def sanitizeMap.simps Let_def)
  fix k v
  let ?val = "\<lambda>k. case gm_get m k of Some v \<Rightarrow> sanitizeValue uni rt v 1 | None \<Rightarrow> GNil"
  have out: "(case SanitizeEvidence uni rt (Some m) of None \<Rightarrow> [] | Some out \<Rightarrow> out) = map (\<lambda>k. (k, ?val k)) (kept_keys uni m)"
    by (simp add: SanitizeEvidence_def sanitizeMap.simps Let_def cong: option.case_cong)
  have get: "gm_get (map (\<lambda>k. (k, ?val k)) ks) k = (if k \<in> set ks then Some (?val k) else None)" for ks
    by (induction ks) auto
  have "distinct (filter (\<lambda>k. \<not> isSecretKey uni k) (gm_keys m))" using assms(1) by simp
  from take_sorted_least [OF this, of k 24]
  have "k \<in> set (kept_keys uni m) \<longleftrightarrow> k \<in> dom (gm_get m) \<and> \<not> isSecretKey uni k \<and>
      card {k' \<in> dom (gm_get m). \<not> isSecretKey uni k' \<and> k' < k} < 24"
    by (simp add: kept_keys_def maxEvidenceKeys_def dom_map_of_conv_image_fst conj_ac)
  then show "gm_get (case SanitizeEvidence uni rt (Some m) of None \<Rightarrow> [] | Some out \<Rightarrow> out) k = Some v \<longleftrightarrow>
       (\<exists>w. gm_get m k = Some w \<and> v = sanitizeValue uni rt w 1 \<and> \<not> isSecretKey uni k \<and>
          card {k' \<in> dom (gm_get m). \<not> isSecretKey uni k' \<and> k' < k} < 24)"
    unfolding out get by (auto split: option.splits)
qed

theorem evidence_sanitized_witness:
  "tame id 3 (GMap (SanitizeEvidence id (\<lambda>_. None) (Some [(''ip'', GOther ''t''), (''api_token'', GStr ''x'')])))"
  using evidence_sanitized [of "[(''ip'', GOther ''t''), (''api_token'', GStr ''x'')]" "[(''ip'', GOther ''t''), (''api_token'', GStr ''x'')]" id "\<lambda>_. None"] by simp

end
