(* ===== verification/Ai_Guard.thy ===== *)
theory Ai_Guard
  imports Regexp
begin

text \<open>
  The deterministic checks on a model's answer (\<^verbatim>\<open>internal/aiclient/guard.go\<close>): the text is cut into sentences, sentences that
  state another severity than the engine's or claim a change of status are removed, and an answer of which too little is left is rejected. The
  expressions are those of the source. The splitting expression is deterministic, so its matches are computed directly.
\<close>

section \<open>Sentences\<close>

definition sentence_stop :: "string \<Rightarrow> bool" where
  "sentence_stop r \<longleftrightarrow> r = ''.'' \<or> r = ''!'' \<or> r = ''?''"

text \<open>
  All matches of \<^verbatim>\<open>[^.!?]+[.!?]*\s*\<close>: runes before a match are stops, and every repetition takes all it can, because whatever
  follows accepts the empty text.
\<close>

function sentences :: "string list \<Rightarrow> string list list" where
  "sentences t =
     (let t = dropWhile sentence_stop t in
      if t = [] then []
      else
        (let body = takeWhile (\<lambda>r. \<not> sentence_stop r) t; t = dropWhile (\<lambda>r. \<not> sentence_stop r) t;
             stops = takeWhile sentence_stop t; t = dropWhile sentence_stop t;
             gap = takeWhile space_char t
         in (body @ stops @ gap) # sentences (dropWhile space_char t)))"
  by pat_completeness auto
termination
proof (relation "measure length")
  fix t u v w :: "string list"
  assume "u = dropWhile sentence_stop t" and "u \<noteq> []" and "v = dropWhile (\<lambda>r. \<not> sentence_stop r) u" and "w = dropWhile sentence_stop v"
  moreover from this have "\<not> sentence_stop (hd u)" by (metis hd_dropWhile)
  then have "length v < length u" using \<open>u \<noteq> []\<close> \<open>v = _\<close> by (cases u) (auto simp: le_imp_less_Suc length_dropWhile_le)
  ultimately show "(dropWhile space_char w, t) \<in> measure length"
    by simp (metis le_less_trans length_dropWhile_le less_le_trans)
qed simp

declare sentences.simps [simp del]

definition sentences_of :: "string \<Rightarrow> string list" where
  "sentences_of text = map concat (sentences (pieces text))"

section \<open>Severity\<close>

definition severityWords :: "string list" where
  "severityWords = [''critical'', ''high'', ''medium'', ''moderate'', ''low'', ''info'', ''informational'']"

definition same_severity :: "string \<Rightarrow> string \<Rightarrow> bool" where
  "same_severity engine w \<longleftrightarrow> w = engine \<or>
     (engine = ''info'' \<or> engine = ''informational'') \<and> (w = ''info'' \<or> w = ''informational'') \<or>
     (engine = ''medium'' \<or> engine = ''moderate'') \<and> (w = ''medium'' \<or> w = ''moderate'')"

definition conflict_rx :: "string \<Rightarrow> rx" where
  "conflict_rx engine =
     (let alt = words (filter (\<lambda>w. \<not> same_severity engine w) severityWords); noun = words [''severity'', ''risk'', ''priority''] in
      Alt (seqs [WordB, alt, some (\<lambda>r. space_char r \<or> r = ''-''), noun, WordB])
          (seqs [WordB, noun, some space_char,
             opt (alts [lit ''is'', lit ''of'', seqs [lit ''level'', some space_char, lit ''is''], seqs [lit ''rating'', some space_char, lit ''is'']]),
             Many space_char, alt, WordB]))"

text \<open>The argument \<open>uni\<close> is the case table of package \<^verbatim>\<open>unicode\<close>.\<close>

definition dropConflictingSeverity :: "(string \<Rightarrow> string) \<Rightarrow> string \<Rightarrow> string \<Rightarrow> string" where
  "dropConflictingSeverity uni text engineSeverity =
     (let engine = ToLower uni (TrimSpace engineSeverity) in
      if engine = [] \<or> text = [] then text
      else
        (let kept = filter (\<lambda>s. \<not> MatchString (conflict_rx engine) s) (sentences_of text); out = TrimSpace (concat kept) in
         if out = [] then text else out))"

section \<open>Status claims\<close>

definition statusClaim :: rx where
  "statusClaim = alts
     [seqs [WordB, words [''has been'', ''have been'', ''was'', ''were'', ''is now'', ''are now'', ''will be'', ''been''], some space_char,
        words [''marked'', ''set'', ''adjusted'', ''changed'', ''lowered'', ''raised'', ''updated'', ''reclassified'', ''downgraded'', ''upgraded'',
               ''closed'', ''resolved'', ''fixed''], WordB],
      seqs [WordB, words [''marked'', ''flagged'', ''classified''], some space_char, words [''as'', ''to''], some space_char,
        words [''resolved'', ''fixed'', ''closed'', ''safe'', ''not a risk'', ''false positive''], WordB],
      seqs [WordB, lit ''severity'', some space_char, opt (words [''has been'', ''was'', ''is now'']), Many space_char,
        words [''adjusted'', ''changed'', ''lowered'', ''raised'', ''set''], WordB]]"

definition dropStatusClaims :: "string \<Rightarrow> string" where
  "dropStatusClaims text =
     (if text = [] then text
      else TrimSpace (concat (filter (\<lambda>s. \<not> MatchString statusClaim s) (sentences_of text))))"

section \<open>The guards\<close>

record explanation =
  ex_ExplanationText :: string
  ex_WhatToVerify :: "string list"
  ex_Disclaimer :: string

definition minGroundedExplanation :: nat where "minGroundedExplanation = 20"

text \<open>The explanation as it is after the checks, and whether it survived them.\<close>

definition applyOutputGuards :: "(string \<Rightarrow> string) \<Rightarrow> explanation \<Rightarrow> string \<Rightarrow> explanation \<times> bool" where
  "applyOutputGuards uni ex engineSeverity =
     (let ex = (if engineSeverity \<noteq> [] then ex\<lparr>ex_ExplanationText := dropConflictingSeverity uni (ex_ExplanationText ex) engineSeverity\<rparr> else ex);
          ex = ex\<lparr>ex_ExplanationText := dropStatusClaims (ex_ExplanationText ex)\<rparr>;
          ex = ex\<lparr>ex_WhatToVerify := filter (\<lambda>v. TrimSpace v \<noteq> []) (map dropStatusClaims (ex_WhatToVerify ex))\<rparr>
      in (ex, \<not> length (runes (TrimSpace (ex_ExplanationText ex))) < minGroundedExplanation))"

section \<open>Sentences and matches\<close>

text \<open>A sentence that is followed by another one ends with a stop and white space.\<close>

definition closed_sentence :: "string list \<Rightarrow> bool" where
  "closed_sentence s \<longleftrightarrow> (\<exists>a d w. s = a @ d # w \<and> sentence_stop d \<and> list_all space_char w)"

lemma stop_no_word: "sentence_stop d \<Longrightarrow> \<not> word_char d"
  by (auto simp: sentence_stop_def word_char_def is_char_def byte_in_def)

lemma space_no_word: "space_char d \<Longrightarrow> \<not> word_char d"
  by (auto simp: space_char_def word_char_def is_char_def byte_in_def split: list.splits)

lemma spaces_quiet: "list_all space_char w \<Longrightarrow> quiet w"
  by (auto simp: quiet_def list_all_iff space_no_word)

text \<open>The shape of the list of sentences: what surrounds each of them in the text.\<close>

lemma sentences_cases:
  obtains (none) "sentences t = []"
  | (one) pre s where "t = pre @ s" "sentences t = [s]" "list_all sentence_stop pre"
  | (more) pre s rest where "t = pre @ s @ rest" "sentences t = s # sentences rest" "list_all sentence_stop pre" "closed_sentence s"
proof -
  define u where "u = dropWhile sentence_stop t"
  define body where "body = takeWhile (\<lambda>r. \<not> sentence_stop r) u"
  define v where "v = dropWhile (\<lambda>r. \<not> sentence_stop r) u"
  define stops where "stops = takeWhile sentence_stop v"
  define w where "w = dropWhile sentence_stop v"
  define gap where "gap = takeWhile space_char w"
  define rest where "rest = dropWhile space_char w"
  note defs = u_def body_def v_def stops_def w_def gap_def rest_def
  have t: "t = takeWhile sentence_stop t @ u" "u = body @ v" "v = stops @ w" "w = gap @ rest"
    by (simp_all add: defs)
  have pre: "list_all sentence_stop (takeWhile sentence_stop t)" "list_all sentence_stop stops" "list_all space_char gap"
    unfolding stops_def gap_def list_all_iff by (auto dest: set_takeWhileD)
  have eq: "sentences t = (if u = [] then [] else (body @ stops @ gap) # sentences rest)"
    by (subst sentences.simps) (simp add: defs Let_def)
  show ?thesis
  proof (cases "u = []")
    case True
    then show ?thesis using eq none by simp
  next
    case False
    show ?thesis
    proof (cases "v = []")
      case True
      then have "stops = []" "gap = []" "rest = []" by (simp_all add: defs(4-7))
      then have "t = takeWhile sentence_stop t @ body" "sentences t = [body]"
        using t(1,2) True eq False sentences.simps [of "[]"] by simp_all
      then show ?thesis using one pre(1) by blast
    next
      case v: False
      then have "stops \<noteq> []" unfolding stops_def v_def by (metis hd_dropWhile takeWhile_eq_Nil_iff)
      then have "body @ stops @ gap = (body @ butlast stops) @ last stops # gap" "sentence_stop (last stops)"
        using pre(2) by (simp_all add: list_all_iff)
      then have "closed_sentence (body @ stops @ gap)" using pre(3) unfolding closed_sentence_def by blast
      moreover have "t = takeWhile sentence_stop t @ (body @ stops @ gap) @ rest" using t by (metis append.assoc)
      ultimately show ?thesis using more pre(1) eq False by presburger
    qed
  qed
qed

lemma match_closed:
  assumes "edged r" and "avoids sentence_stop r" and "closed_sentence s" and "match_pieces r s" and "calm_end pre"
  shows "match_pieces r (pre @ s @ post)"
proof -
  obtain a d w where s: "s = a @ d # w" "sentence_stop d" "list_all space_char w" using assms(3) by (auto simp: closed_sentence_def)
  have "match_pieces r a \<or> match_pieces r w" using match_cut assms(2,4) s(1,2) stop_no_word by blast
  moreover have "\<not> match_pieces r w"
    using match_trim [OF assms(1) spaces_quiet [OF s(3)], of "[]" "[]"] edged_none [OF assms(1)] by (auto simp: quiet_def)
  ultimately show ?thesis
    using match_part [OF assms(5), of "d # w @ post" r a] calm_Cons [OF stop_no_word [OF s(2)]] s(1) by simp
qed

lemma closed_calm: "closed_sentence s \<Longrightarrow> calm_end (t @ s)"
proof -
  assume "closed_sentence s"
  then obtain a d w where s: "s = a @ d # w" "sentence_stop d" "list_all space_char w" by (auto simp: closed_sentence_def)
  then show ?thesis
    by (cases w rule: rev_cases) (auto simp: calm_end_def stop_no_word space_no_word)
qed

lemma stops_calm: "list_all sentence_stop pre \<Longrightarrow> calm_end t \<Longrightarrow> calm_end (t @ pre)"
  by (cases pre rule: rev_cases) (auto simp: calm_end_def stop_no_word)

text \<open>A match in a sentence is a match in the text.\<close>

lemma sentence_match:
  assumes "edged r" and "avoids sentence_stop r"
  shows "s \<in> set (sentences t) \<Longrightarrow> match_pieces r s \<Longrightarrow> calm_end pre \<Longrightarrow> match_pieces r (pre @ t)"
proof (induction t arbitrary: pre rule: length_induct)
  case (1 t)
  show ?case
  proof (cases t rule: sentences_cases)
    case none
    then show ?thesis using 1 by simp
  next
    case (one p s')
    then show ?thesis using 1(2-4) match_part [of "pre @ p" "[]" r s] stops_calm by (simp add: calm_start_def)
  next
    case (more p s' rest)
    show ?thesis
    proof (cases "s = s'")
      case True
      then show ?thesis using match_closed [OF assms more(4), of "pre @ p" rest] stops_calm [OF more(3) 1(4)] 1(3) more(1) by simp
    next
      case False
      have "s' \<noteq> []" using more(4) by (auto simp: closed_sentence_def)
      then have "length rest < length t" using more(1) by simp
      moreover have "s \<in> set (sentences rest)" using False 1(2) more(2) by simp
      ultimately have "match_pieces r ((pre @ p @ s') @ rest)"
        using 1(1,3) closed_calm [OF more(4), of "pre @ p"] by (metis append.assoc)
      then show ?thesis using more(1) by simp
    qed
  qed
qed

text \<open>All but the last of the sentences are closed, and so are all but the last of any selection.\<close>

lemma sentences_closed: "s \<in> set (butlast (sentences t)) \<Longrightarrow> closed_sentence s"
proof (induction t rule: length_induct)
  case (1 t)
  show ?case
  proof (cases t rule: sentences_cases)
    case (more p s' rest)
    have "length rest < length t" using more(1,4) by (auto simp: closed_sentence_def)
    then show ?thesis using 1 more(2,4) by (auto split: if_splits)
  qed (use 1 in auto)
qed

lemma butlast_filter: "set (butlast (filter P xs)) \<subseteq> set (butlast xs)"
  by (induction xs) (auto split: if_splits dest: in_set_butlastD)

text \<open>A match in a selection of sentences that are joined again is a match in one of them.\<close>

lemma joined_match:
  assumes "edged r" and "avoids sentence_stop r"
  shows "\<forall>s \<in> set (butlast ss). closed_sentence s \<Longrightarrow> match_pieces r (concat ss) \<Longrightarrow> \<exists>s \<in> set ss. match_pieces r s"
proof (induction ss)
  case Nil
  then show ?case using edged_none [OF assms(1)] by simp
next
  case (Cons s ss)
  show ?case
  proof (cases "ss = []")
    case False
    then have "closed_sentence s" using Cons.prems(1) by simp
    then obtain a d w where s: "s = a @ d # w" "sentence_stop d" "list_all space_char w" by (auto simp: closed_sentence_def)
    then have "match_pieces r a \<or> match_pieces r (w @ concat ss)"
      using match_cut [OF assms(2) s(2) stop_no_word [OF s(2)], of a "w @ concat ss"] Cons.prems(2) by simp
    then show ?thesis
    proof
      assume "match_pieces r a"
      then have "match_pieces r s"
        using match_part [of "[]" "d # w" r a] calm_Cons [OF stop_no_word [OF s(2)]] s(1) by (simp add: calm_end_def)
      then show ?thesis by simp
    next
      assume "match_pieces r (w @ concat ss)"
      then have "match_pieces r (concat ss)"
        using match_trim [OF assms(1) spaces_quiet [OF s(3)], of "[]"] by (simp add: quiet_def)
      then show ?thesis using Cons False by auto
    qed
  qed (use Cons in simp)
qed

section \<open>Texts and their runes\<close>

lemma pieces_valid: "valid_rune r \<Longrightarrow> pieces (r @ t) = r # pieces t"
proof -
  assume r: "valid_rune r"
  then have "rune_size (r @ t) = length r" "rune_size (r @ t) \<noteq> 0" using rune_size_mono [of r t] by (auto simp: valid_rune_def)
  then show ?thesis using pieces_step [of "r @ t"] by simp
qed

lemma pieces_valids: "list_all valid_rune rs \<Longrightarrow> pieces (concat rs @ t) = rs @ pieces t"
  by (induction rs) (simp_all add: pieces_valid)

lemma space_runes_facts: "list_all (\<lambda>r. valid_rune r \<and> \<not> word_char r \<and> \<not> tail_byte (hd r)) space_runes"
  by (simp add: space_runes_def valid_rune_def rune_size_def word_char_def is_char_def tail_byte_def ascii_def byte_in_def char_of_eq_iff)

lemma strip_split: "\<exists>rs. set rs \<subseteq> set ws \<and> s = concat rs @ strip ws s"
proof (induction ws s rule: strip.induct)
  case (1 ws s)
  show ?case
  proof (cases "find (\<lambda>r. r \<noteq> [] \<and> HasPrefix s r) ws")
    case None
    then show ?thesis by (intro exI [of _ "[]"]) (simp add: strip.simps [of ws s])
  next
    case (Some r)
    then have r: "r \<in> set ws" "take (length r) s = r" by (auto simp: find_Some_iff HasPrefix_def)
    obtain rs where "set rs \<subseteq> set ws" "drop (length r) s = concat rs @ strip ws (drop (length r) s)" using 1 Some by blast
    then show ?thesis using r Some by (intro exI [of _ "r # rs"]) (metis (no_types, lifting) append.assoc append_take_drop_id concat.simps(2)
          insert_subset list.simps(15) option.case(2) strip.simps)
  qed
qed

lemma TrimSpace_pieces:
  obtains pre post where "pieces s = pre @ pieces (TrimSpace s) @ post" "quiet pre" "quiet post"
proof -
  let ?u = "strip space_runes s"
  let ?v = "strip (map rev space_runes) (rev ?u)"
  obtain rs where rs: "set rs \<subseteq> set space_runes" "s = concat rs @ ?u" using strip_split by blast
  obtain qs where qs: "set qs \<subseteq> set (map rev space_runes)" "rev ?u = concat qs @ ?v" using strip_split by blast
  define ps where "ps = rev (map rev qs)"
  have ps: "set ps \<subseteq> set space_runes" using qs(1) unfolding ps_def by auto
  have "rev (rev ?u) = rev ?v @ rev (concat qs)" by (subst qs(2)) (rule rev_append)
  then have u: "?u = TrimSpace s @ concat ps" by (simp add: ps_def TrimSpace_def rev_concat rev_map)
  have facts: "list_all valid_rune xs \<and> quiet xs \<and> (xs = [] \<or> concat xs \<noteq> [] \<and> \<not> tail_byte (hd (concat xs)))" if "set xs \<subseteq> set space_runes" for xs
    using that space_runes_facts by (cases xs) (auto simp: list_all_iff quiet_def valid_rune_def)
  have "pieces s = rs @ pieces ?u" using pieces_valids facts [OF rs(1)] rs(2) by metis
  moreover have "pieces ?u = pieces (TrimSpace s) @ ps"
    using pieces_append [of "TrimSpace s" "concat ps"] facts [OF ps] pieces_valids [of ps "[]"] u by auto
  ultimately have "pieces s = rs @ pieces (TrimSpace s) @ ps" by simp
  then show ?thesis using that facts [OF rs(1)] facts [OF ps] by blast
qed

section \<open>What is left after the guards\<close>

lemma tidy_sentences: "tidy t \<Longrightarrow> s \<in> set (sentences t) \<Longrightarrow> tidy s"
proof (induction t rule: length_induct)
  case (1 t)
  show ?case
  proof (cases t rule: sentences_cases)
    case none
    then show ?thesis using 1 by simp
  next
    case (one p s')
    then show ?thesis using 1(2,3) tidy_suffix by auto
  next
    case (more p s' rest)
    have "length rest < length t" using more(1,4) by (auto simp: closed_sentence_def)
    moreover have "tidy s'" "tidy rest" using 1(2) more(1) tidy_suffix tidy_prefix by (metis append.assoc)+
    ultimately show ?thesis using 1(1,3) more(2) by auto
  qed
qed

lemma closed_ends_ascii: "closed_sentence s \<Longrightarrow> \<exists>c. ascii c \<and> last s = [c]"
proof -
  assume "closed_sentence s"
  then obtain a d w where s: "s = a @ d # w" "sentence_stop d" "list_all space_char w" by (auto simp: closed_sentence_def)
  show ?thesis
  proof (cases w rule: rev_cases)
    case Nil
    then show ?thesis using s(1,2) by (auto simp: sentence_stop_def ascii_def)
  next
    case (snoc w' e)
    then show ?thesis using s(1,3) by (auto simp: space_char_def is_char_def split: list.splits)
  qed
qed

lemma tidy_joined: "\<forall>s \<in> set ss. tidy s \<Longrightarrow> \<forall>s \<in> set (butlast ss). closed_sentence s \<Longrightarrow> tidy (concat ss)"
proof (induction ss)
  case (Cons s ss)
  show ?case
  proof (cases "ss = []")
    case False
    then have "\<exists>c. ascii c \<and> last s = [c]" using Cons.prems(2) closed_ends_ascii by auto
    moreover have "tidy (concat ss)" using Cons False by simp
    ultimately show ?thesis using tidy_append Cons.prems(1) by simp
  qed (use Cons in simp)
qed (simp add: tidy_def)

definition claim_rx :: "rx \<Rightarrow> bool" where
  "claim_rx r \<longleftrightarrow> edged r \<and> avoids sentence_stop r"

text \<open>The text without the sentences that an expression matches: the expression matches nowhere in it, and other expressions only where they did.\<close>

lemma dropped_clean:
  assumes "claim_rx r" and "MatchString r (TrimSpace (concat (filter P (sentences_of text))))"
  shows "\<exists>s \<in> set (filter P (sentences_of text)). MatchString r s"
proof -
  let ?ss = "filter (\<lambda>s. P (concat s)) (sentences (pieces text))"
  have r: "edged r" "avoids sentence_stop r" using assms(1) by (simp_all add: claim_rx_def)
  have closed: "\<forall>s \<in> set (butlast ?ss). closed_sentence s" using butlast_filter sentences_closed by fast
  have tidy: "\<forall>s \<in> set ?ss. tidy s" using tidy_sentences [of "pieces text"] by simp
  have flt: "filter P (sentences_of text) = map concat ?ss" by (simp add: sentences_of_def filter_map comp_def)
  have "concat (map concat xs) = concat (concat xs)" for xs :: "string list list" by (induction xs) auto
  then have join: "concat (filter P (sentences_of text)) = concat (concat ?ss)" unfolding flt .
  have "match_pieces r (pieces (concat (concat ?ss)))"
  proof (rule TrimSpace_pieces)
    fix pre post
    assume "pieces (concat (concat ?ss)) = pre @ pieces (TrimSpace (concat (concat ?ss))) @ post" and "quiet pre" and "quiet post"
    then show ?thesis using match_part quiet_calm assms(2) unfolding MatchString_def join by metis
  qed
  then have "match_pieces r (concat ?ss)" using tidy_joined [OF tidy closed] by (simp add: tidy_def)
  from joined_match [OF r closed this] obtain s where s: "s \<in> set ?ss" "match_pieces r s" by blast
  then have "MatchString r (concat s)" using tidy by (simp add: MatchString_def tidy_def)
  then show ?thesis using s(1) unfolding flt by auto
qed

lemma sentences_of_match:
  assumes "claim_rx r" and "s \<in> set (sentences_of text)" and "MatchString r s"
  shows "MatchString r text"
proof -
  obtain u where u: "s = concat u" "u \<in> set (sentences (pieces text))" using assms(2) by (auto simp: sentences_of_def)
  then have "match_pieces r u" using assms(3) tidy_sentences [OF tidy_pieces u(2)] by (simp add: MatchString_def tidy_def)
  then show ?thesis using sentence_match [of r u "pieces text" "[]"] assms(1) u(2) by (simp add: claim_rx_def MatchString_def calm_end_def)
qed

lemma claim_Alt: "claim_rx a \<Longrightarrow> claim_rx b \<Longrightarrow> claim_rx (Alt a b)"
  by (simp add: claim_rx_def edged_Alt)

lemma avoids_lit: "\<forall>c \<in> set w. \<forall>d. sentence_stop d \<longrightarrow> \<not> fold_char c d \<Longrightarrow> avoids sentence_stop (lit w)"
  by (induction w) (simp_all add: lit_def)

definition plain_letter :: "char \<Rightarrow> bool" where
  "plain_letter c \<longleftrightarrow> c \<notin> set ''.!?''"

lemma avoids_word [simp]: "list_all plain_letter w \<Longrightarrow> avoids sentence_stop (lit w)"
  by (rule avoids_lit) (auto simp: list_all_iff plain_letter_def sentence_stop_def fold_char_def is_char_def lower_byte_def byte_in_def)

lemma avoids_foldl: "avoids st (foldl Alt r rs) \<longleftrightarrow> avoids st r \<and> list_all (avoids st) rs"
  by (induction rs arbitrary: r) auto

lemma avoids_alts: "avoids st (alts rs) \<longleftrightarrow> list_all (avoids st) rs"
  by (cases rs) (simp_all add: alts_def avoids_foldl)

lemma avoids_words: "list_all (list_all plain_letter) ws \<Longrightarrow> avoids sentence_stop (words ws)"
  by (auto simp: words_def avoids_alts list_all_iff)

lemma avoids_seqs: "avoids st (seqs rs) \<longleftrightarrow> list_all (avoids st) rs"
  by (induction rs) (simp_all add: seqs_def)

lemma stop_no_space [simp]: "sentence_stop d \<Longrightarrow> \<not> space_char d"
  by (auto simp: sentence_stop_def space_char_def is_char_def)

lemma avoids_spaces [simp]: "avoids sentence_stop (some space_char)" "avoids sentence_stop (some (\<lambda>r. space_char r \<or> r = ''-''))"
  by (auto simp: some_def sentence_stop_def space_char_def is_char_def)

lemma claim_seqs: "list_all (avoids sentence_stop) rs \<Longrightarrow> claim_rx (seqs (WordB # rs @ [WordB]))"
  unfolding claim_rx_def using edged_seqs by (simp add: avoids_seqs)

lemma statusClaim_rx: "claim_rx statusClaim"
proof -
  note simps = avoids_words avoids_alts opt_def plain_letter_def
  have "claim_rx (seqs (WordB # [words [''has been'', ''have been'', ''was'', ''were'', ''is now'', ''are now'', ''will be'', ''been''], some space_char,
        words [''marked'', ''set'', ''adjusted'', ''changed'', ''lowered'', ''raised'', ''updated'', ''reclassified'', ''downgraded'', ''upgraded'',
               ''closed'', ''resolved'', ''fixed'']] @ [WordB]))" (is ?a)
    by (rule claim_seqs) (simp add: simps)
  moreover have "claim_rx (seqs (WordB # [words [''marked'', ''flagged'', ''classified''], some space_char, words [''as'', ''to''], some space_char,
        words [''resolved'', ''fixed'', ''closed'', ''safe'', ''not a risk'', ''false positive'']] @ [WordB]))" (is ?b)
    by (rule claim_seqs) (simp add: simps)
  moreover have "claim_rx (seqs (WordB # [lit ''severity'', some space_char, opt (words [''has been'', ''was'', ''is now'']), Many space_char,
        words [''adjusted'', ''changed'', ''lowered'', ''raised'', ''set'']] @ [WordB]))" (is ?c)
    by (rule claim_seqs) (simp add: simps)
  ultimately have "?a \<and> ?b \<and> ?c" by blast
  then show ?thesis by (simp add: statusClaim_def alts_def claim_Alt)
qed

lemma conflict_rx: "claim_rx (conflict_rx engine)"
proof -
  note simps = avoids_words avoids_alts avoids_seqs opt_def plain_letter_def
  let ?ws = "filter (\<lambda>w. \<not> same_severity engine w) severityWords"
  have "list_all (list_all plain_letter) severityWords" by (simp add: severityWords_def plain_letter_def)
  then have alt: "avoids sentence_stop (words ?ws)" by (intro avoids_words) (auto simp: list_all_iff)
  have "claim_rx (seqs (WordB # [words ?ws, some (\<lambda>r. space_char r \<or> r = ''-''), words [''severity'', ''risk'', ''priority'']] @ [WordB]))"
    by (rule claim_seqs) (simp add: simps alt)
  moreover have "claim_rx (seqs (WordB # [words [''severity'', ''risk'', ''priority''], some space_char,
       opt (alts [lit ''is'', lit ''of'', seqs [lit ''level'', some space_char, lit ''is''], seqs [lit ''rating'', some space_char, lit ''is'']]),
       Many space_char, words ?ws] @ [WordB]))"
    by (rule claim_seqs) (simp add: simps alt)
  ultimately show ?thesis by (simp add: conflict_rx_def Let_def claim_Alt)
qed

lemma no_claims: "\<not> MatchString statusClaim (dropStatusClaims text)"
  using dropped_clean [OF statusClaim_rx, of "\<lambda>s. \<not> MatchString statusClaim s" "text"] edged_none statusClaim_rx
  by (auto simp: dropStatusClaims_def MatchString_def claim_rx_def)

text \<open>Removing claims adds no conflict.\<close>

lemma claims_keep:
  assumes "claim_rx r" and "MatchString r (dropStatusClaims text)"
  shows "MatchString r text"
proof (cases "text = []")
  case False
  then obtain s where "s \<in> set (sentences_of text)" "MatchString r s"
    using dropped_clean [OF assms(1)] assms(2) by (auto simp: dropStatusClaims_def)
  then show ?thesis using sentences_of_match assms(1) by blast
qed (use assms(2) in \<open>simp add: dropStatusClaims_def\<close>)

lemma no_conflict:
  assumes "engine = ToLower uni (TrimSpace sev)" and "engine \<noteq> []"
    and "TrimSpace (concat (filter (\<lambda>s. \<not> MatchString (conflict_rx engine) s) (sentences_of text))) \<noteq> []"
  shows "\<not> MatchString (conflict_rx engine) (dropConflictingSeverity uni text sev)"
proof -
  have "text \<noteq> []" using assms(3) by (auto simp: sentences_of_def sentences.simps [of "[]"])
  then show ?thesis using dropped_clean [OF conflict_rx, of engine "\<lambda>s. \<not> MatchString (conflict_rx engine) s" "text"] assms
    by (auto simp: dropConflictingSeverity_def Let_def)
qed

end
