(* ===== verification/Ai_Client.thy ===== *)
theory Ai_Client
  imports Ai_Evidence Ai_Guard
begin

text \<open>
  The client of the AI sidecar (\<^verbatim>\<open>internal/aiclient/client.go\<close>): its options, the prompt, one request and the loop around it. The
  JSON codecs, the check of a URL by \<^verbatim>\<open>http.NewRequest\<close>, the answers of the other side and the cancellation of the caller's context are
  in the environment; an attempt is identified by its number. The result lists the requests and the waits in their order.
\<close>

section \<open>Errors\<close>

datatype ai_sentinel = NoSentinel | ErrUnavailable | ErrInvalidRequest | ErrInvalidResponse | ErrRejected

fun sentinel_text :: "ai_sentinel \<Rightarrow> string" where
  "sentinel_text NoSentinel = []"
| "sentinel_text ErrUnavailable = ''aiclient: hexward-ai sidecar unavailable''"
| "sentinel_text ErrInvalidRequest = ''aiclient: hexward-ai rejected the request''"
| "sentinel_text ErrInvalidResponse = ''aiclient: hexward-ai returned an unparsable response''"
| "sentinel_text ErrRejected = ''aiclient: model output rejected by guard (no grounded explanation remained)''"

text \<open>An error with the sentinel it wraps, whether it is a \<^verbatim>\<open>retryableError\<close>, and its text.\<close>

record ai_error =
  ae_Is :: ai_sentinel
  ae_Retryable :: bool
  ae_Text :: string

definition plain_error :: "string \<Rightarrow> ai_error" where
  "plain_error t = \<lparr>ae_Is = NoSentinel, ae_Retryable = False, ae_Text = t\<rparr>"

definition wrapping :: "ai_sentinel \<Rightarrow> string \<Rightarrow> ai_error" where
  "wrapping e t = \<lparr>ae_Is = e, ae_Retryable = False, ae_Text = sentinel_text e @ t\<rparr>"

definition retryableError :: "ai_error \<Rightarrow> ai_error" where
  "retryableError e = e\<lparr>ae_Retryable := True\<rparr>"

definition isRetryable :: "ai_error \<Rightarrow> bool" where "isRetryable e = ae_Retryable e"
definition IsUnavailable :: "ai_error \<Rightarrow> bool" where "IsUnavailable e \<longleftrightarrow> ae_Is e = ErrUnavailable"
definition IsRejected :: "ai_error \<Rightarrow> bool" where "IsRejected e \<longleftrightarrow> ae_Is e = ErrRejected"

section \<open>Requests and answers\<close>

record chat_message =
  cm_Role :: string
  cm_Content :: string

record chat_request =
  cq_Model :: string
  cq_Messages :: "chat_message list"
  cq_Temperature :: rat
  cq_Grammar :: string
  cq_MaxTokens :: int
  cq_ChatTemplateKwargs :: evidence

text \<open>The message of an error object is all that is read of it.\<close>

record chat_response =
  cp_Choices :: "chat_message list"
  cp_Error :: "string option"

text \<open>What arrives of an HTTP answer: the status, the bytes of the body, and the error that ends them in place of the end of the body.\<close>

record ai_answer =
  an_StatusCode :: int
  an_Body :: string
  an_Error :: "error option"

type_synonym ai_transport = "duration \<Rightarrow> nat \<Rightarrow> http_request \<Rightarrow> error + ai_answer"

record ai_env =
  av_uni :: "string \<Rightarrow> string"
  av_isprint :: "string \<Rightarrow> bool"
  av_rt :: "string \<Rightarrow> jvalue option"
  av_finding :: "core_finding \<Rightarrow> error + string"
  av_packet :: "evidence_packet \<Rightarrow> error + string"
  av_severity :: "string \<Rightarrow> string option"
  av_request :: "chat_request \<Rightarrow> error + string"
  av_newreq :: "string \<Rightarrow> error option"
  av_response :: "string \<Rightarrow> chat_response option"
  av_explanation :: "string \<Rightarrow> explanation option"
  av_done :: "nat \<Rightarrow> error option"

section \<open>The client\<close>

record ai_client =
  cl_baseURL :: string
  cl_httpClient :: ai_transport
  cl_model :: string
  cl_timeout :: duration
  cl_maxRetries :: int
  cl_retryBackoff :: duration
  cl_grammar :: string
  cl_maxTokens :: int
  cl_apiKey :: string
  cl_noThinking :: bool

definition defaultTimeout :: duration where "defaultTimeout = 20 * Second"
definition defaultMaxRetries :: int where "defaultMaxRetries = 2"
definition defaultRetryBackoff :: duration where "defaultRetryBackoff = 400 * 10 ^ 6"
definition defaultModel :: string where "defaultModel = ''hexward-ai''"
definition defaultMaxTokens :: int where "defaultMaxTokens = 512"
definition DefaultBaseURL :: string where "DefaultBaseURL = ''http://127.0.0.1:8435''"

type_synonym ai_option = "ai_client \<Rightarrow> ai_client"

definition WithHTTPClient :: "ai_transport option \<Rightarrow> ai_option" where
  "WithHTTPClient hc c = (case hc of None \<Rightarrow> c | Some h \<Rightarrow> c\<lparr>cl_httpClient := h\<rparr>)"

definition WithModel :: "string \<Rightarrow> ai_option" where
  "WithModel model c = (if model \<noteq> [] then c\<lparr>cl_model := model\<rparr> else c)"

definition WithTimeout :: "duration \<Rightarrow> ai_option" where
  "WithTimeout d c = (if d > 0 then c\<lparr>cl_timeout := d\<rparr> else c)"

definition WithMaxRetries :: "int \<Rightarrow> ai_option" where
  "WithMaxRetries n c = (if n \<ge> 0 then c\<lparr>cl_maxRetries := n\<rparr> else c)"

definition WithRetryBackoff :: "duration \<Rightarrow> ai_option" where
  "WithRetryBackoff d c = (if d > 0 then c\<lparr>cl_retryBackoff := d\<rparr> else c)"

definition WithGrammar :: "string \<Rightarrow> ai_option" where
  "WithGrammar gbnf c = c\<lparr>cl_grammar := gbnf\<rparr>"

definition WithMaxTokens :: "int \<Rightarrow> ai_option" where
  "WithMaxTokens n c = (if n > 0 then c\<lparr>cl_maxTokens := n\<rparr> else c)"

definition WithAPIKey :: "string \<Rightarrow> ai_option" where
  "WithAPIKey key c = c\<lparr>cl_apiKey := TrimSpace key\<rparr>"

definition WithDisableThinking :: ai_option where
  "WithDisableThinking c = c\<lparr>cl_noThinking := True\<rparr>"

text \<open>\<open>dflt\<close> is the behaviour of the zero \<^verbatim>\<open>http.Client\<close>.\<close>

definition NewClient :: "ai_transport \<Rightarrow> string \<Rightarrow> ai_option list \<Rightarrow> ai_client" where
  "NewClient dflt baseURL opts =
     (let baseURL = (if baseURL = [] then DefaultBaseURL else baseURL)
      in foldl (\<lambda>c opt. opt c)
           \<lparr>cl_baseURL = TrimRight baseURL (CHR ''/''), cl_httpClient = dflt, cl_model = defaultModel, cl_timeout = defaultTimeout,
            cl_maxRetries = defaultMaxRetries, cl_retryBackoff = defaultRetryBackoff, cl_grammar = [], cl_maxTokens = defaultMaxTokens,
            cl_apiKey = [], cl_noThinking = False\<rparr> opts)"

text \<open>The configuration of AI Assist that a server holds (\<^verbatim>\<open>web/ai.go\<close>).\<close>

record ai_assist =
  aa_Client :: "ai_client option"
  aa_Endpoint :: string
  aa_Keyed :: bool
  aa_Language :: string

section \<open>Prompts\<close>

definition systemPrompt :: string where
  "systemPrompt =
     ''You are the Hexward AI Assist narrator. You will receive one JSON evidence packet describing a single security '' @
     ''finding that a Hexward product's own deterministic engine already produced.'' @ newline @ newline @ ''Rules you must follow exactly:'' @
     newline @ ''1. Use ONLY the fields inside the evidence packet. Do not state any fact (an ID, a rule number, an IP address, '' @
     ''a hostname, a CVE identifier, a date, or any other specific value) that is not present in the packet. Do not calculate, '' @
     ''convert, round or re-express numbers and dates (no '' @ [dquote] @ ''that is about 11 years'' @ [dquote] @
     ''); quote them exactly as the packet gives them. If something relevant is not in the packet, say plainly that the '' @
     ''evidence does not contain it.'' @ newline @
     ''2. You narrate; you do not decide. Never invent a new finding, never change or imply a different severity, never '' @
     ''claim something is fixed, safe, or dangerous beyond what the packet already states.'' @ newline @
     ''3. If the feature is hexward.explain_finding: explain in plain language what the finding means, using only its '' @
     ''check, title, target, severity, status, remediation and evidence fields, and why it matters to the owner of that '' @
     ''target. Keep the explanation to at most four sentences. In what_to_verify give two to four concrete checks a person '' @
     ''can actually perform before acting (for example: confirm who owns the target, confirm the change window, re-run '' @
     ''the check after the fix) '' @ emdash @
     '' do not simply restate evidence values as list items. You may restate the packet's own remediation text; never '' @
     ''invent a different fix, command, or configuration.'' @ newline @
     ''4. If the feature is rulehawk.explain_finding: explain in plain language why the rule relationship in the packet '' @
     ''matters, and list what a human should verify before touching the rule. Never draft a replacement rule or CLI command.'' @ newline @
     ''5. If the feature is auditlight.why_disappeared: explain, using only the packet's '' @ [dquote] @ ''status'' @ [dquote] @
     '' field and its plain meaning (fixed / no_longer_detected / check_failed / target_skipped), which of those happened '' @
     ''and what that means for how much the report can be trusted. Never claim '' @ [dquote] @ ''fixed'' @ [dquote] @
     '' for any other status value.'' @ newline @ ''6. Respond with a single JSON object matching the required schema exactly: {'' @ [dquote] @
     ''explanation'' @ [dquote] @ '': string, '' @ [dquote] @ ''what_to_verify'' @ [dquote] @ '': [string, ...], '' @ [dquote] @
     ''disclaimer'' @ [dquote] @ '': string}. No prose outside the JSON object.''"

definition languageInstruction :: "string \<Rightarrow> string" where
  "languageInstruction lang =
     (if lang = ''id''
      then ''Write the '' @ [dquote] @ ''explanation'' @ [dquote] @ '' and every '' @ [dquote] @ ''what_to_verify'' @ [dquote] @
     '' item in Bahasa Indonesia. Keep rule text, hostnames, IP addresses, identifiers and other field values exactly '' @
     ''as they appear in the packet '' @ emdash @ '' do not translate them.''
      else ''Write the '' @ [dquote] @ ''explanation'' @ [dquote] @ '' and every '' @ [dquote] @ ''what_to_verify'' @ [dquote] @ '' item in English.'')"

definition findingSeverity :: "ai_env \<Rightarrow> evidence_packet \<Rightarrow> string" where
  "findingSeverity env ev =
     (if ep_Feature ev \<noteq> FeatureExplainFinding then []
      else case av_severity env (ep_Finding ev) of None \<Rightarrow> [] | Some sev \<Rightarrow> TrimSpace sev)"

definition severityInstruction :: "ai_env \<Rightarrow> evidence_packet \<Rightarrow> string" where
  "severityInstruction env ev =
     (let sev = findingSeverity env ev in
      if sev = [] then []
      else ''The engine rated this finding '' @ Quote (av_isprint env) sev @
        ''. If you mention severity, use exactly that word; never call it higher or lower. '')"

section \<open>One request\<close>

definition truncate_text :: "string \<Rightarrow> nat \<Rightarrow> string" where
  "truncate_text s n = (if length s \<le> n then s else take n s @ ellipsis)"

text \<open>\<^verbatim>\<open>io.ReadAll\<close> of a reader that ends after \<open>n\<close> bytes: an error behind them is not seen.\<close>

definition read_body :: "nat \<Rightarrow> ai_answer \<Rightarrow> error + string" where
  "read_body n a =
     (if n \<le> length (an_Body a) then Inr (take n (an_Body a))
      else case an_Error a of Some err \<Rightarrow> Inl err | None \<Rightarrow> Inr (an_Body a))"

text \<open>Judging what was answered.\<close>

definition read_answer :: "ai_env \<Rightarrow> ai_answer \<Rightarrow> ai_error + explanation" where
  "read_answer env a =
     (case read_body (2 ^ 20) a of
        Inl err \<Rightarrow> Inl (retryableError (plain_error (''aiclient: read response body: '' @ err)))
      | Inr body \<Rightarrow>
          if an_StatusCode a \<ge> 500
          then Inl (retryableError (wrapping ErrUnavailable ('': HTTP '' @ itoa (an_StatusCode a) @ '': '' @ truncate_text body 300)))
          else if an_StatusCode a \<ge> 400
          then Inl (wrapping ErrInvalidRequest ('': HTTP '' @ itoa (an_StatusCode a) @ '': '' @ truncate_text body 300))
          else
            (case av_response env body of
               None \<Rightarrow> Inl (wrapping ErrInvalidResponse ('': not valid JSON: '' @ truncate_text body 300))
             | Some parsed \<Rightarrow>
                 (case cp_Error parsed of
                    Some msg \<Rightarrow> Inl (retryableError (wrapping ErrUnavailable ('': sidecar reported an error: '' @ msg)))
                  | None \<Rightarrow>
                      (case cp_Choices parsed of
                         [] \<Rightarrow> Inl (wrapping ErrInvalidResponse '': response had no choices'')
                       | choice # _ \<Rightarrow>
                           (case av_explanation env (cm_Content choice) of
                              None \<Rightarrow> Inl (wrapping ErrInvalidResponse
                                 ('': model content was not the required JSON schema: '' @ truncate_text (cm_Content choice) 300))
                            | Some ex \<Rightarrow>
                                if TrimSpace (ex_ExplanationText ex) = [] then Inl (wrapping ErrInvalidResponse '': empty explanation field'')
                                else Inr ex)))))"

definition request_headers :: "ai_client \<Rightarrow> (string, string) gomap" where
  "request_headers c =
     (let h = gm_set ''Content-Type'' ''application/json'' [] in
      if cl_apiKey c \<noteq> [] then gm_set ''Authorization'' (''Bearer '' @ cl_apiKey c) h else h)"

definition doRequest :: "ai_env \<Rightarrow> ai_client \<Rightarrow> nat \<Rightarrow> chat_request \<Rightarrow> http_request list \<times> (ai_error + explanation)" where
  "doRequest env c attempt reqBody =
     (case av_request env reqBody of
        Inl err \<Rightarrow> ([], Inl (plain_error (''aiclient: marshal request: '' @ err)))
      | Inr body \<Rightarrow>
          (let url = cl_baseURL c @ ''/v1/chat/completions'' in
           case av_newreq env url of
             Some err \<Rightarrow> ([], Inl (plain_error (''aiclient: build request: '' @ err)))
           | None \<Rightarrow>
               (let rq = \<lparr>rq_URL = url, rq_Header = request_headers c, rq_Body = body\<rparr> in
                case cl_httpClient c (cl_timeout c) attempt rq of
                  Inl err \<Rightarrow> ([rq], Inl (retryableError (plain_error (''aiclient: request to '' @ cl_baseURL c @ '': '' @ err))))
                | Inr a \<Rightarrow> ([rq], read_answer env a))))"

section \<open>Explaining\<close>

definition CanonicalDisclaimer :: string where
  "CanonicalDisclaimer = ''AI-generated summary '' @ emdash @ '' verify against raw findings''"

datatype ai_event = Waited duration | Asked http_request

text \<open>The body of a successful attempt.\<close>

definition accept :: "ai_env \<Rightarrow> evidence_packet \<Rightarrow> explanation \<Rightarrow> ai_error + explanation" where
  "accept env ev ex =
     (case applyOutputGuards (av_uni env) ex (findingSeverity env ev) of
        (ex, ok) \<Rightarrow> if ok then Inr (ex\<lparr>ex_Disclaimer := CanonicalDisclaimer\<rparr>) else Inl (wrapping ErrRejected []))"

text \<open>The loop from an attempt on, with the number of attempts left and the text of the last error.\<close>

fun explain_loop ::
  "ai_env \<Rightarrow> ai_client \<Rightarrow> evidence_packet \<Rightarrow> chat_request \<Rightarrow> nat \<Rightarrow> nat \<Rightarrow> string \<Rightarrow> ai_event list \<times> (ai_error + explanation)" where
  "explain_loop env c ev reqBody attempt 0 lastErr =
     ([], Inl (wrapping ErrUnavailable ('' (after '' @ itoa (wrap64 (cl_maxRetries c + 1)) @ '' attempt(s)): '' @ lastErr)))"
| "explain_loop env c ev reqBody attempt (Suc n) lastErr =
     (case (if attempt > 0 then av_done env attempt else None) of
        Some err \<Rightarrow> ([], Inl (plain_error err))
      | None \<Rightarrow>
          (let waits = (if attempt > 0 then [Waited (wrap64 (int attempt * cl_retryBackoff c))] else []) in
           case doRequest env c attempt reqBody of
             (rqs, Inr ex) \<Rightarrow> (waits @ map Asked rqs, accept env ev ex)
           | (rqs, Inl err) \<Rightarrow>
               if \<not> isRetryable err then (waits @ map Asked rqs, Inl err)
               else case explain_loop env c ev reqBody (Suc attempt) n (ae_Text err) of
                      (es, r) \<Rightarrow> (waits @ map Asked rqs @ es, r)))"

definition chat_body :: "ai_env \<Rightarrow> ai_client \<Rightarrow> evidence_packet \<Rightarrow> string \<Rightarrow> chat_request" where
  "chat_body env c ev payload =
     \<lparr>cq_Model = cl_model c,
      cq_Messages =
        [\<lparr>cm_Role = ''system'', cm_Content = systemPrompt @ newline @ ''7. '' @ languageInstruction (ep_Language ev)\<rparr>,
         \<lparr>cm_Role = ''user'', cm_Content = payload @ newline @ newline @ severityInstruction env ev @ languageInstruction (ep_Language ev)\<rparr>],
      cq_Temperature = 2 / 10, cq_Grammar = cl_grammar c, cq_MaxTokens = cl_maxTokens c,
      cq_ChatTemplateKwargs = (if cl_noThinking c then Some [(''enable_thinking'', GBool False)] else None)\<rparr>"

definition Explain :: "ai_env \<Rightarrow> ai_client \<Rightarrow> evidence_packet \<Rightarrow> ai_event list \<times> (ai_error + explanation)" where
  "Explain env c ev =
     (if ep_Feature ev = [] then ([], Inl (plain_error ''aiclient: EvidencePacket.Feature is required''))
      else if ep_Product ev = [] then ([], Inl (plain_error ''aiclient: EvidencePacket.Product is required''))
      else if ep_Finding ev = [] then ([], Inl (plain_error ''aiclient: EvidencePacket.Finding is required''))
      else
        (let ev = ev\<lparr>ep_Language := NormalizeLanguage (av_uni env) (ep_Language ev)\<rparr> in
         case av_packet env ev of
           Inl err \<Rightarrow> ([], Inl (plain_error (''aiclient: marshal evidence packet: '' @ err)))
         | Inr payload \<Rightarrow> explain_loop env c ev (chat_body env c ev payload) 0 (nat (cl_maxRetries c + 1)) ''<nil>''))"

section \<open>Lemmas\<close>

lemma accept_guarded:
  assumes "accept env ev ex0 = Inr ex"
  shows "\<not> MatchString statusClaim (ex_ExplanationText ex)" "\<forall>v \<in> set (ex_WhatToVerify ex). \<not> MatchString statusClaim v"
    "20 \<le> length (runes (TrimSpace (ex_ExplanationText ex)))" "ex_Disclaimer ex = CanonicalDisclaimer"
  using assms no_claims
  by (auto simp: accept_def applyOutputGuards_def Let_def minGroundedExplanation_def split: if_splits)

lemma accept_severity:
  assumes "accept env ev ex0 = Inr ex" and "engine = ToLower (av_uni env) (TrimSpace (findingSeverity env ev))" and "engine \<noteq> []"
    and "MatchString (conflict_rx engine) (ex_ExplanationText ex)"
  shows "TrimSpace (concat (filter (\<lambda>s. \<not> MatchString (conflict_rx engine) s) (sentences_of (ex_ExplanationText ex0)))) = []"
proof (rule ccontr)
  assume "\<not> ?thesis"
  then have none: "\<not> MatchString (conflict_rx engine) (dropConflictingSeverity (av_uni env) (ex_ExplanationText ex0) (findingSeverity env ev))"
    using no_conflict [OF assms(2,3)] by blast
  have "findingSeverity env ev \<noteq> []" using assms(2,3) by auto
  then have "ex_ExplanationText ex = dropStatusClaims (dropConflictingSeverity (av_uni env) (ex_ExplanationText ex0) (findingSeverity env ev))"
    using assms(1) by (auto simp: accept_def applyOutputGuards_def Let_def split: if_splits)
  then show False using claims_keep [OF conflict_rx] none assms(4) by metis
qed

definition the_request :: "ai_client \<Rightarrow> string \<Rightarrow> http_request" where
  "the_request c body = \<lparr>rq_URL = cl_baseURL c @ ''/v1/chat/completions'', rq_Header = request_headers c, rq_Body = body\<rparr>"

lemma doRequest_success:
  assumes "doRequest env c k rb = (rqs, Inr ex)"
  obtains body ans where "av_request env rb = Inr body" "rqs = [the_request c body]"
    "cl_httpClient c (cl_timeout c) k (the_request c body) = Inr ans" "read_answer env ans = Inr ex"
  using assms by (auto simp: doRequest_def the_request_def Let_def split: sum.splits option.splits)

lemma doRequest_once: "length (fst (doRequest env c k rb)) \<le> 1"
  by (simp add: doRequest_def Let_def split: sum.split option.split)

text \<open>The loop asks at most as often as it has attempts, whatever happens.\<close>

definition asked :: "ai_event list \<Rightarrow> http_request list" where
  "asked es = List.map_filter (\<lambda>e. case e of Asked rq \<Rightarrow> Some rq | Waited _ \<Rightarrow> None) es"

lemma asked_simps [simp]: "asked [] = []" "asked (Asked rq # es) = rq # asked es" "asked (Waited d # es) = asked es"
  by (simp_all add: asked_def List.map_filter_simps)

lemma asked_append [simp]: "asked (es @ fs) = asked es @ asked fs"
proof (induction es)
  case (Cons e es)
  then show ?case by (cases e) simp_all
qed simp

lemma asked_map [simp]: "asked (map Asked rqs) = rqs"
  by (induction rqs) simp_all

lemma explain_loop_attempts: "length (asked (fst (explain_loop env c ev rb k n l))) \<le> n"
proof (induction n arbitrary: k l)
  case (Suc n)
  obtain rqs res where d: "doRequest env c k rb = (rqs, res)" by fastforce
  have "length rqs \<le> 1" using doRequest_once [of env c k rb] d by simp
  moreover have "length (asked (fst (explain_loop env c ev rb (Suc k) n m))) \<le> n" for m by (rule Suc.IH)
  ultimately have "length rqs + length (asked (fst (explain_loop env c ev rb (Suc k) n m))) \<le> Suc n" for m
    by (metis add_mono plus_1_eq_Suc)
  with \<open>length rqs \<le> 1\<close> show ?case
    by (cases "if 0 < k then av_done env k else None"; cases res) (auto simp: d Let_def split_beta)
qed simp

lemma explain_loop_once:
  assumes "explain_loop env c ev rb 0 1 l = (es, Inr ex)"
  obtains body ans ex0 where "av_request env rb = Inr body" "es = [Asked (the_request c body)]"
    "cl_httpClient c (cl_timeout c) 0 (the_request c body) = Inr ans" "read_answer env ans = Inr ex0" "accept env ev ex0 = Inr ex"
proof -
  obtain rqs res where d: "doRequest env c 0 rb = (rqs, res)" by fastforce
  show ?thesis
  proof (cases res)
    case (Inl err)
    then show ?thesis using assms d by (auto split: if_splits)
  next
    case (Inr ex0)
    then have "es = map Asked rqs" "accept env ev ex0 = Inr ex" using assms d by auto
    moreover obtain body ans where "av_request env rb = Inr body" "rqs = [the_request c body]"
      "cl_httpClient c (cl_timeout c) 0 (the_request c body) = Inr ans" "read_answer env ans = Inr ex0"
      using doRequest_success d Inr by metis
    ultimately show ?thesis using that by simp
  qed
qed

text \<open>Trimming again changes nothing.\<close>

lemma strip_none: "find (\<lambda>r. r \<noteq> [] \<and> HasPrefix (strip ws s) r) ws = None"
proof (induction ws s rule: strip.induct)
  case (1 ws s)
  show ?case
  proof (cases "find (\<lambda>r. r \<noteq> [] \<and> HasPrefix s r) ws")
    case None
    then show ?thesis by (simp add: strip.simps [of ws s])
  next
    case (Some r)
    then show ?thesis using 1 by (simp add: strip.simps [of ws s])
  qed
qed

lemma TrimSpace_idem [simp]: "TrimSpace (TrimSpace s) = TrimSpace s"
proof -
  let ?u = "strip space_runes s"
  let ?v = "strip (map rev space_runes) (rev ?u)"
  obtain qs where "rev ?u = concat qs @ ?v" using strip_split by blast
  then have u: "?u = rev ?v @ rev (concat qs)" by (metis rev_append rev_rev_ident)
  have "HasPrefix ?u r" if "HasPrefix (rev ?v) r" for r
    using that unfolding HasPrefix_def by (subst u) (metis append_eq_conv_conj append_take_drop_id append.assoc)
  then have "find (\<lambda>r. r \<noteq> [] \<and> HasPrefix (rev ?v) r) space_runes = None"
    using strip_none [of space_runes s] unfolding find_None_iff by blast
  then have 1: "strip space_runes (rev ?v) = rev ?v" by (subst strip.simps) simp
  have 2: "strip (map rev space_runes) ?v = ?v" using strip_none [of "map rev space_runes" "rev ?u"] by (subst strip.simps) simp
  show ?thesis unfolding TrimSpace_def 1 rev_rev_ident 2 ..
qed

end
