(* ===== verification/Web_Server.thy ===== *)
theory Web_Server
  imports License Scheduler Channels Verify_Domain Sqlite_Store Ai_Client
begin

text \<open>
  The dashboard's JSON API (\<^verbatim>\<open>web/server.go\<close>) over the running system, and the wiring of \<^verbatim>\<open>cmd/dmarcwatch/main.go\<close> that
  matters to it: the product's limits per tier and the restoration of saved targets at boot.

  A handler is a function from the decoded request to the response and the server it leaves behind. A response is a status code with a message,
  or the value that is written as JSON. The store of findings is the one the scheduler's engine writes to, and in this
  product the target store is the same database, so its state is the field \<open>sd_store\<close> of the scheduler. The license file is the field
  \<open>ws_File\<close>. Readings of the clock, the outcome of writing a file, and the package \<^verbatim>\<open>hfs\<close> of hexward-core are arguments. A body
  that is not valid JSON is the request \<open>None\<close>.
\<close>

section \<open>State\<close>

record ('r, 's) server =
  ws_Module :: module_info
  ws_ExportMeta :: hfs_meta
  ws_Store :: "'s store_iface"
  ws_Scheduler :: "('r, 's) scheduler"
  ws_Targets :: "'s target_iface option"
  ws_TierLimits :: "(tier, limits) gomap option"
  ws_Verify :: "(string \<Rightarrow> error + challenge list) option"
  ws_IssuerPub :: string
  ws_LicenseFile :: string
  ws_File :: "error + string"
  ws_activation :: activation
  ws_AI :: "ai_assist option"

type_synonym 'b web_response = "(int \<times> string) + 'b"

definition httpError :: "int \<Rightarrow> string \<Rightarrow> 'b web_response" where
  "httpError code msg = Inl (code, msg)"

abbreviation StatusPaymentRequired :: int where "StatusPaymentRequired \<equiv> 402"
abbreviation StatusNotFound :: int where "StatusNotFound \<equiv> 404"

definition NewServer ::
  "license_env \<Rightarrow> module_info \<Rightarrow> 's store_iface \<Rightarrow> ('r, 's) scheduler \<Rightarrow> string \<Rightarrow> string \<Rightarrow> error + string \<Rightarrow> time \<Rightarrow> ('r, 's) server" where
  "NewServer env mi st sc pub licenseFile file now =
     (let key = (if licenseFile \<noteq> [] then (case file of Inl _ \<Rightarrow> [] | Inr b \<Rightarrow> TrimSpace b) else [])
      in \<lparr>ws_Module = mi, ws_ExportMeta = \<lparr>hm_Product = [], hm_Version = [], hm_Host = []\<rparr>, ws_Store = st, ws_Scheduler = sc,
          ws_Targets = None, ws_TierLimits = None, ws_Verify = None, ws_IssuerPub = pub, ws_LicenseFile = licenseFile, ws_File = file,
          ws_activation = Activate env pub (mi_ID mi) key now, ws_AI = None\<rparr>)"

abbreviation db_of :: "('r, 's) server \<Rightarrow> 's" where "db_of srv \<equiv> sd_store (ws_Scheduler srv)"
abbreviation set_db :: "'s \<Rightarrow> ('r, 's) server \<Rightarrow> ('r, 's) server" where
  "set_db s srv \<equiv> srv\<lparr>ws_Scheduler := (ws_Scheduler srv)\<lparr>sd_store := s\<rparr>\<rparr>"
abbreviation mod_of :: "('r, 's) server \<Rightarrow> string" where "mod_of srv \<equiv> mi_ID (ws_Module srv)"

definition effLimits :: "('r, 's) server \<Rightarrow> limits" where
  "effLimits srv =
     (let act = ws_activation srv in
      case ws_TierLimits srv of
        None \<Rightarrow> ac_Limits act
      | Some lims \<Rightarrow> (case gm_get lims (ac_Tier act) of Some l \<Rightarrow> l | None \<Rightarrow> ac_Limits act))"

definition canAdd :: "limits \<Rightarrow> int \<Rightarrow> bool" where
  "canAdd l current \<longleftrightarrow> li_MaxTargets l = 0 \<or> current < li_MaxTargets l"

section \<open>Reading handlers\<close>

record summary_response =
  sm_Product :: string
  sm_Tier :: string
  sm_Notice :: string
  sm_Counts :: "(string, int) gomap"
  sm_OpenTotal :: int
  sm_Targets :: int
  sm_MaxTargets :: int
  sm_CanScanNow :: bool
  sm_TargetKind :: string

definition count_severity :: "(string, int) gomap \<Rightarrow> frecord \<Rightarrow> (string, int) gomap" where
  "count_severity counts r =
     gm_set (f_Severity r) (wrap64 ((case gm_get counts (f_Severity r) of None \<Rightarrow> 0 | Some n \<Rightarrow> n) + 1)) counts"

definition web_handleSummary :: "('r, 's) server \<Rightarrow> summary_response web_response" where
  "web_handleSummary srv =
     (case si_ListOpen (ws_Store srv) (db_of srv) (mod_of srv) of
        Inl err \<Rightarrow> httpError 500 ''store error''
      | Inr opened \<Rightarrow>
          (let act = ws_activation srv; lim = effLimits srv in
           Inr \<lparr>sm_Product = mi_Name (ws_Module srv), sm_Tier = ac_Tier act, sm_Notice = ac_Notice act,
                sm_Counts = foldl count_severity [] opened, sm_OpenTotal = int (length opened),
                sm_Targets = int (length (ListTargets (mod_of srv) (ws_Scheduler srv))), sm_MaxTargets = li_MaxTargets lim,
                sm_CanScanNow = li_ScanNow lim, sm_TargetKind = mi_TargetKind (ws_Module srv)\<rparr>))"

record challenge_json =
  cj_domain :: string
  cj_state :: string
  cj_dns_record :: string
  cj_dns_value :: string
  cj_http_url :: string
  cj_http_contents :: string
  cj_instructions :: string

definition challenge_entry :: "(string \<Rightarrow> bool) \<Rightarrow> challenge \<Rightarrow> challenge_json" where
  "challenge_entry isprint c = \<lparr>cj_domain = ch_Domain c, cj_state = ch_State c, cj_dns_record = DNSRecordName c, cj_dns_value = DNSRecordValue c,
     cj_http_url = HTTPURL c, cj_http_contents = HTTPFileContents c, cj_instructions = Instructions isprint c\<rparr>"

definition handleVerification :: "(string \<Rightarrow> bool) \<Rightarrow> ('r, 's) server \<Rightarrow> (bool \<times> challenge_json list) web_response" where
  "handleVerification isprint srv =
     (case ws_Verify srv of
        None \<Rightarrow> Inr (False, [])
      | Some lst \<Rightarrow>
          (case lst (mod_of srv) of
             Inl err \<Rightarrow> httpError 500 ''verification store error''
           | Inr challenges \<Rightarrow> Inr (True, map (challenge_entry isprint) challenges)))"

record finding_json =
  fj_Fingerprint :: string
  fj_Target :: string
  fj_Check :: string
  fj_Title :: string
  fj_Severity :: string
  fj_Status :: string
  fj_Remediation :: string
  fj_Evidence :: evidence
  fj_FirstSeen :: time
  fj_LastSeen :: time

definition finding_entry :: "frecord \<Rightarrow> finding_json" where
  "finding_entry r = \<lparr>fj_Fingerprint = f_Fingerprint r, fj_Target = f_Target r, fj_Check = f_Check r, fj_Title = f_Title r,
     fj_Severity = f_Severity r, fj_Status = f_Status r, fj_Remediation = f_Remediation r, fj_Evidence = f_Evidence r,
     fj_FirstSeen = f_FirstSeen r, fj_LastSeen = f_LastSeen r\<rparr>"

text \<open>Resolved findings without a time or older than a day are left out; \<open>now r\<close> is the clock when the loop reaches \<open>r\<close>.\<close>

definition stale_resolved :: "time \<Rightarrow> frecord \<Rightarrow> bool" where
  "stale_resolved now r \<longleftrightarrow> f_Status r = StatusResolved \<and>
     (case f_ResolvedAt r of None \<Rightarrow> True | Some t \<Rightarrow> time_Sub now t > 24 * Hour)"

definition handleFindings :: "(frecord \<Rightarrow> time) \<Rightarrow> ('r, 's) server \<Rightarrow> finding_json list web_response" where
  "handleFindings now srv =
     (case si_ListAll (ws_Store srv) (db_of srv) (mod_of srv) of
        Inl err \<Rightarrow> httpError 500 ''store error''
      | Inr recs \<Rightarrow> Inr (map finding_entry (filter (\<lambda>r. \<not> stale_resolved (now r) r) recs)))"

definition handleListTargets :: "('r, 's) server \<Rightarrow> (string \<times> string) list web_response" where
  "handleListTargets srv = Inr (map (\<lambda>t. (t_Raw t, t_Canonical t)) (ListTargets (mod_of srv) (ws_Scheduler srv)))"

definition handleGetLicense :: "('r, 's) server \<Rightarrow> (string \<times> string \<times> (string \<times> time) option) web_response" where
  "handleGetLicense srv =
     (let act = ws_activation srv in
      Inr (ac_Tier act, ac_Notice act, map_option (\<lambda>l. (lc_Email l, lc_ExpiresAt l)) (ac_License act)))"

text \<open>\<open>new\<close> and \<open>marshal\<close> are \<^verbatim>\<open>hfs.New\<close> with the server's options and \<^verbatim>\<open>hfs.Marshal\<close>; the lines written are the value.\<close>

definition handleFindingsExport ::
  "(hfs_kind \<Rightarrow> hfs_meta \<Rightarrow> hfs_source \<Rightarrow> time \<Rightarrow> 'e) \<Rightarrow> ('e \<Rightarrow> error + string) \<Rightarrow> string \<Rightarrow> time \<Rightarrow> ('r, 's) server \<Rightarrow> string list web_response" where
  "handleFindingsExport new marshal format now srv =
     (if format \<noteq> [] \<and> format \<noteq> ''hfs'' then httpError 400 ''format must be hfs''
      else case si_ListAll (ws_Store srv) (db_of srv) (mod_of srv) of
             Inl err \<Rightarrow> httpError 500 ''store error''
           | Inr recs \<Rightarrow>
               (let meta = ws_ExportMeta srv;
                    meta = (if hm_Product meta = [] then meta\<lparr>hm_Product := mod_of srv, hm_Version := mi_Version (ws_Module srv)\<rparr> else meta)
                in Inr (concat (map (\<lambda>r. case marshal (new HFSSnapshot meta (Source (finding.truncate r)) now) of
                                        Inl err \<Rightarrow> [] | Inr line \<Rightarrow> [line @ newline])
                         (filter (\<lambda>r. \<not> stale_resolved now r) recs)))))"

section \<open>Changing handlers\<close>

definition handleFindingStatus ::
  "(string \<times> string) option \<Rightarrow> ('r, 's) server \<Rightarrow> ('r, 's) server \<times> unit web_response" where
  "handleFindingStatus req srv =
     (case req of
        None \<Rightarrow> (srv, httpError 400 ''invalid JSON'')
      | Some (fingerprint, nxt) \<Rightarrow>
          if nxt \<noteq> StatusAcknowledged \<and> nxt \<noteq> StatusSuppressed \<and> nxt \<noteq> StatusOpen
          then (srv, httpError 400 ''status must be acknowledged, suppressed, or open'')
          else case si_Get (ws_Store srv) (db_of srv) (mod_of srv) fingerprint of
                 Inl err \<Rightarrow> (srv, httpError 404 ''finding not found'')
               | Inr None \<Rightarrow> (srv, httpError 404 ''finding not found'')
               | Inr (Some r) \<Rightarrow>
                   (case si_Upsert (ws_Store srv) (db_of srv) (r\<lparr>f_Status := nxt\<rparr>) of
                      Inl err \<Rightarrow> (srv, httpError 500 ''store error'')
                    | Inr s \<Rightarrow> (set_db s srv, Inr ())))"

definition limit_message :: string where
  "limit_message = ''target limit reached for your tier '' @ emdash @
     '' Pro and Team: https://whop.com/nizar-tuanku/dmarcwatch?utm_source=app''"

definition scan_message :: string where
  "scan_message = ''on-demand scans are a Pro feature '' @ emdash @
     '' scheduled scans continue as normal. Pro and Team: https://whop.com/nizar-tuanku/dmarcwatch?utm_source=app''"

definition handleAddTarget :: "string option \<Rightarrow> ('r, 's) server \<Rightarrow> ('r, 's) server \<times> string web_response" where
  "handleAddTarget req srv =
     (case req of
        None \<Rightarrow> (srv, httpError 400 ''invalid JSON'')
      | Some tgt \<Rightarrow>
          (let current = int (length (ListTargets (mod_of srv) (ws_Scheduler srv))) in
           if \<not> canAdd (effLimits srv) current then (srv, httpError 402 limit_message)
           else case AddTarget (mod_of srv) tgt (ws_Scheduler srv) of
                  (sd, Inl err) \<Rightarrow> (srv\<lparr>ws_Scheduler := sd\<rparr>, httpError 400 err)
                | (sd, Inr t) \<Rightarrow>
                    (let srv = srv\<lparr>ws_Scheduler := sd\<rparr> in
                     case ws_Targets srv of
                       None \<Rightarrow> (srv, Inr (t_Canonical t))
                     | Some T \<Rightarrow>
                         (case ti_SaveTarget T (db_of srv) (mod_of srv) (t_Raw t) (t_Canonical t) of
                            Inl err \<Rightarrow> (srv, httpError 500 ''target added but could not be persisted'')
                          | Inr s \<Rightarrow> (set_db s srv, Inr (t_Canonical t))))))"

text \<open>The error of \<^verbatim>\<open>DeleteTarget\<close> is dropped.\<close>

definition handleRemoveTarget :: "string \<Rightarrow> ('r, 's) server \<Rightarrow> ('r, 's) server \<times> unit web_response" where
  "handleRemoveTarget canonical srv =
     (if canonical = [] then (srv, httpError 400 ''canonical query parameter required'')
      else
        (let srv = srv\<lparr>ws_Scheduler := RemoveTarget (mod_of srv) canonical (ws_Scheduler srv)\<rparr> in
         case ws_Targets srv of
           None \<Rightarrow> (srv, Inr ())
         | Some T \<Rightarrow>
             (case ti_DeleteTarget T (db_of srv) (mod_of srv) canonical of
                Inl err \<Rightarrow> (srv, Inr ())
              | Inr s \<Rightarrow> (set_db s srv, Inr ()))))"

definition handleScanNow :: "('r, 's) server \<Rightarrow> ('r, 's) server \<times> unit web_response" where
  "handleScanNow srv =
     (if \<not> li_ScanNow (effLimits srv) then (srv, httpError 402 scan_message)
      else case ScanNow (mod_of srv) (ws_Scheduler srv) of
             (sd, Some err) \<Rightarrow> (srv\<lparr>ws_Scheduler := sd\<rparr>, httpError 500 err)
           | (sd, None) \<Rightarrow> (srv\<lparr>ws_Scheduler := sd\<rparr>, Inr ()))"

text \<open>\<open>wr\<close> is the error of \<^verbatim>\<open>os.WriteFile\<close>.\<close>

definition handleSetLicense ::
  "license_env \<Rightarrow> time \<Rightarrow> error option \<Rightarrow> string option \<Rightarrow> ('r, 's) server \<Rightarrow> ('r, 's) server \<times> string web_response" where
  "handleSetLicense env now wr req srv =
     (case req of
        None \<Rightarrow> (srv, httpError 400 ''invalid JSON'')
      | Some k \<Rightarrow>
          (let key = TrimSpace k; act = Activate env (ws_IssuerPub srv) (mod_of srv) key now in
           if ac_Tier act = TierFree \<and> key \<noteq> [] then (srv, httpError 400 (ac_Notice act))
           else if ws_LicenseFile srv \<noteq> [] \<and> wr \<noteq> None then (srv, httpError 500 ''could not persist license key'')
           else
             (let srv = (if ws_LicenseFile srv \<noteq> [] then srv\<lparr>ws_File := Inr (key @ newline)\<rparr> else srv)
              in (srv\<lparr>ws_activation := act\<rparr>, Inr (ac_Tier act)))))"

section \<open>The product\<close>

definition dmarcwatchTierLimits :: "(tier, limits) gomap" where
  "dmarcwatchTierLimits =
     [(TierFree, \<lparr>li_MaxTargets = 1, li_RetentionDays = 30, li_Channels = [''webhook'', ''syslog'', ''file'', ''splunk-hec''],
         li_MultiUser = False, li_CustomInterval = False, li_ScanNow = False\<rparr>),
      (TierPro, \<lparr>li_MaxTargets = 10, li_RetentionDays = 365,
         li_Channels = [''webhook'', ''syslog'', ''file'', ''splunk-hec'', ''email'', ''slack'', ''telegram''],
         li_MultiUser = False, li_CustomInterval = True, li_ScanNow = True\<rparr>),
      (TierTeam, \<lparr>li_MaxTargets = 0, li_RetentionDays = 0,
         li_Channels = [''webhook'', ''syslog'', ''file'', ''splunk-hec'', ''email'', ''slack'', ''telegram'', ''pagerduty'', ''teams''],
         li_MultiUser = True, li_CustomInterval = True, li_ScanNow = True\<rparr>)]"

text \<open>The restoration of saved targets; a target that is refused is reported and skipped.\<close>

definition restore_targets :: "string \<Rightarrow> error + string list \<Rightarrow> ('r, 's) scheduler \<Rightarrow> ('r, 's) scheduler" where
  "restore_targets m saved sd =
     (case saved of Inl err \<Rightarrow> sd | Inr raws \<Rightarrow> foldl (\<lambda>sd raw. fst (AddTarget m raw sd)) sd raws)"

end
