(* ===== verification/Web_Safety.thy ===== *)
theory Web_Safety
  imports Web_Server Pipeline
begin

text \<open>
  The server in operation: any interleaving of API requests and of steps of the scheduler. Shown for every such execution: the limits of the
  free edition hold as long as no key verifies, the saved targets are always those that are scheduled, so that a restart restores them, and
  a change of status touches one finding.
\<close>

section \<open>Executions\<close>

datatype web_request =
    RStatus "(string \<times> string) option"
  | RAdd "string option"
  | RRemove string
  | RScan
  | RLicense time "error option" "string option"

fun serve :: "license_env \<Rightarrow> ('r, 's) server \<Rightarrow> web_request \<Rightarrow> ('r, 's) server" where
  "serve env srv (RStatus req) = fst (handleFindingStatus req srv)"
| "serve env srv (RAdd req) = fst (handleAddTarget req srv)"
| "serve env srv (RRemove c) = fst (handleRemoveTarget c srv)"
| "serve env srv RScan = fst (handleScanNow srv)"
| "serve env srv (RLicense now wr req) = fst (handleSetLicense env now wr req srv)"

text \<open>
  Between requests the scheduler takes any step that leaves the registrations and their targets alone, and uploads change the store of reports.
\<close>

inductive serving :: "license_env \<Rightarrow> (web_request \<Rightarrow> bool) \<Rightarrow> ('r, 's) server \<Rightarrow> ('r, 's) server \<Rightarrow> bool"
  for env P srv where
  start: "serving env P srv srv"
| request: "serving env P srv srv1 \<Longrightarrow> P req \<Longrightarrow> serving env P srv (serve env srv1 req)"
| background: "serving env P srv srv1 \<Longrightarrow> sched_step (ws_Scheduler srv1) sd \<Longrightarrow>
    sd_modules sd = sd_modules (ws_Scheduler srv1) \<Longrightarrow> serving env P srv (srv1\<lparr>ws_Scheduler := sd\<rparr>)"
| ingest: "serving env P srv srv1 \<Longrightarrow> serving env P srv (srv1\<lparr>ws_Scheduler := (ws_Scheduler srv1)\<lparr>sd_coll := r\<rparr>\<rparr>)"

section \<open>Frames of the handlers\<close>

lemma serve_fields [simp]:
  "ws_Module (serve env srv req) = ws_Module srv" "ws_Store (serve env srv req) = ws_Store srv"
  "ws_Targets (serve env srv req) = ws_Targets srv" "ws_TierLimits (serve env srv req) = ws_TierLimits srv"
  "ws_IssuerPub (serve env srv req) = ws_IssuerPub srv"
  by (cases req; force simp: handleFindingStatus_def handleAddTarget_def handleRemoveTarget_def handleScanNow_def handleSetLicense_def Let_def
      split: option.splits sum.splits prod.splits if_splits)+

lemma ListTargets_modules: "sd_modules sd = sd_modules sd' \<Longrightarrow> ListTargets m sd = ListTargets m sd'"
  by (simp add: ListTargets_def)

lemma ListTargets_store [simp]: "ListTargets m (sd\<lparr>sd_store := s\<rparr>) = ListTargets m sd"
  by (simp add: ListTargets_def)

lemma ListTargets_spawn [simp]: "ListTargets m (spawn b m' sd t) = ListTargets m sd"
  by (simp add: ListTargets_def)

lemma ListTargets_spawns [simp]: "ListTargets m (foldl (spawn b m') sd ts) = ListTargets m sd"
  by (induction ts arbitrary: sd) simp_all

lemma length_update: "length (AList.update k v m) \<le> Suc (length m)"
  by (induction m) auto

lemma length_delete: "length (AList.delete k m) \<le> length m"
  by (simp add: AList.delete_eq)

lemma AddTarget_count: "AddTarget m raw sd = (sd', res) \<Longrightarrow> length (ListTargets m sd') \<le> Suc (length (ListTargets m sd))"
  using length_update
  by (auto simp: AddTarget_def ListTargets_def snapshotTargets_def Let_def split: option.splits sum.splits if_splits)

lemma RemoveTarget_count: "length (ListTargets m (RemoveTarget m c sd)) \<le> length (ListTargets m sd)"
  using length_delete by (auto simp: RemoveTarget_def ListTargets_def snapshotTargets_def split: option.splits)

section \<open>Limits of the free edition\<close>

abbreviation target_count :: "('r, 's) server \<Rightarrow> int" where
  "target_count srv \<equiv> int (length (ListTargets (mi_ID (ws_Module srv)) (ws_Scheduler srv)))"

definition no_valid_key :: "license_env \<Rightarrow> ('r, 's) server \<Rightarrow> web_request \<Rightarrow> bool" where
  "no_valid_key env srv req \<longleftrightarrow> (\<forall>now wr k lic. req = RLicense now wr (Some k) \<longrightarrow>
     Verify env (ws_IssuerPub srv) (mi_ID (ws_Module srv)) (TrimSpace k) now \<noteq> Inr lic)"

definition free_edition :: "int \<Rightarrow> ('r, 's) server \<Rightarrow> bool" where
  "free_edition bound srv \<longleftrightarrow> ac_Tier (ws_activation srv) = TierFree \<and> ws_TierLimits srv = Some dmarcwatchTierLimits \<and>
     target_count srv \<le> bound"

lemma free_limits_in_force:
  "ac_Tier (ws_activation srv) = TierFree \<Longrightarrow> ws_TierLimits srv = Some dmarcwatchTierLimits \<Longrightarrow>
   li_MaxTargets (effLimits srv) = 1 \<and> \<not> li_ScanNow (effLimits srv)"
  by (simp add: effLimits_def dmarcwatchTierLimits_def)

lemma Activate_unverified:
  assumes "\<And>lic. Verify env pub m key now \<noteq> Inr lic"
  shows "ac_Tier (Activate env pub m key now) = TierFree"
  using assms by (auto simp: Activate_def free_activation_def split: sum.splits license_error.splits)

lemma serve_free:
  assumes "free_edition bound srv" and "1 \<le> bound" and "no_valid_key env srv req"
  shows "free_edition bound (serve env srv req)"
proof (cases req)
  case (RStatus r)
  then show ?thesis using assms(1)
    by (auto simp: free_edition_def handleFindingStatus_def split: option.splits sum.splits)
next
  case (RAdd r)
  have lim: "li_MaxTargets (effLimits srv) = 1" using assms(1) free_limits_in_force by (auto simp: free_edition_def)
  have "target_count (serve env srv req) \<le> bound"
  proof (cases "\<exists>tgt. r = Some tgt \<and> canAdd (effLimits srv) (target_count srv)")
    case True
    then obtain tgt sd res where *: "r = Some tgt" "AddTarget (mod_of srv) tgt (ws_Scheduler srv) = (sd, res)"
      "canAdd (effLimits srv) (target_count srv)" by fastforce
    then have "target_count srv < 1" by (simp add: canAdd_def lim)
    then have "length (ListTargets (mod_of srv) sd) \<le> 1" using AddTarget_count [OF *(2)] by simp
    then show ?thesis using * RAdd assms(2)
      by (auto simp: handleAddTarget_def Let_def split: sum.splits option.splits)
  next
    case False
    then show ?thesis using RAdd assms(1) by (auto simp: handleAddTarget_def Let_def free_edition_def split: option.splits)
  qed
  moreover have "ws_activation (serve env srv req) = ws_activation srv"
    using RAdd by (auto simp: handleAddTarget_def Let_def split: option.splits sum.splits prod.splits)
  ultimately show ?thesis using assms(1) by (simp add: free_edition_def)
next
  case (RRemove c)
  have "length (ListTargets (mod_of srv) (RemoveTarget (mod_of srv) c (ws_Scheduler srv))) \<le> length (ListTargets (mod_of srv) (ws_Scheduler srv))"
    by (rule RemoveTarget_count)
  then show ?thesis using assms(1) RRemove
    by (auto simp: free_edition_def handleRemoveTarget_def Let_def split: option.splits sum.splits)
next
  case RScan
  then show ?thesis using assms(1) free_limits_in_force [of srv] by (simp add: free_edition_def handleScanNow_def)
next
  case (RLicense now wr r)
  have "ac_Tier (Activate env (ws_IssuerPub srv) (mod_of srv) (TrimSpace k) now) = TierFree" if "r = Some k" for k
    using assms(3) that RLicense by (intro Activate_unverified) (auto simp: no_valid_key_def)
  then show ?thesis using assms(1) RLicense
    by (auto simp: free_edition_def handleSetLicense_def Let_def split: option.splits)
qed

lemma serving_fields:
  assumes "serving env P srv srv'"
  shows "ws_Module srv' = ws_Module srv" and "ws_Store srv' = ws_Store srv" and "ws_Targets srv' = ws_Targets srv"
    and "ws_IssuerPub srv' = ws_IssuerPub srv"
  using assms by (induction rule: serving.induct) simp_all

lemma serving_free:
  assumes "serving env (no_valid_key env srv) srv srv'" and "free_edition bound srv" and "1 \<le> bound"
  shows "free_edition bound srv'"
  using assms(1)
proof (induction rule: serving.induct)
  case start
  show ?case by (rule assms(2))
next
  case (request srv1 req)
  have "no_valid_key env srv1 req" using request.hyps serving_fields [OF request.hyps(1)] by (simp add: no_valid_key_def)
  then show ?case by (rule serve_free [OF request.IH assms(3)])
next
  case (background srv1 sd)
  then show ?case using ListTargets_modules [of sd "ws_Scheduler srv1"] by (simp add: free_edition_def)
next
  case (ingest srv1 r)
  then show ?case by (simp add: free_edition_def ListTargets_def)
qed

section \<open>Saved and scheduled targets\<close>

text \<open>
  The targets the scheduler has for the product are those the database has saved, and every saved text validates to the canonical form it is
  saved with.
\<close>

definition linked :: "marshal \<Rightarrow> unmarshal \<Rightarrow> 'r collector \<Rightarrow> ('r, sqlite_db) server \<Rightarrow> bool" where
  "linked mar unm coll srv \<longleftrightarrow>
     ws_Store srv = sqlite_iface mar unm \<and> ws_Targets srv = Some sqlite_target_iface \<and>
     e_store (sd_engine (ws_Scheduler srv)) = sqlite_iface mar unm \<and> sched_ok (ws_Scheduler srv) \<and> sq_tinv (db_of srv) \<and>
     (\<exists>reg. gm_get (sd_modules (ws_Scheduler srv)) (mod_of srv) = Some reg \<and> rg_collector reg = coll \<and>
        fst ` set (rg_targets reg) = snd ` set (sq_targets (db_of srv) (mod_of srv))) \<and>
     (\<forall>(raw, c) \<in> set (sq_targets (db_of srv) (mod_of srv)). \<exists>t. co_ValidateTarget coll raw = Inr t \<and> t_Canonical t = c)"

lemma sq_Upsert_targets: "sq_Upsert mar db r = Inr db' \<Longrightarrow> db_targets db' = db_targets db"
  by (auto simp: sq_Upsert_def Let_def split: sum.splits if_splits)

lemma Reconcile_targets:
  assumes "e_store e = sqlite_iface mar unm"
  shows "db_targets (st_store (fst (Reconcile e mi tgt fresh now db n))) = db_targets db"
proof -
  have up: "db_targets s' = db_targets s" if "si_Upsert (e_store e) s r = Inr s'" for s r s'
    using sq_Upsert_targets [of mar s r s'] that by (simp add: assms sqlite_iface_def)
  have fresh: "db_targets (st_store (fst (go_for (fresh_one e mi now byFP) st xs))) = db_targets db"
    if "db_targets (st_store st) = db_targets db" for byFP st xs
    using that by (rule go_for_invariant)
      (auto simp: fresh_one_def Let_def up split: option.splits sum.splits if_splits)
  have absent: "db_targets (st_store (fst (go_for (absent_one e mi now) st xs))) = db_targets db"
    if "db_targets (st_store st) = db_targets db" for st xs
    using that by (rule go_for_invariant) (auto simp: absent_one_def Let_def up split: sum.splits if_splits)
  show ?thesis
    using fresh absent by (simp add: Reconcile_def Let_def split: sum.split prod.split option.split) (metis fst_conv rstate.select_convs(1))
qed

lemma sq_targets_cong: "db_targets db = db_targets db' \<Longrightarrow> sq_targets db = sq_targets db' \<and> sq_tinv db = sq_tinv db'"
  by (simp add: sq_targets_def sq_tinv_def fun_eq_iff)

lemma step_targets:
  assumes "sched_step sd sd'" and "sched_ok sd" and "e_store (sd_engine sd) = sqlite_iface mar unm"
  shows "db_targets (sd_store sd') = db_targets (sd_store sd)"
proof (cases "sd_store sd' = sd_store sd")
  case False
  show ?thesis
    by (rule sched_step_store [OF assms(1,2) False]) (simp add: Reconcile_targets [OF assms(3)])
qed simp

lemma linked_background:
  assumes "linked mar unm coll srv" and "sched_step (ws_Scheduler srv) sd" and "sd_modules sd = sd_modules (ws_Scheduler srv)"
  shows "linked mar unm coll (srv\<lparr>ws_Scheduler := sd\<rparr>)"
proof -
  have sok: "sched_ok (ws_Scheduler srv)" and e: "e_store (sd_engine (ws_Scheduler srv)) = sqlite_iface mar unm"
    using assms(1) by (simp_all add: linked_def)
  have "sq_targets (sd_store sd) = sq_targets (db_of srv) \<and> sq_tinv (sd_store sd) = sq_tinv (db_of srv)"
    by (rule sq_targets_cong) (rule step_targets [OF assms(2) sok e])
  then show ?thesis using assms(1) sched_step_ok [OF assms(2) sok] sched_step_engine [OF assms(2)] assms(3) by (simp add: linked_def)
qed

lemma sched_ok_store [simp]: "sched_ok (sd\<lparr>sd_store := s\<rparr>) = sched_ok sd"
  by (simp add: sched_ok_def task_ok_def running_count_def)

text \<open>What an accepted target keeps of itself: its recorded input validates to it again.\<close>

definition raw_stable :: "'r collector \<Rightarrow> bool" where
  "raw_stable coll \<longleftrightarrow> (\<forall>raw t. co_ValidateTarget coll raw = Inr t \<longrightarrow> co_ValidateTarget coll (t_Raw t) = Inr t)"

lemma AddTarget_cases:
  assumes "gm_get (sd_modules sd) m = Some reg"
  shows "(\<exists>err. AddTarget m raw sd = (sd, Inl err)) \<or>
    (\<exists>t sd'. AddTarget m raw sd = (sd', Inr t) \<and> co_ValidateTarget (rg_collector reg) raw = Inr t \<and> sd_store sd' = sd_store sd \<and>
       gm_get (sd_modules sd') m = Some (reg\<lparr>rg_targets := gm_set (t_Canonical t) t (rg_targets reg)\<rparr>))"
  using assms by (cases "co_ValidateTarget (rg_collector reg) raw") (auto simp: AddTarget_def Let_def)

lemma linked_add:
  assumes "linked mar unm coll srv" and "raw_stable coll"
  shows "linked mar unm coll (serve env srv (RAdd r))"
proof -
  let ?m = "mod_of srv" and ?sd = "ws_Scheduler srv"
  obtain reg where reg: "gm_get (sd_modules ?sd) ?m = Some reg" "rg_collector reg = coll"
      "fst ` set (rg_targets reg) = snd ` set (sq_targets (db_of srv) ?m)"
    using assms(1) by (auto simp: linked_def)
  have "serve env srv (RAdd r) = srv" if "r = None \<or> \<not> canAdd (effLimits srv) (target_count srv)"
    using that by (cases r) (simp_all add: handleAddTarget_def Let_def)
  then consider "serve env srv (RAdd r) = srv"
    | raw where "r = Some raw" "canAdd (effLimits srv) (target_count srv)" by (cases r) blast+
  then show ?thesis
  proof cases
    case 2
    from AddTarget_cases [OF reg(1), of raw] show ?thesis
    proof (elim disjE exE conjE)
      fix err assume "AddTarget ?m raw ?sd = (?sd, Inl err)"
      then show ?thesis using 2 assms(1) by (simp add: handleAddTarget_def)
    next
      fix t sd assume add: "AddTarget ?m raw ?sd = (sd, Inr t)" and val: "co_ValidateTarget (rg_collector reg) raw = Inr t"
        and st: "sd_store sd = db_of srv" and reg': "gm_get (sd_modules sd) ?m = Some (reg\<lparr>rg_targets := gm_set (t_Canonical t) t (rg_targets reg)\<rparr>)"
      have tinv: "sq_tinv (db_of srv)" and T: "ws_Targets srv = Some sqlite_target_iface" using assms(1) by (simp_all add: linked_def)
      obtain db where db: "ti_SaveTarget sqlite_target_iface (db_of srv) ?m (t_Raw t) (t_Canonical t) = Inr db" "sq_tinv db"
          "sq_targets db = (sq_targets (db_of srv))(?m := add_target (sq_targets (db_of srv) ?m) (t_Raw t, t_Canonical t))"
        using sq_targets.save_law [OF tinv] by blast
      have eq: "serve env srv (RAdd r) = set_db db (srv\<lparr>ws_Scheduler := sd\<rparr>)"
        using 2 add st db(1) T by (simp add: handleAddTarget_def)
      have "sched_ok ?sd" using assms(1) by (simp add: linked_def)
      then have "sched_ok sd" by (rule sched_step_ok [OF sched_step.add_target [OF add]])
      moreover have "sd_engine sd = sd_engine ?sd" by (rule sched_step_engine [OF sched_step.add_target [OF add]])
      moreover have "fst ` set (gm_set (t_Canonical t) t (rg_targets reg)) = insert (t_Canonical t) (fst ` set (rg_targets reg))"
        by (simp add: dom_update flip: dom_map_of_conv_image_fst)
      moreover have "snd ` set (add_target ts (r, c)) = insert c (snd ` set ts)" for ts :: "(string \<times> string) list" and r c
        by (auto simp: add_target_def)
      moreover have "\<exists>t'. co_ValidateTarget coll raw' = Inr t' \<and> t_Canonical t' = c"
        if "(raw', c) \<in> set (add_target (sq_targets (db_of srv) ?m) (t_Raw t, t_Canonical t))" for raw' c
      proof (cases "(raw', c) = (t_Raw t, t_Canonical t)")
        case True
        then show ?thesis using val assms(2) reg(2) by (auto simp: raw_stable_def)
      next
        case False
        then have "(raw', c) \<in> set (sq_targets (db_of srv) ?m)" using that by (auto simp: add_target_def split: if_splits)
        then show ?thesis using assms(1) by (auto simp: linked_def)
      qed
      ultimately show ?thesis unfolding eq using assms(1) reg reg' db(2,3) by (auto simp: linked_def)
    qed
  qed (simp only: assms(1))
qed

lemma sq_Delete_none: "sq_targets db m = [] \<Longrightarrow> sq_DeleteTarget db m c = Inr db"
  by (fastforce simp: sq_targets_def sq_DeleteTarget_def filter_empty_conv intro!: sqlite_db.equality filter_True)

lemma sq_Delete_view:
  assumes "sq_tinv db"
  shows "\<exists>db'. ti_DeleteTarget sqlite_target_iface db m c = Inr db' \<and> sq_tinv db' \<and>
    sq_targets db' = (sq_targets db)(m := filter (\<lambda>t. snd t \<noteq> c) (sq_targets db m))"
proof (cases "sq_targets db m = []")
  case True
  then have "(sq_targets db)(m := filter (\<lambda>t. snd t \<noteq> c) (sq_targets db m)) = sq_targets db" by auto
  then show ?thesis using True assms sq_Delete_none by (simp add: sqlite_target_iface_def)
qed (rule sq_targets.delete_law [OF assms])

lemma linked_remove:
  assumes "linked mar unm coll srv"
  shows "linked mar unm coll (serve env srv (RRemove c))"
proof (cases "c = []")
  case False
  let ?m = "mod_of srv" and ?sd = "ws_Scheduler srv"
  obtain reg where reg: "gm_get (sd_modules ?sd) ?m = Some reg" "rg_collector reg = coll"
      "fst ` set (rg_targets reg) = snd ` set (sq_targets (db_of srv) ?m)"
    using assms by (auto simp: linked_def)
  have tinv: "sq_tinv (db_of srv)" and T: "ws_Targets srv = Some sqlite_target_iface" using assms by (simp_all add: linked_def)
  obtain db where db: "ti_DeleteTarget sqlite_target_iface (db_of srv) ?m c = Inr db" "sq_tinv db"
      "sq_targets db = (sq_targets (db_of srv))(?m := filter (\<lambda>t. snd t \<noteq> c) (sq_targets (db_of srv) ?m))"
    using sq_Delete_view [OF tinv] by blast
  let ?sd' = "RemoveTarget ?m c ?sd"
  have sd': "sd_store ?sd' = db_of srv" "sd_engine ?sd' = sd_engine ?sd"
      "gm_get (sd_modules ?sd') ?m = Some (reg\<lparr>rg_targets := gm_delete c (rg_targets reg)\<rparr>)"
    using reg(1) by (simp_all add: RemoveTarget_def)
  have eq: "serve env srv (RRemove c) = set_db db (srv\<lparr>ws_Scheduler := ?sd'\<rparr>)"
    using False T db(1) sd'(1) by (simp add: handleRemoveTarget_def Let_def)
  have "sched_ok ?sd'" by (rule sched_step_ok [OF sched_step.remove_target]) (use assms in \<open>simp add: linked_def\<close>)
  moreover have "fst ` set (gm_delete c (rg_targets reg)) = fst ` set (rg_targets reg) - {c}"
    by (auto simp: AList.delete_eq image_iff)
  moreover have "snd ` set (filter (\<lambda>t. snd t \<noteq> c) ts) = snd ` set ts - {c}" for ts :: "(string \<times> string) list" by auto
  ultimately show ?thesis unfolding eq using assms reg sd' db(2,3) by (auto simp: linked_def)
qed (use assms in \<open>simp add: handleRemoveTarget_def\<close>)

lemma status_cases:
  "fst (handleFindingStatus r srv) = srv \<or>
    (\<exists>x s. si_Upsert (ws_Store srv) (db_of srv) x = Inr s \<and> fst (handleFindingStatus r srv) = set_db s srv)"
proof (cases r)
  case (Some q)
  obtain fp nxt where q: "q = (fp, nxt)" by fastforce
  show ?thesis
  proof (cases "si_Get (ws_Store srv) (db_of srv) (mod_of srv) fp")
    case (Inr res)
    show ?thesis
    proof (cases res)
      case None
      then show ?thesis by (simp add: handleFindingStatus_def Some q Inr)
    next
      case r: (Some x)
      show ?thesis
        by (cases "si_Upsert (ws_Store srv) (db_of srv) (x\<lparr>f_Status := nxt\<rparr>)")
          (auto simp: handleFindingStatus_def Some q Inr r)
    qed
  qed (simp add: handleFindingStatus_def Some q)
qed (simp add: handleFindingStatus_def)

lemma linked_status:
  assumes "linked mar unm coll srv"
  shows "linked mar unm coll (serve env srv (RStatus r))"
proof -
  consider "serve env srv (RStatus r) = srv"
    | x s where "si_Upsert (ws_Store srv) (db_of srv) x = Inr s" "serve env srv (RStatus r) = set_db s srv"
    using status_cases [of r srv] by (auto simp only: serve.simps)
  then show ?thesis
  proof cases
    case (2 x s)
    have "db_targets s = db_targets (db_of srv)"
      using 2(1) sq_Upsert_targets assms by (simp add: linked_def sqlite_iface_def)
    then show ?thesis unfolding 2(2) using assms sq_targets_cong [of s "db_of srv"] by (simp add: linked_def)
  qed (simp only: assms)
qed

lemma linked_serve:
  assumes "linked mar unm coll srv" and "raw_stable coll"
  shows "linked mar unm coll (serve env srv req)"
proof (cases req)
  case RScan
  obtain sd res where now: "ScanNow (mod_of srv) (ws_Scheduler srv) = (sd, res)" by fastforce
  have "sd_modules (foldl (spawn b m) s ts) = sd_modules s" for b m ts and s :: "('a, sqlite_db) scheduler"
    by (induction ts arbitrary: s) simp_all
  then have "sd_modules sd = sd_modules (ws_Scheduler srv)" using now by (auto simp: ScanNow_def split: option.splits)
  then have "linked mar unm coll (srv\<lparr>ws_Scheduler := sd\<rparr>)"
    by (rule linked_background [OF assms(1) sched_step.scan_now [OF now]])
  then show ?thesis using RScan now assms(1) by (auto simp: handleScanNow_def split: option.split)
next
  case (RLicense now wr r)
  then show ?thesis using assms(1) by (auto simp: handleSetLicense_def Let_def linked_def split: option.splits)
qed (simp_all only: linked_status [OF assms(1)] linked_add [OF assms] linked_remove [OF assms(1)])

lemma linked_ingest:
  "linked mar unm coll srv \<Longrightarrow> linked mar unm coll (srv\<lparr>ws_Scheduler := (ws_Scheduler srv)\<lparr>sd_coll := r\<rparr>\<rparr>)"
  by (simp add: linked_def sched_ok_def task_ok_def running_count_def)

lemma serving_linked:
  assumes "serving env P srv srv'" and "linked mar unm coll srv" and "raw_stable coll"
  shows "linked mar unm coll srv'"
  using assms by (induction rule: serving.induct) (simp_all add: linked_serve linked_background linked_ingest)

section \<open>Restart\<close>

lemma restore_keys:
  assumes "gm_get (sd_modules sd) m = Some reg" and "sched_ok sd"
  shows "sched_ok (foldl (\<lambda>sd raw. fst (AddTarget m raw sd)) sd raws) \<and>
    (\<exists>reg'. gm_get (sd_modules (foldl (\<lambda>sd raw. fst (AddTarget m raw sd)) sd raws)) m = Some reg' \<and> rg_collector reg' = rg_collector reg \<and>
       fst ` set (rg_targets reg') = fst ` set (rg_targets reg) \<union> {t_Canonical t |raw t. raw \<in> set raws \<and> co_ValidateTarget (rg_collector reg) raw = Inr t})"
  using assms
proof (induction raws arbitrary: sd reg)
  case Nil
  then show ?case by simp
next
  case (Cons raw raws)
  let ?new = "{t_Canonical t |t. co_ValidateTarget (rg_collector reg) raw = Inr t}"
  obtain sd1 res where add: "AddTarget m raw sd = (sd1, res)" by fastforce
  have ok1: "sched_ok sd1" by (rule sched_step_ok [OF sched_step.add_target [OF add] Cons.prems(2)])
  have keys: "fst ` set (gm_set k t ts) = insert k (fst ` set ts)" for k t and ts :: "(string \<times> target) list"
    by (simp add: dom_update flip: dom_map_of_conv_image_fst)
  have "\<exists>reg1. gm_get (sd_modules sd1) m = Some reg1 \<and> rg_collector reg1 = rg_collector reg \<and>
      fst ` set (rg_targets reg1) = fst ` set (rg_targets reg) \<union> ?new"
    using add Cons.prems(1)
    by (cases "co_ValidateTarget (rg_collector reg) raw") (auto simp: AddTarget_def Let_def keys split: if_splits)
  then obtain reg1 where reg1: "gm_get (sd_modules sd1) m = Some reg1" "rg_collector reg1 = rg_collector reg"
      "fst ` set (rg_targets reg1) = fst ` set (rg_targets reg) \<union> ?new" by blast
  have "{t_Canonical t |raw' t. raw' \<in> set (raw # raws) \<and> co_ValidateTarget (rg_collector reg) raw' = Inr t}
      = ?new \<union> {t_Canonical t |raw' t. raw' \<in> set raws \<and> co_ValidateTarget (rg_collector reg) raw' = Inr t}"
    by (intro equalityI subsetI) (simp, blast)+
  then show ?case using Cons.IH [OF reg1(1) ok1] by (simp only: foldl.simps add fst_conv reg1(2,3) Un_assoc)
qed

lemma canonical_keys:
  assumes "sched_ok sd" and "gm_get (sd_modules sd) m = Some reg"
  shows "map t_Canonical (ListTargets m sd) = map fst (rg_targets reg)" and "distinct (map t_Canonical (ListTargets m sd))"
proof -
  have ok: "registration_ok m reg" using assms by (simp add: sched_ok_def)
  then have "fst e = t_Canonical (snd e)" if "e \<in> set (rg_targets reg)" for e
    using that by (cases e) (auto simp: registration_ok_def dest: map_of_is_SomeI)
  then show "map t_Canonical (ListTargets m sd) = map fst (rg_targets reg)"
    using assms(2) by (simp add: ListTargets_def snapshotTargets_def)
  then show "distinct (map t_Canonical (ListTargets m sd))" using ok by (simp add: registration_ok_def)
qed

text \<open>Restoring the saved targets of a module registers exactly their canonical forms, when the collector still reads each as it was saved.\<close>

definition saved_valid :: "'r collector \<Rightarrow> string \<Rightarrow> sqlite_db \<Rightarrow> bool" where
  "saved_valid coll m db \<longleftrightarrow> sq_tinv db \<and> (\<forall>(raw, c) \<in> set (sq_targets db m). \<exists>t. co_ValidateTarget coll raw = Inr t \<and> t_Canonical t = c)"

lemma linked_saved: "linked mar unm coll srv \<Longrightarrow> saved_valid coll (mod_of srv) (db_of srv)"
  by (auto simp: linked_def saved_valid_def)

lemma linked_canonical:
  assumes "linked mar unm coll srv"
  shows "mset (map t_Canonical (ListTargets (mod_of srv) (ws_Scheduler srv))) = mset_set (snd ` set (sq_targets (db_of srv) (mod_of srv)))"
proof -
  obtain reg where reg: "gm_get (sd_modules (ws_Scheduler srv)) (mod_of srv) = Some reg" "sched_ok (ws_Scheduler srv)"
      "fst ` set (rg_targets reg) = snd ` set (sq_targets (db_of srv) (mod_of srv))"
    using assms by (auto simp: linked_def)
  note keys = canonical_keys [OF reg(2,1)]
  show ?thesis using keys(2) unfolding keys(1) reg(3) [symmetric] by (metis list.set_map mset_set_set)
qed

lemma restore_registered:
  assumes "saved_valid coll m db" and "sched_ok sd" and "gm_get (sd_modules sd) m = Some reg" and "rg_collector reg = coll" and "rg_targets reg = []"
  defines "sd' \<equiv> restore_targets m (sq_ListSavedTargets db m) sd"
  shows "sched_ok sd' \<and> (\<exists>reg'. gm_get (sd_modules sd') m = Some reg' \<and> rg_collector reg' = coll \<and>
    fst ` set (rg_targets reg') = snd ` set (sq_targets db m))"
proof -
  let ?ts = "sq_targets db m"
  have "sq_ListSavedTargets db m = Inr (map fst ?ts)"
    using sq_targets.saved_law [of db m] assms(1) by (simp add: saved_valid_def sqlite_target_iface_def)
  then have sd': "sd' = foldl (\<lambda>sd raw. fst (AddTarget m raw sd)) sd (map fst ?ts)" by (simp add: sd'_def restore_targets_def)
  have val: "\<exists>t. co_ValidateTarget coll raw = Inr t \<and> t_Canonical t = c" if "(raw, c) \<in> set ?ts" for raw c
    using assms(1) that by (auto simp: saved_valid_def)
  have "{t_Canonical t |raw t. raw \<in> set (map fst ?ts) \<and> co_ValidateTarget coll raw = Inr t} = snd ` set ?ts"
    using val by (force simp: image_iff)
  then show ?thesis using restore_keys [OF assms(3,2), of "map fst ?ts"] assms(4,5) unfolding sd' by simp
qed

lemma AddTarget_frame:
  "sd_store (fst (AddTarget m raw sd)) = sd_store sd" "sd_engine (fst (AddTarget m raw sd)) = sd_engine sd"
  "sd_started (fst (AddTarget m raw sd)) = sd_started sd"
  by (auto simp: AddTarget_def spawn_def Let_def split: option.split sum.split)

lemma restore_frame:
  "sd_store (restore_targets m saved sd) = sd_store sd" "sd_engine (restore_targets m saved sd) = sd_engine sd"
  "sd_started (restore_targets m saved sd) = sd_started sd"
proof -
  have "sd_store (foldl (\<lambda>sd raw. fst (AddTarget m raw sd)) sd raws) = sd_store sd \<and>
      sd_engine (foldl (\<lambda>sd raw. fst (AddTarget m raw sd)) sd raws) = sd_engine sd \<and>
      sd_started (foldl (\<lambda>sd raw. fst (AddTarget m raw sd)) sd raws) = sd_started sd" for raws
    by (induction raws arbitrary: sd) (simp_all add: AddTarget_frame)
  then show "sd_store (restore_targets m saved sd) = sd_store sd" "sd_engine (restore_targets m saved sd) = sd_engine sd"
    "sd_started (restore_targets m saved sd) = sd_started sd"
    by (simp_all add: restore_targets_def split: sum.split)
qed

lemma serving_mono: "serving env P srv srv' \<Longrightarrow> (\<And>req. P req \<Longrightarrow> Q req) \<Longrightarrow> serving env Q srv srv'"
  by (induction rule: serving.induct) (auto intro: serving.intros)

lemma serving_limits:
  assumes "serving env (no_valid_key env srv) srv srv'" and "ac_Tier (ws_activation srv) = TierFree"
    and "ws_TierLimits srv = Some dmarcwatchTierLimits"
  shows "ac_Tier (ws_activation srv') = TierFree \<and> target_count srv' \<le> max 1 (target_count srv) \<and>
    handleScanNow srv' = (srv', Inl (402, scan_message)) \<and>
    (1 \<le> target_count srv' \<longrightarrow> handleAddTarget (Some tgt) srv' = (srv', Inl (402, limit_message)))"
proof -
  have "free_edition (max 1 (target_count srv)) srv'"
    by (rule serving_free [OF assms(1)]) (simp_all add: free_edition_def assms(2,3))
  then have free: "ac_Tier (ws_activation srv') = TierFree" "ws_TierLimits srv' = Some dmarcwatchTierLimits"
      "target_count srv' \<le> max 1 (target_count srv)" by (simp_all add: free_edition_def)
  note lim = free_limits_in_force [OF free(1,2)]
  show ?thesis using free lim by (simp add: handleScanNow_def handleAddTarget_def canAdd_def httpError_def)
qed

section \<open>A server to start from\<close>

lemma ValidateTarget_raw: "ValidateTarget uni raw = Inr t \<Longrightarrow> t_Raw t = raw"
  by (simp add: ValidateTarget_def Let_def split: if_splits) auto

lemma dmarc_raw_stable: "raw_stable (dmarc_collector uni sha I)"
  using ValidateTarget_raw by (fastforce simp: raw_stable_def dmarc_collector_def split: sum.splits)

definition sample_product :: "rmem collector" where
  "sample_product = dmarc_collector id id rmem_iface"

definition sample_server :: "(rmem, sqlite_db) server" where
  "sample_server = (NewServer sample_env Describe (sqlite_iface sample_mar sample_unm)
     (projr (Register sample_product (New sample_engine sched_sample_config NewSQLiteStore 0 rm_NewMemStore))) [] [] (Inl []) 0)
     \<lparr>ws_Targets := Some sqlite_target_iface, ws_TierLimits := Some dmarcwatchTierLimits\<rparr>"

lemma sample_register: "\<exists>sd. Register sample_product (New e cfg s n r) = Inr sd \<and> sd_store sd = s \<and> sd_engine sd = e \<and>
    sd_modules sd = [(ModuleID, \<lparr>rg_collector = sample_product, rg_info = Describe, rg_targets = []\<rparr>)]"
  by (simp add: Register_def New_def sample_product_def dmarc_collector_def Describe_def Let_def)

lemma sample_server_fields:
  "ws_Module sample_server = Describe" "ac_Tier (ws_activation sample_server) = TierFree" "ws_TierLimits sample_server = Some dmarcwatchTierLimits"
  "ws_Store sample_server = sqlite_iface sample_mar sample_unm" "ws_Targets sample_server = Some sqlite_target_iface"
  by (simp_all add: sample_server_def NewServer_def Activate_def PublicKeySize_def free_activation_def)

lemma sample_server_linked: "linked sample_mar sample_unm sample_product sample_server"
proof -
  obtain sd where sd: "Register sample_product (New sample_engine sched_sample_config NewSQLiteStore 0 rm_NewMemStore) = Inr sd"
      "sd_store sd = NewSQLiteStore" "sd_engine sd = sample_engine"
      "sd_modules sd = [(ModuleID, \<lparr>rg_collector = sample_product, rg_info = Describe, rg_targets = []\<rparr>)]"
    using sample_register [of sample_engine sched_sample_config NewSQLiteStore 0 rm_NewMemStore] by (elim exE conjE)
  have "sched_ok sd" by (rule sched_step_ok [OF sched_step.register [OF sd(1)] New_ok])
  moreover have "ws_Scheduler sample_server = sd" by (simp add: sample_server_def NewServer_def sd(1))
  ultimately show ?thesis using sd(2-4)
    by (simp add: linked_def sample_server_fields sq_tinv_def sq_targets_def NewSQLiteStore_def Describe_def)
qed

lemma status_change_known:
  assumes "ws_Store srv = sqlite_iface mar unm" and "sq_inv mar unm (db_of srv)"
    and ok: "nxt \<in> {StatusAcknowledged, StatusSuppressed, StatusOpen}" and r: "sq_view unm (db_of srv) (mod_of srv) fp = Some r"
  shows "\<exists>db. handleFindingStatus (Some (fp, nxt)) srv = (set_db db srv, Inr ()) \<and> sq_inv mar unm db \<and>
      (\<forall>m q. sq_view unm db m q = (if m = mod_of srv \<and> q = fp then Some (r\<lparr>f_Status := nxt\<rparr>) else sq_view unm (db_of srv) m q))"
proof -
  have get: "si_Get (ws_Store srv) (db_of srv) (mod_of srv) fp = Inr (sq_view unm (db_of srv) (mod_of srv) fp)"
    unfolding assms(1) by (rule sq.get_law [OF assms(2) TrueI])
  note key = sq.keyed [OF assms(2) r]
  obtain db where db: "si_Upsert (sqlite_iface mar unm) (db_of srv) (r\<lparr>f_Status := nxt\<rparr>) = Inr db" "sq_inv mar unm db"
      "sq_view unm db = view_put (sq_view unm (db_of srv)) (stored (sq_nrm mar unm) (r\<lparr>f_Status := nxt\<rparr>))"
    using sq.update_law [OF assms(2), of "r\<lparr>f_Status := nxt\<rparr>" r] key r by (auto simp: same_identity_def)
  have "stored (sq_nrm mar unm) (r\<lparr>f_Status := nxt\<rparr>) = r\<lparr>f_Status := nxt\<rparr>" using key by (intro stored_id) simp
  then have "sq_view unm db m q = (if m = mod_of srv \<and> q = fp then Some (r\<lparr>f_Status := nxt\<rparr>) else sq_view unm (db_of srv) m q)" for m q
    unfolding db(3) using key by (auto simp: view_put_apply)
  moreover have "handleFindingStatus (Some (fp, nxt)) srv = (set_db db srv, Inr ())"
    using ok get r db(1) assms(1) by (auto simp: handleFindingStatus_def)
  ultimately show ?thesis using db(2) by blast
qed

section \<open>Property\<close>

text \<open>
  C26. A change of status through the API, on the SQLite store. For a known finding and one of the three settable states it succeeds, keeps the
  invariant of the store and changes the status of that finding and nothing else, in particular not its identifier, its sightings or its time of
  resolution; for an unknown finding it answers 404, for any other state 400, and changes nothing.
\<close>

theorem status_change_exact:
  assumes "ws_Store srv = sqlite_iface mar unm" and "sq_inv mar unm (db_of srv)"
  shows "(nxt \<notin> {StatusAcknowledged, StatusSuppressed, StatusOpen} \<longrightarrow>
      handleFindingStatus (Some (fp, nxt)) srv = (srv, Inl (400, ''status must be acknowledged, suppressed, or open''))) \<and>
    (nxt \<in> {StatusAcknowledged, StatusSuppressed, StatusOpen} \<longrightarrow>
      (case sq_view unm (db_of srv) (mod_of srv) fp of
         None \<Rightarrow> handleFindingStatus (Some (fp, nxt)) srv = (srv, Inl (404, ''finding not found''))
       | Some r \<Rightarrow> \<exists>db. handleFindingStatus (Some (fp, nxt)) srv = (set_db db srv, Inr ()) \<and> sq_inv mar unm db \<and>
           (\<forall>m q. sq_view unm db m q = (if m = mod_of srv \<and> q = fp then Some (r\<lparr>f_Status := nxt\<rparr>) else sq_view unm (db_of srv) m q))))"
proof -
  have get: "si_Get (ws_Store srv) (db_of srv) (mod_of srv) fp = Inr (sq_view unm (db_of srv) (mod_of srv) fp)"
    unfolding assms(1) by (rule sq.get_law [OF assms(2) TrueI])
  show ?thesis
  proof (cases "sq_view unm (db_of srv) (mod_of srv) fp")
    case None
    then show ?thesis using get by (auto simp: handleFindingStatus_def httpError_def)
  next
    case (Some r)
    then show ?thesis using status_change_known [OF assms] by (auto simp: handleFindingStatus_def httpError_def)
  qed
qed

theorem status_change_exact_witness:
  "\<exists>db. handleFindingStatus (Some (''fp'', StatusSuppressed)) (set_db sample_db (sample_server\<lparr>ws_Module := sample_module\<rparr>)) =
     (set_db db (sample_server\<lparr>ws_Module := sample_module\<rparr>), Inr ()) \<and> sq_view sample_unm db ''m'' ''fp'' = Some (sample_record\<lparr>f_Status := StatusSuppressed\<rparr>)"
proof -
  let ?srv = "set_db sample_db (sample_server\<lparr>ws_Module := sample_module\<rparr>)"
  have "ws_Store ?srv = sqlite_iface sample_mar sample_unm" by (simp add: sample_server_fields)
  moreover have "sq_inv sample_mar sample_unm (db_of ?srv)" by (simp add: sample_db_facts)
  ultimately have "case sq_view sample_unm (db_of ?srv) (mod_of ?srv) ''fp'' of
       None \<Rightarrow> handleFindingStatus (Some (''fp'', StatusSuppressed)) ?srv = (?srv, Inl (404, ''finding not found''))
     | Some r \<Rightarrow> \<exists>db. handleFindingStatus (Some (''fp'', StatusSuppressed)) ?srv = (set_db db ?srv, Inr ()) \<and> sq_inv sample_mar sample_unm db \<and>
         (\<forall>m q. sq_view sample_unm db m q = (if m = mod_of ?srv \<and> q = ''fp'' then Some (r\<lparr>f_Status := StatusSuppressed\<rparr>) else sq_view sample_unm (db_of ?srv) m q))"
    using status_change_exact [of ?srv sample_mar sample_unm StatusSuppressed "''fp''"] by blast
  then show ?thesis by (auto simp: sample_db_facts)
qed

end
