(* ===== verification/Web_Ai.thy ===== *)
theory Web_Ai
  imports Web_Safety
begin

text \<open>
  The endpoints of AI Assist (\<^verbatim>\<open>web/ai.go\<close>): its configuration from the flags, the gate of the edition, and the explanation of one
  stored finding. The parser of URLs and the reading of the key file are arguments; the handler returns the requests it made beside the response. A
  body that does not decode within the size limit is the request \<open>None\<close>.
\<close>

section \<open>Configuration\<close>

record ai_config =
  ag_URL :: string
  ag_KeyFile :: string
  ag_Language :: string
  ag_NoThinking :: bool

text \<open>\<open>parse\<close> yields scheme and host of a URL, \<open>file\<close> the contents of the key file.\<close>

definition NewAIAssist ::
  "ai_env \<Rightarrow> ai_transport \<Rightarrow> (string \<Rightarrow> (string \<times> string) option) \<Rightarrow> error + string \<Rightarrow> ai_config \<Rightarrow> error + ai_assist option" where
  "NewAIAssist env dflt parse file cfg =
     (let raw = TrimSpace (ag_URL cfg) in
      if raw = [] then Inr None
      else if (case parse raw of None \<Rightarrow> True | Some (scheme, host) \<Rightarrow> scheme \<noteq> ''http'' \<and> scheme \<noteq> ''https'' \<or> host = [])
      then Inl (''ai-assist-url must be an http(s) base URL such as http://127.0.0.1:8435, got '' @ Quote (av_isprint env) raw)
      else
        (let opts = [WithTimeout (120 * Second), WithMaxRetries 0, WithMaxTokens 300];
             a = \<lparr>aa_Client = None, aa_Endpoint = TrimRight raw (CHR ''/''), aa_Keyed = False, aa_Language = NormalizeLanguage (av_uni env) (ag_Language cfg)\<rparr>;
             keyed =
               (if ag_KeyFile cfg = [] then Inr (opts, a)
                else case file of
                       Inl err \<Rightarrow> Inl (''read ai-assist-key-file: '' @ err)
                     | Inr b \<Rightarrow>
                         (let key = TrimSpace b in
                          if key = [] then Inl (''ai-assist-key-file '' @ ag_KeyFile cfg @ '' is empty'')
                          else Inr (opts @ [WithAPIKey key], a\<lparr>aa_Keyed := True\<rparr>)))
         in case keyed of
              Inl err \<Rightarrow> Inl err
            | Inr (opts, a) \<Rightarrow>
                (let opts = (if ag_NoThinking cfg then opts @ [WithDisableThinking] else opts)
                 in Inr (Some (a\<lparr>aa_Client := Some (NewClient dflt (aa_Endpoint a) opts)\<rparr>)))))"

section \<open>Endpoints\<close>

definition aiAllowed :: "('r, 's) server \<Rightarrow> bool \<times> string" where
  "aiAllowed srv =
     (let off = (False, ''AI Assist is off. Start with -ai-assist-url to enable it.'') in
      case ws_AI srv of
        None \<Rightarrow> off
      | Some a \<Rightarrow>
          if aa_Client a = None then off
          else
            (let t = ac_Tier (ws_activation srv) in
             if aa_Keyed a \<and> t \<noteq> TierPro \<and> t \<noteq> TierTeam
             then (False, ''A dedicated AI host or your own endpoint (API key) needs a Pro or Team licence. '' @
                     ''The free edition works with a hexward-ai sidecar on the same host.'')
             else (True, [])))"

record ai_status_response =
  sr_Enabled :: bool
  sr_Reason :: string
  sr_Language :: string
  sr_Keyed :: bool

definition handleAIStatus :: "('r, 's) server \<Rightarrow> ai_status_response web_response" where
  "handleAIStatus srv =
     (case aiAllowed srv of
        (ok, reason) \<Rightarrow>
          (let resp = \<lparr>sr_Enabled = ok, sr_Reason = reason, sr_Language = [], sr_Keyed = False\<rparr>
           in Inr (case ws_AI srv of None \<Rightarrow> resp | Some a \<Rightarrow> resp\<lparr>sr_Language := aa_Language a, sr_Keyed := aa_Keyed a\<rparr>)))"

record explain_response =
  xr_Available :: bool
  xr_Reason :: string
  xr_Explanation :: string
  xr_WhatToVerify :: "string list"
  xr_Disclaimer :: string

definition withheld :: "string \<Rightarrow> explain_response" where
  "withheld reason = \<lparr>xr_Available = False, xr_Reason = reason, xr_Explanation = [], xr_WhatToVerify = [], xr_Disclaimer = []\<rparr>"

definition stored_finding :: "string \<Rightarrow> frecord \<Rightarrow> core_finding" where
  "stored_finding m r =
     \<lparr>cf_Fingerprint = f_Fingerprint r, cf_Module = m, cf_Check = f_Check r, cf_Title = f_Title r, cf_Target = f_Target r,
      cf_Severity = f_Severity r, cf_Status = f_Status r, cf_Remediation = f_Remediation r, cf_Evidence = f_Evidence r\<rparr>"

definition handleExplainFinding ::
  "ai_env \<Rightarrow> string option \<Rightarrow> ('r, 's) server \<Rightarrow> ai_event list \<times> explain_response web_response" where
  "handleExplainFinding env req srv =
     (case req of
        None \<Rightarrow> ([], httpError 400 ''fingerprint is required'')
      | Some fingerprint \<Rightarrow>
          if TrimSpace fingerprint = [] then ([], httpError 400 ''fingerprint is required'')
          else
            (case si_Get (ws_Store srv) (db_of srv) (mod_of srv) fingerprint of
               Inl err \<Rightarrow> ([], httpError 500 ''store error'')
             | Inr None \<Rightarrow> ([], httpError 404 ''no such finding'')
             | Inr (Some r) \<Rightarrow>
                 (case (aiAllowed srv, ws_AI srv) of
                    ((True, _), Some a) \<Rightarrow>
                      (case NewFindingPacket (av_uni env) (av_rt env) (av_finding env) (mod_of srv) (aa_Language a) (stored_finding (mod_of srv) r) of
                         Inl err \<Rightarrow> ([], Inr (withheld ''This finding has no title or severity to explain.''))
                       | Inr packet \<Rightarrow>
                           (case Explain env (the (aa_Client a)) packet of
                              (es, Inl err) \<Rightarrow>
                                (es, Inr (withheld
                                   (if IsRejected err
                                    then ''AI Assist withheld this explanation: the model's answer was not grounded in the finding. The finding is unaffected.''
                                    else ''The AI Assist sidecar did not answer. The finding is unaffected.'')))
                            | (es, Inr ex) \<Rightarrow>
                                (es, Inr \<lparr>xr_Available = True, xr_Reason = [], xr_Explanation = ex_ExplanationText ex,
                                          xr_WhatToVerify = ex_WhatToVerify ex, xr_Disclaimer = ex_Disclaimer ex\<rparr>)))
                  | ((_, reason), _) \<Rightarrow> ([], Inr (withheld reason)))))"

section \<open>Lemmas\<close>

lemma allowed_facts:
  assumes "aiAllowed srv = (True, reason)" and "ws_AI srv = Some a"
  shows "aa_Client a \<noteq> None" "aa_Keyed a \<Longrightarrow> ac_Tier (ws_activation srv) \<in> {TierPro, TierTeam}"
  using assms by (auto simp: aiAllowed_def Let_def split: if_splits)

lemma authorization_header: "gm_get (request_headers c) ''Authorization'' = (if cl_apiKey c = [] then None else Some (''Bearer '' @ cl_apiKey c))"
  by (simp add: request_headers_def Let_def)

text \<open>The client that the flags give: one attempt, and a key exactly when a key file is named.\<close>

lemma configured_client:
  assumes "NewAIAssist env dflt parse file cfg = Inr (Some a)"
  obtains c where "aa_Client a = Some c" "cl_maxRetries c = 0" "cl_httpClient c = dflt" "cl_timeout c = 120 * Second" "cl_maxTokens c = 300"
    "cl_apiKey c \<noteq> [] \<longleftrightarrow> aa_Keyed a"
proof -
  define raw where "raw = TrimSpace (ag_URL cfg)"
  define a0 where "a0 = \<lparr>aa_Client = None, aa_Endpoint = TrimRight raw (CHR ''/''), aa_Keyed = False, aa_Language = NormalizeLanguage (av_uni env) (ag_Language cfg)\<rparr>"
  define opts where "opts = [WithTimeout (120 * Second), WithMaxRetries 0, WithMaxTokens 300]"
  define extra where "extra = (if ag_NoThinking cfg then [WithDisableThinking] else [])"
  note client = NewClient_def opts_def extra_def WithTimeout_def WithMaxRetries_def WithMaxTokens_def WithDisableThinking_def WithAPIKey_def Let_def Second_def
  have built: "cl_maxRetries c = 0 \<and> cl_httpClient c = dflt \<and> cl_timeout c = 120 * Second \<and> cl_maxTokens c = 300 \<and> cl_apiKey c = key"
    if "c = NewClient dflt u (opts @ k @ extra)" and "k = [] \<and> key = [] \<or> k = [WithAPIKey key] \<and> TrimSpace key = key" for c u k key
    using that by (cases "ag_NoThinking cfg") (auto simp: client)
  show ?thesis
  proof (cases "ag_KeyFile cfg = []")
    case True
    have "a = a0\<lparr>aa_Client := Some (NewClient dflt (aa_Endpoint a0) (opts @ [] @ extra))\<rparr>"
      using assms True unfolding NewAIAssist_def raw_def [symmetric] a0_def opts_def extra_def by (auto simp: Let_def split: if_splits)
    then show ?thesis using that built [OF refl, of "[]" "[]" "aa_Endpoint a0"] by (simp add: a0_def)
  next
    case False
    then obtain b where b: "file = Inr b" "TrimSpace b \<noteq> []"
      "a = a0\<lparr>aa_Keyed := True, aa_Client := Some (NewClient dflt (aa_Endpoint a0) (opts @ [WithAPIKey (TrimSpace b)] @ extra))\<rparr>"
      using assms unfolding NewAIAssist_def raw_def [symmetric] a0_def opts_def extra_def
      by (cases "file :: error + string") (auto simp: Let_def split: if_splits)
    then show ?thesis using that built [OF refl, of "[WithAPIKey (TrimSpace b)]" "TrimSpace b" "aa_Endpoint a0"] by (simp add: a0_def)
  qed
qed

lemma explain_available:
  assumes "handleExplainFinding env (Some fp) srv = (es, Inr resp)" and "xr_Available resp" and "ws_AI srv = Some a"
  obtains r packet ex where "si_Get (ws_Store srv) (db_of srv) (mod_of srv) fp = Inr (Some r)" "fst (aiAllowed srv)"
    "NewFindingPacket (av_uni env) (av_rt env) (av_finding env) (mod_of srv) (aa_Language a) (stored_finding (mod_of srv) r) = Inr packet"
    "Explain env (the (aa_Client a)) packet = (es, Inr ex)"
    "xr_Explanation resp = ex_ExplanationText ex" "xr_WhatToVerify resp = ex_WhatToVerify ex" "xr_Disclaimer resp = ex_Disclaimer ex"
proof (cases "TrimSpace fp = []")
  case False
  obtain ok reason where al: "aiAllowed srv = (ok, reason)" by fastforce
  from assms False obtain r where r: "si_Get (ws_Store srv) (db_of srv) (mod_of srv) fp = Inr (Some r)"
    by (auto simp: handleExplainFinding_def httpError_def split: sum.splits option.splits)
  have ok using assms False r al by (cases ok) (auto simp: handleExplainFinding_def withheld_def)
  moreover obtain packet where p: "NewFindingPacket (av_uni env) (av_rt env) (av_finding env) (mod_of srv) (aa_Language a) (stored_finding (mod_of srv) r) = Inr packet"
    using assms False r al \<open>ok\<close>
    by (cases "NewFindingPacket (av_uni env) (av_rt env) (av_finding env) (mod_of srv) (aa_Language a) (stored_finding (mod_of srv) r)")
       (auto simp: handleExplainFinding_def withheld_def)
  moreover obtain es' res where e: "Explain env (the (aa_Client a)) packet = (es', res)" by fastforce
  moreover obtain ex where "res = Inr ex" using assms False r al \<open>ok\<close> p e by (cases res) (auto simp: handleExplainFinding_def withheld_def)
  ultimately show ?thesis using that [of r packet ex] assms False r al by (auto simp: handleExplainFinding_def)
qed (use assms in \<open>simp add: handleExplainFinding_def httpError_def\<close>)

lemma Explain_single:
  assumes "Explain env c ev = (es, Inr ex)" and "cl_maxRetries c = 0"
  obtains payload body ans ex0 where
    "av_packet env (ev\<lparr>ep_Language := NormalizeLanguage (av_uni env) (ep_Language ev)\<rparr>) = Inr payload"
    "av_request env (chat_body env c (ev\<lparr>ep_Language := NormalizeLanguage (av_uni env) (ep_Language ev)\<rparr>) payload) = Inr body"
    "es = [Asked (the_request c body)]" "cl_httpClient c (cl_timeout c) 0 (the_request c body) = Inr ans" "read_answer env ans = Inr ex0"
    "accept env (ev\<lparr>ep_Language := NormalizeLanguage (av_uni env) (ep_Language ev)\<rparr>) ex0 = Inr ex"
proof -
  let ?ev = "ev\<lparr>ep_Language := NormalizeLanguage (av_uni env) (ep_Language ev)\<rparr>"
  obtain payload where p: "av_packet env ?ev = Inr payload" "explain_loop env c ?ev (chat_body env c ?ev payload) 0 1 ''<nil>'' = (es, Inr ex)"
    using assms by (auto simp: Explain_def Let_def split: if_splits sum.splits)
  from explain_loop_once [OF p(2)] show ?thesis using that p(1) by metis
qed

section \<open>Property\<close>

text \<open>
  C30. With AI Assist configured from the flags, an explanation is shown only for a finding that the store holds, only where the edition allows the
  endpoint, and after a single request, which carries the key exactly when a key file is configured and whose content is made from the sanitised copy
  of the finding. Nothing in the text or in the list of things to verify matches a claim that a status or severity was changed, although sentences
  were cut out and joined again; the text has at least 20 runes and the disclaimer is the product's own. A severity other than the engine's is left
  in the text only if every sentence of the model's answer stated one.
\<close>

theorem explanations_guarded:
  assumes "NewAIAssist env dflt parse file cfg = Inr (Some a)" and "ws_AI srv = Some a"
    and "handleExplainFinding env (Some fp) srv = (es, Inr resp)" and "xr_Available resp"
  shows "\<exists>r c raw payload body rq ans ex0 ev.
    si_Get (ws_Store srv) (db_of srv) (mod_of srv) fp = Inr (Some r) \<and> (aa_Keyed a \<longrightarrow> ac_Tier (ws_activation srv) \<in> {TierPro, TierTeam}) \<and>
    av_finding env (outgoing (av_uni env) (av_rt env) (stored_finding (mod_of srv) r)) = Inr raw \<and>
    ep_Finding ev = raw \<and> ep_Feature ev = FeatureExplainFinding \<and> av_packet env ev = Inr payload \<and>
    aa_Client a = Some c \<and> av_request env (chat_body env c ev payload) = Inr body \<and>
    es = [Asked rq] \<and> rq_Body rq = body \<and> (gm_get (rq_Header rq) ''Authorization'' \<noteq> None \<longleftrightarrow> aa_Keyed a) \<and>
    dflt (120 * Second) 0 rq = Inr ans \<and> read_answer env ans = Inr ex0 \<and>
    \<not> MatchString statusClaim (xr_Explanation resp) \<and> (\<forall>v \<in> set (xr_WhatToVerify resp). \<not> MatchString statusClaim v) \<and>
    20 \<le> length (runes (TrimSpace (xr_Explanation resp))) \<and> xr_Disclaimer resp = CanonicalDisclaimer \<and>
    (let engine = ToLower (av_uni env) (TrimSpace (findingSeverity env ev)); states = MatchString (conflict_rx engine) in
     engine \<noteq> [] \<and> states (xr_Explanation resp) \<longrightarrow>
       TrimSpace (concat (filter (\<lambda>s. \<not> states s) (sentences_of (ex_ExplanationText ex0)))) = [])"
proof -
  obtain c where c: "aa_Client a = Some c" "cl_maxRetries c = 0" "cl_httpClient c = dflt" "cl_timeout c = 120 * Second" "cl_apiKey c \<noteq> [] \<longleftrightarrow> aa_Keyed a"
    using configured_client [OF assms(1)] by metis
  obtain r packet ex where r: "si_Get (ws_Store srv) (db_of srv) (mod_of srv) fp = Inr (Some r)" "fst (aiAllowed srv)"
    "NewFindingPacket (av_uni env) (av_rt env) (av_finding env) (mod_of srv) (aa_Language a) (stored_finding (mod_of srv) r) = Inr packet"
    "Explain env c packet = (es, Inr ex)"
    "xr_Explanation resp = ex_ExplanationText ex" "xr_WhatToVerify resp = ex_WhatToVerify ex" "xr_Disclaimer resp = ex_Disclaimer ex"
    using explain_available [OF assms(3,4,2)] c(1) by (metis option.sel)
  define ev where "ev = packet\<lparr>ep_Language := NormalizeLanguage (av_uni env) (ep_Language packet)\<rparr>"
  obtain payload body ans ex0 where e: "av_packet env ev = Inr payload" "av_request env (chat_body env c ev payload) = Inr body"
    "es = [Asked (the_request c body)]" "cl_httpClient c (cl_timeout c) 0 (the_request c body) = Inr ans" "read_answer env ans = Inr ex0"
    "accept env ev ex0 = Inr ex"
    using Explain_single [OF r(4) c(2)] unfolding ev_def by metis
  obtain raw where raw: "av_finding env (outgoing (av_uni env) (av_rt env) (stored_finding (mod_of srv) r)) = Inr raw" "ep_Finding ev = raw"
    "ep_Feature ev = FeatureExplainFinding"
    using r(3) unfolding ev_def by (auto simp: NewFindingPacket_def split: if_splits sum.splits)
  have "aa_Keyed a \<longrightarrow> ac_Tier (ws_activation srv) \<in> {TierPro, TierTeam}"
    using allowed_facts(2) [OF _ assms(2)] r(2) by (metis fst_conv surj_pair)
  moreover have "gm_get (rq_Header (the_request c body)) ''Authorization'' \<noteq> None \<longleftrightarrow> aa_Keyed a"
    using c(5) by (auto simp: the_request_def authorization_header)
  moreover have "rq_Body (the_request c body) = body" by (simp add: the_request_def)
  moreover have "dflt (120 * Second) 0 (the_request c body) = Inr ans" using e(4) c(3,4) by simp
  moreover note accept_guarded [OF e(6), folded r(5-7)]
  moreover have "let engine = ToLower (av_uni env) (TrimSpace (findingSeverity env ev)); states = MatchString (conflict_rx engine) in
     engine \<noteq> [] \<and> states (xr_Explanation resp) \<longrightarrow> TrimSpace (concat (filter (\<lambda>s. \<not> states s) (sentences_of (ex_ExplanationText ex0)))) = []"
    using accept_severity [OF e(6) refl] unfolding r(5) Let_def by blast
  ultimately show ?thesis using r(1) raw e(1-3,5) c(1)
    by (intro exI [of _ r] exI [of _ c] exI [of _ raw] exI [of _ payload] exI [of _ body] exI [of _ "the_request c body"] exI [of _ ans] exI [of _ ex0] exI [of _ ev] conjI)
qed

lemma pieces_ascii: "list_all ascii s \<Longrightarrow> pieces s = map (\<lambda>c. [c]) s"
  by (induction s) (simp_all add: pieces.simps(2) rune_size_def)

lemma runes_ascii: "list_all ascii s \<Longrightarrow> length (runes s) = length s"
  by (induction s) (simp_all add: rune_size_def)

definition sample_answer :: string where
  "sample_answer = ''Mail is sent by others''"

definition sample_ai :: ai_env where
  "sample_ai = \<lparr>av_uni = id, av_isprint = (\<lambda>_. True), av_rt = (\<lambda>_. None), av_finding = (\<lambda>f. Inr (cf_Severity f)), av_packet = (\<lambda>ev. Inr (ep_Finding ev)),
     av_severity = Some, av_request = (\<lambda>q. Inr ''{}''), av_newreq = (\<lambda>_. None),
     av_response = (\<lambda>b. Some \<lparr>cp_Choices = [\<lparr>cm_Role = ''assistant'', cm_Content = b\<rparr>], cp_Error = None\<rparr>),
     av_explanation = (\<lambda>t. Some \<lparr>ex_ExplanationText = t, ex_WhatToVerify = [], ex_Disclaimer = ''none''\<rparr>), av_done = (\<lambda>_. None)\<rparr>"

lemma sample_ai_fields [simp]: "av_uni sample_ai = id" "av_rt sample_ai = (\<lambda>_. None)" "av_finding sample_ai = (\<lambda>f. Inr (cf_Severity f))"
  "av_packet sample_ai = (\<lambda>ev. Inr (ep_Finding ev))" "av_severity sample_ai = Some" "av_request sample_ai = (\<lambda>q. Inr ''{}'')" "av_newreq sample_ai = (\<lambda>_. None)"
  by (simp_all add: sample_ai_def)

definition sample_transport :: ai_transport where
  "sample_transport d k rq = Inr \<lparr>an_StatusCode = 200, an_Body = sample_answer, an_Error = None\<rparr>"

definition sample_assist :: ai_assist where
  "sample_assist = \<lparr>aa_Client = Some (NewClient sample_transport ''http://127.0.0.1:8435'' [WithTimeout (120 * Second), WithMaxRetries 0, WithMaxTokens 300]),
     aa_Endpoint = ''http://127.0.0.1:8435'', aa_Keyed = False, aa_Language = ''en''\<rparr>"

lemma sample_unclaimed: "\<not> match_pieces statusClaim (map (\<lambda>c. [c]) sample_answer)"
  unfolding sample_answer_def by code_simp

lemma sample_unconflicted: "\<not> match_pieces (conflict_rx SeverityHigh) (map (\<lambda>c. [c]) sample_answer)"
  unfolding sample_answer_def by code_simp

lemma sample_sentences: "sentences_of sample_answer = [sample_answer]" "TrimSpace sample_answer = sample_answer" "list_all ascii sample_answer"
proof -
  show "list_all ascii sample_answer" by (simp add: sample_answer_def ascii_def)
  then have "pieces sample_answer = map (\<lambda>c. [c]) sample_answer" by (rule pieces_ascii)
  moreover have "map concat (sentences (map (\<lambda>c. [c]) sample_answer)) = [sample_answer]" unfolding sample_answer_def by code_simp
  ultimately show "sentences_of sample_answer = [sample_answer]" by (simp add: sentences_of_def)
  show "TrimSpace sample_answer = sample_answer" by (rule TrimSpace_solid) (simp_all add: sample_answer_def solid_def ascii_def)
qed

lemma sample_drops: "dropStatusClaims sample_answer = sample_answer" "dropConflictingSeverity id sample_answer SeverityHigh = sample_answer"
proof -
  have "pieces sample_answer = map (\<lambda>c. [c]) sample_answer" by (rule pieces_ascii [OF sample_sentences(3)])
  then have none: "\<not> MatchString statusClaim sample_answer" "\<not> MatchString (conflict_rx SeverityHigh) sample_answer"
    using sample_unclaimed sample_unconflicted by (simp_all add: MatchString_def)
  have "ToLower id (TrimSpace SeverityHigh) = SeverityHigh" "sample_answer \<noteq> []" by (simp_all add: ascii_eval sample_answer_def)
  then show "dropStatusClaims sample_answer = sample_answer" "dropConflictingSeverity id sample_answer SeverityHigh = sample_answer"
    using none by (simp_all add: dropStatusClaims_def dropConflictingSeverity_def sample_sentences)
qed

lemma sample_accept:
  assumes "findingSeverity sample_ai ev = SeverityHigh"
  shows "accept sample_ai ev \<lparr>ex_ExplanationText = sample_answer, ex_WhatToVerify = [], ex_Disclaimer = d\<rparr> =
    Inr \<lparr>ex_ExplanationText = sample_answer, ex_WhatToVerify = [], ex_Disclaimer = CanonicalDisclaimer\<rparr>"
proof -
  have "length (runes sample_answer) = 22" using runes_ascii [OF sample_sentences(3)] by (simp add: sample_answer_def)
  then show ?thesis
    by (simp add: accept_def applyOutputGuards_def assms sample_drops sample_sentences minGroundedExplanation_def Let_def)
qed

lemma sample_read: "read_answer sample_ai \<lparr>an_StatusCode = 200, an_Body = sample_answer, an_Error = None\<rparr> =
    Inr \<lparr>ex_ExplanationText = sample_answer, ex_WhatToVerify = [], ex_Disclaimer = ''none''\<rparr>"
proof -
  have "sample_answer \<noteq> []" "length sample_answer < 2 ^ 20" by (simp_all add: sample_answer_def)
  then show ?thesis by (simp add: read_answer_def read_body_def sample_ai_def sample_sentences)
qed

lemma sample_explain:
  assumes "cl_maxRetries c = 0" and "cl_httpClient c = sample_transport"
  shows "\<exists>es. Explain sample_ai c \<lparr>ep_Feature = FeatureExplainFinding, ep_Product = ''m'', ep_Finding = SeverityHigh, ep_Language = ''en''\<rparr> =
    (es, Inr \<lparr>ex_ExplanationText = sample_answer, ex_WhatToVerify = [], ex_Disclaimer = CanonicalDisclaimer\<rparr>)"
proof -
  let ?ev = "\<lparr>ep_Feature = FeatureExplainFinding, ep_Product = ''m'', ep_Finding = SeverityHigh, ep_Language = ''en''\<rparr>"
  have "findingSeverity sample_ai ?ev = SeverityHigh" by (simp add: findingSeverity_def ascii_eval)
  then have "explain_loop sample_ai c ?ev rb 0 1 l = ([Asked (the_request c ''{}'')],
      Inr \<lparr>ex_ExplanationText = sample_answer, ex_WhatToVerify = [], ex_Disclaimer = CanonicalDisclaimer\<rparr>)" for rb l
    by (simp add: doRequest_def the_request_def assms(2) sample_transport_def sample_read sample_accept)
  moreover have "NormalizeLanguage id ''en'' = ''en''" by (simp add: NormalizeLanguage_def HasPrefix_def ascii_eval)
  ultimately show ?thesis using assms(1) by (simp add: Explain_def FeatureExplainFinding_def Let_def del: explain_loop.simps)
qed

theorem explanations_guarded_witness:
  "\<exists>es resp. handleExplainFinding sample_ai (Some ''fp'') (set_db sample_db (sample_server\<lparr>ws_Module := sample_module, ws_AI := Some sample_assist\<rparr>)) = (es, Inr resp) \<and>
     xr_Explanation resp = sample_answer \<and> \<not> MatchString statusClaim (xr_Explanation resp) \<and> xr_Disclaimer resp = CanonicalDisclaimer"
proof -
  let ?srv = "set_db sample_db (sample_server\<lparr>ws_Module := sample_module, ws_AI := Some sample_assist\<rparr>)"
  let ?cfg = "\<lparr>ag_URL = ''http://127.0.0.1:8435'', ag_KeyFile = [], ag_Language = [], ag_NoThinking = False\<rparr>"
  let ?packet = "\<lparr>ep_Feature = FeatureExplainFinding, ep_Product = ''m'', ep_Finding = SeverityHigh, ep_Language = ''en''\<rparr>"
  have cfg: "NewAIAssist sample_ai sample_transport (\<lambda>_. Some (''http'', ''h'')) (Inl []) ?cfg = Inr (Some sample_assist)"
    by (simp add: NewAIAssist_def sample_assist_def NormalizeLanguage_def TrimRight_def HasPrefix_def ascii_eval Let_def)
  have get: "si_Get (ws_Store ?srv) (db_of ?srv) (mod_of ?srv) ''fp'' = Inr (Some sample_record)"
    using sq.get_law [OF sample_db_facts(1) TrueI, of "''m''" "''fp''"] by (simp add: sample_server_fields sample_db_facts(2))
  have rec: "f_Check sample_record = ''c''" "f_Title sample_record = ''t''" "f_Severity sample_record = SeverityHigh"
    by (simp_all add: sample_record_def new_record_def sample_finding_def new_finding_def finding.defs)
  have packet: "NewFindingPacket id (\<lambda>_. None) (\<lambda>f. Inr (cf_Severity f)) ''m'' ''en'' (stored_finding ''m'' sample_record) = Inr ?packet"
    by (simp add: NewFindingPacket_def stored_finding_def rec outgoing_def NormalizeLanguage_def HasPrefix_def ascii_eval)
  have c: "cl_maxRetries (the (aa_Client sample_assist)) = 0" "cl_httpClient (the (aa_Client sample_assist)) = sample_transport"
    by (simp_all add: sample_assist_def NewClient_def WithTimeout_def WithMaxRetries_def WithMaxTokens_def Second_def)
  obtain es where "Explain sample_ai (the (aa_Client sample_assist)) ?packet =
      (es, Inr \<lparr>ex_ExplanationText = sample_answer, ex_WhatToVerify = [], ex_Disclaimer = CanonicalDisclaimer\<rparr>)"
    using sample_explain [OF c] by blast
  moreover have "aiAllowed ?srv = (True, [])" by (simp add: aiAllowed_def sample_assist_def)
  moreover have "aa_Language sample_assist = ''en''" by (simp add: sample_assist_def)
  ultimately have run: "handleExplainFinding sample_ai (Some ''fp'') ?srv = (es, Inr \<lparr>xr_Available = True, xr_Reason = [], xr_Explanation = sample_answer,
      xr_WhatToVerify = [], xr_Disclaimer = CanonicalDisclaimer\<rparr>)"
    using get packet by (simp add: handleExplainFinding_def ascii_eval)
  have "ws_AI ?srv = Some sample_assist" by simp
  from explanations_guarded [OF cfg this run] show ?thesis using run by auto
qed

end
