(* ===== verification/Engine_Ids.thy ===== *)
theory Engine_Ids
  imports Store_Engine Ulid
begin

text \<open>
  The engine as the program builds it (\<^verbatim>\<open>NewEngine\<close> of \<^verbatim>\<open>store/store.go\<close>): the identifiers of findings are ULIDs. The scans ask of the identifier source that it
  yields new identifiers (\<open>ids_fresh\<close>); here that is reduced to the random bytes: it is enough that no ten random bytes are drawn twice and
  that none completes the identifier of a stored finding. \<open>rnd k\<close> is the outcome of the \<open>k\<close>-th \<^verbatim>\<open>rand.Read\<close>.
\<close>

definition NewEngine ::
  "'s store_iface \<Rightarrow> ((string \<times> gany) list \<Rightarrow> string option) \<Rightarrow> (nat \<Rightarrow> error + 8 word list) \<Rightarrow> 's engine" where
  "NewEngine st mar rnd = \<lparr>e_store = st, e_newID = \<lambda>k now. NewULID now (rnd k), e_marshal = mar\<rparr>"

definition WithIDGen :: "(nat \<Rightarrow> time \<Rightarrow> error + string) \<Rightarrow> 's engine \<Rightarrow> 's engine" where
  "WithIDGen g e = e\<lparr>e_newID := g\<rparr>"

lemma NewEngine_fields [simp]: "e_store (NewEngine st mar rnd) = st" "e_marshal (NewEngine st mar rnd) = mar"
  "e_newID (NewEngine st mar rnd) k now = NewULID now (rnd k)"
  by (simp_all add: NewEngine_def)

lemma NewULID_inject:
  assumes "0 \<le> UnixMilli t" "UnixMilli t < 2 ^ 48" "length r = 10" "length q = 10"
  shows "NewULID t (Inr r) = NewULID t (Inr q) \<longleftrightarrow> r = q"
proof -
  have len: "length (stamp t @ r) = 16" "length (stamp t @ q) = 16" using assms by simp_all
  show ?thesis by (simp add: NewULID_stamp encodeCrockford_inject [OF len])
qed

lemma NewEngine_ids_fresh:
  assumes "0 \<le> UnixMilli now" "UnixMilli now < 2 ^ 48"
    and rnd: "\<forall>k \<ge> n. \<exists>r. rnd k = Inr r \<and> length r = 10" and once: "\<forall>j \<ge> n. \<forall>k > j. rnd j \<noteq> rnd k"
    and unused: "\<forall>k \<ge> n. \<forall>i. NewULID now (rnd k) = Inr i \<longrightarrow> id_unused V i"
  shows "ids_fresh (e_newID (NewEngine st mar rnd)) now n V"
  unfolding ids_fresh_def NewEngine_fields
proof (intro allI impI)
  fix k assume k: "n \<le> k"
  with rnd obtain r where r: "rnd k = Inr r" "length r = 10" by blast
  obtain i where i: "NewULID now (rnd k) = Inr i" by (simp add: r(1) NewULID_stamp)
  have "NewULID now (rnd j) \<noteq> Inr i" if j: "k < j" for j
  proof -
    from rnd k j obtain q where q: "rnd j = Inr q" "length q = 10" by (meson le_trans less_imp_le)
    have "rnd k \<noteq> rnd j" using once k j by blast
    then have "r \<noteq> q" using r(1) q(1) by simp
    with NewULID_inject [OF assms(1,2) r(2) q(2)] i show ?thesis by (simp add: r(1) q(1))
  qed
  with i unused k show "\<exists>i. NewULID now (rnd k) = Inr i \<and> id_unused V i \<and> (\<forall>j > k. NewULID now (rnd j) \<noteq> Inr i)" by blast
qed

end
