(* ===== verification/Cmd.thy ===== *)
theory Cmd
  imports Web_Ai Notify Report_Sqlite Engine_Ids
begin

text \<open>
  The binary (\<^verbatim>\<open>cmd/dmarcwatch\<close>): the alert and export channels built from the flags, and the start of the program up to the
  point where it serves requests. What package \<^verbatim>\<open>sink\<close> of hexward-core does (reading secrets, TLS configurations, the validation of
  its settings) is in the environment, as are files, clock and host name. The two databases are arguments, as they are found on opening.
\<close>

section \<open>Channels from flags\<close>

record channel_flags =
  fg_webhook :: string
  fg_webhookFormat :: string
  fg_webhookSecretFile :: string
  fg_syslogAddr :: string
  fg_syslogNetwork :: string
  fg_syslogFormat :: string
  fg_syslogRFC :: int
  fg_syslogCAFile :: string
  fg_exportFile :: string
  fg_hecURL :: string
  fg_hecTokenFile :: string
  fg_hecIndex :: string
  fg_hecCAFile :: string
  fg_evidence :: string

text \<open>The values of flags that are not given.\<close>

definition registerChannelFlags :: channel_flags where
  "registerChannelFlags =
     \<lparr>fg_webhook = [], fg_webhookFormat = ''v1'', fg_webhookSecretFile = [], fg_syslogAddr = [], fg_syslogNetwork = ''udp'', fg_syslogFormat = ''kv'',
      fg_syslogRFC = 5424, fg_syslogCAFile = [], fg_exportFile = [], fg_hecURL = [], fg_hecTokenFile = [], fg_hecIndex = [], fg_hecCAFile = [],
      fg_evidence = ''redacted''\<rparr>"

text \<open>The sinks with the fields the program sets; \<open>'t\<close> is the type of TLS configurations.\<close>

datatype 't sink =
    SinkWebhook string string
  | SinkSyslog string string string int "'t option"
  | SinkFile string
  | SinkHEC string string string "'t option"

datatype ('t, 'm) channel =
    ChWebhook webhook_channel
  | ChSyslog syslog_channel
  | ChHFS "'t sink" hfs_meta 'm

record ('t, 'm) sink_env =
  se_isprint :: "string \<Rightarrow> bool"
  se_ParseEvidenceMode :: "string \<Rightarrow> 'm option"
  se_ReadSecretFile :: "string \<Rightarrow> error + string"
  se_TLSConfig :: "string \<Rightarrow> string \<Rightarrow> error + 't"
  se_Validate :: "'t sink \<Rightarrow> error option"
  se_Endpoint :: "'t sink \<Rightarrow> error option"
  se_FormatJSON :: string
  se_FormatCEF :: string
  se_host :: "string \<Rightarrow> string"

text \<open>The four groups of flags. Each yields no channel or one, or an error.\<close>

definition build_webhook :: "('t, 'm) sink_env \<Rightarrow> channel_flags \<Rightarrow> hfs_meta \<Rightarrow> 'm \<Rightarrow> error + ('t, 'm) channel list" where
  "build_webhook env c meta mode =
     (if fg_webhook c = [] then Inr []
      else
        (case (if fg_webhookSecretFile c = [] then Inr [] else se_ReadSecretFile env (fg_webhookSecretFile c)) of
           Inl err \<Rightarrow> Inl (''-webhook-secret-file: '' @ err)
         | Inr secret \<Rightarrow>
             if fg_webhookFormat c = [] \<or> fg_webhookFormat c = ''v1''
             then Inr [ChWebhook \<lparr>wc_URL = fg_webhook c, wc_Secret = secret\<rparr>]
             else if fg_webhookFormat c = ''v2'' then Inr [ChHFS (SinkWebhook (fg_webhook c) secret) meta mode]
             else Inl (''-webhook-format '' @ Quote (se_isprint env) (fg_webhookFormat c) @ '': want v1 or v2'')))"

definition build_syslog :: "('t, 'm) sink_env \<Rightarrow> channel_flags \<Rightarrow> hfs_meta \<Rightarrow> 'm \<Rightarrow> error + ('t, 'm) channel list" where
  "build_syslog env c meta mode =
     (if fg_syslogAddr c = [] then Inr []
      else if fg_syslogFormat c = [] \<or> fg_syslogFormat c = ''kv'' then
        (if fg_syslogNetwork c \<noteq> ''udp'' \<and> fg_syslogNetwork c \<noteq> ''tcp''
         then Inl (''-syslog-network '' @ Quote (se_isprint env) (fg_syslogNetwork c) @ '' with -syslog-format kv: want udp or tcp (tls needs json or cef)'')
         else Inr [ChSyslog \<lparr>sy_Addr = fg_syslogAddr c, sy_Network = fg_syslogNetwork c, sy_Hostname = [], sy_Tag = [], sy_Facility = 0\<rparr>])
      else if fg_syslogFormat c = se_FormatJSON env \<or> fg_syslogFormat c = se_FormatCEF env then
        (case (if fg_syslogNetwork c = ''tls''
               then (case se_TLSConfig env (fg_syslogCAFile c) (se_host env (fg_syslogAddr c)) of Inl err \<Rightarrow> Inl err | Inr tc \<Rightarrow> Inr (Some tc))
               else Inr None) of
           Inl err \<Rightarrow> Inl (''-syslog-ca-file: '' @ err)
         | Inr tls \<Rightarrow>
             (let s = SinkSyslog (fg_syslogAddr c) (fg_syslogNetwork c) (fg_syslogFormat c) (fg_syslogRFC c) tls in
              case se_Validate env s of Some err \<Rightarrow> Inl err | None \<Rightarrow> Inr [ChHFS s meta mode]))
      else Inl (''-syslog-format '' @ Quote (se_isprint env) (fg_syslogFormat c) @ '': want kv, json or cef''))"

definition build_file :: "channel_flags \<Rightarrow> hfs_meta \<Rightarrow> 'm \<Rightarrow> ('t, 'm) channel list" where
  "build_file c meta mode = (if fg_exportFile c \<noteq> [] then [ChHFS (SinkFile (fg_exportFile c)) meta mode] else [])"

definition build_hec :: "('t, 'm) sink_env \<Rightarrow> channel_flags \<Rightarrow> hfs_meta \<Rightarrow> 'm \<Rightarrow> error + ('t, 'm) channel list" where
  "build_hec env c meta mode =
     (if fg_hecURL c = [] then Inr []
      else if fg_hecTokenFile c = [] then Inl ''-hec-url needs -hec-token-file''
      else
        (case se_ReadSecretFile env (fg_hecTokenFile c) of
           Inl err \<Rightarrow> Inl (''-hec-token-file: '' @ err)
         | Inr tok \<Rightarrow>
             (case se_Endpoint env (SinkHEC (fg_hecURL c) tok (fg_hecIndex c) None) of
                Some err \<Rightarrow> Inl (''-hec-url: '' @ err)
              | None \<Rightarrow>
                  if fg_hecCAFile c = [] then Inr [ChHFS (SinkHEC (fg_hecURL c) tok (fg_hecIndex c) None) meta mode]
                  else
                    (case se_TLSConfig env (fg_hecCAFile c) [] of
                       Inl err \<Rightarrow> Inl (''-hec-ca-file: '' @ err)
                     | Inr tc \<Rightarrow> Inr [ChHFS (SinkHEC (fg_hecURL c) tok (fg_hecIndex c) (Some tc)) meta mode]))))"

definition build :: "('t, 'm) sink_env \<Rightarrow> channel_flags \<Rightarrow> hfs_meta \<Rightarrow> error + ('t, 'm) channel list" where
  "build env c meta =
     (case se_ParseEvidenceMode env (fg_evidence c) of
        None \<Rightarrow> Inl (''-export-evidence '' @ Quote (se_isprint env) (fg_evidence c) @ '': want redacted or none'')
      | Some mode \<Rightarrow>
          (case build_webhook env c meta mode of
             Inl err \<Rightarrow> Inl err
           | Inr w \<Rightarrow>
               (case build_syslog env c meta mode of
                  Inl err \<Rightarrow> Inl err
                | Inr s \<Rightarrow>
                    (case build_hec env c meta mode of
                       Inl err \<Rightarrow> Inl err
                     | Inr h \<Rightarrow> Inr (w @ s @ build_file c meta mode @ h)))))"

section \<open>Start\<close>

record flags =
  fg_license :: string
  fg_channels :: channel_flags
  fg_ai :: ai_config

record ('t, 'm) boot_env =
  be_uni :: "string \<Rightarrow> string"
  be_sha :: "string \<Rightarrow> string"
  be_mar :: marshal
  be_unm :: unmarshal
  be_rand :: "nat \<Rightarrow> error + 8 word list"
  be_license :: license_env
  be_now :: time
  be_keyFile :: "error + string"
  be_b64 :: "string \<Rightarrow> string option"
  be_hostname :: string
  be_ai :: ai_env
  be_http :: ai_transport
  be_url :: "string \<Rightarrow> (string \<times> string) option"
  be_aiKeyFile :: "error + string"
  be_sink :: "('t, 'm) sink_env"

text \<open>The key that the release process bakes into the build, decoded.\<close>

definition issuer_key :: "(string \<Rightarrow> string option) \<Rightarrow> string \<Rightarrow> string" where
  "issuer_key b64 issuerPublicKeyB64 =
     (if issuerPublicKeyB64 \<noteq> [] then (case b64 issuerPublicKeyB64 of Some b \<Rightarrow> b | None \<Rightarrow> []) else [])"

record ('t, 'm) running =
  rn_server :: "(rsql, sqlite_db) server"
  rn_channels :: "('t, 'm) channel list"
  rn_dispatcher :: "dispatcher option"

definition product_collector :: "('t, 'm) boot_env \<Rightarrow> rsql collector" where
  "product_collector B = dmarc_collector (be_uni B) (be_sha B) (rsql_iface (Unix (be_now B)))"

definition product_engine :: "('t, 'm) boot_env \<Rightarrow> sqlite_db engine" where
  "product_engine B = NewEngine (sqlite_iface (be_mar B) (be_unm B)) (be_mar B) (be_rand B)"

definition zero_sched_config :: sched_config where
  "zero_sched_config = \<lparr>sc_Workers = 0, sc_ScanTimeout = 0, sc_JitterFraction = 0, sc_RetryBase = 0, sc_RetryMax = 0, sc_IntervalOverride = 0\<rparr>"

definition zero_notify_config :: notify_config where
  "zero_notify_config = \<lparr>nc_FlushInterval = 0, nc_MaxBatch = 0, nc_MinSeverity = [], nc_Retries = 0, nc_RetryDelay = 0\<rparr>"

text \<open>\<^verbatim>\<open>main\<close> up to the listener: the program running, or the exit code and the message on standard error.\<close>

definition boot :: "string \<Rightarrow> ('t, 'm) boot_env \<Rightarrow> flags \<Rightarrow> sqlite_db \<Rightarrow> rsql \<Rightarrow> (int \<times> string) + ('t, 'm) running" where
  "boot issuerPublicKeyB64 B fs db rep =
     (case Register (product_collector B) (New (product_engine B) zero_sched_config db 0 rep) of
        Inl err \<Rightarrow> Inl (1, ''dmarcwatch: '' @ err)
      | Inr sd \<Rightarrow>
          (let modID = mi_ID Describe;
               sd = restore_targets modID (sq_ListSavedTargets db modID) sd;
               pub = issuer_key (be_b64 B) issuerPublicKeyB64;
               meta = \<lparr>hm_Product = mi_ID Describe, hm_Version = mi_Version Describe, hm_Host = be_hostname B\<rparr>;
               srv = (NewServer (be_license B) Describe (sqlite_iface (be_mar B) (be_unm B)) sd pub (fg_license fs) (be_keyFile B) (be_now B))
                       \<lparr>ws_ExportMeta := meta\<rparr>
           in case NewAIAssist (be_ai B) (be_http B) (be_url B) (be_aiKeyFile B) (fg_ai fs) of
                Inl err \<Rightarrow> Inl (2, ''dmarcwatch: '' @ err)
              | Inr ai \<Rightarrow>
                  (let srv = srv\<lparr>ws_AI := ai, ws_Targets := Some sqlite_target_iface, ws_TierLimits := Some dmarcwatchTierLimits\<rparr> in
                   case build (be_sink B) (fg_channels fs) meta of
                     Inl err \<Rightarrow> Inl (2, ''dmarcwatch: '' @ err)
                   | Inr channels \<Rightarrow>
                       (let disp = (if channels \<noteq> [] then Some (NewDispatcher zero_notify_config (length channels)) else None) in
                        case Start (ws_Scheduler srv) of
                          Inl err \<Rightarrow> Inl (1, ''dmarcwatch: '' @ err)
                        | Inr sd \<Rightarrow> Inr \<lparr>rn_server = srv\<lparr>ws_Scheduler := sd\<rparr>, rn_channels = channels, rn_dispatcher = disp\<rparr>))))"

text \<open>
  The console of the product is attached to the running system by two functions: the domains it lists, and the scan that follows an upload, which is
  started for every edition.
\<close>

definition console_Domains :: "('r, 's) server \<Rightarrow> string list" where
  "console_Domains srv = map t_Canonical (ListTargets (mod_of srv) (ws_Scheduler srv))"

definition console_OnIngest :: "('r, 's) server \<Rightarrow> ('r, 's) server" where
  "console_OnIngest srv = srv\<lparr>ws_Scheduler := fst (ScanNow (mod_of srv) (ws_Scheduler srv))\<rparr>"

section \<open>What a start gives\<close>

definition destination :: "('t, 'm) channel \<Rightarrow> string \<times> string" where
  "destination ch =
     (case ch of
        ChWebhook w \<Rightarrow> (''webhook'', wc_URL w) | ChSyslog s \<Rightarrow> (''syslog'', sy_Addr s)
      | ChHFS k _ _ \<Rightarrow>
          (case k of SinkWebhook url _ \<Rightarrow> (''webhook'', url) | SinkSyslog addr _ _ _ _ \<Rightarrow> (''syslog'', addr)
           | SinkFile p \<Rightarrow> (''file'', p) | SinkHEC url _ _ _ \<Rightarrow> (''hec'', url)))"

definition unreadable :: "error + 'a \<Rightarrow> bool" where
  "unreadable r \<longleftrightarrow> (case r of Inl _ \<Rightarrow> True | Inr _ \<Rightarrow> False)"

text \<open>The settings that stop the program.\<close>

definition bad_webhook :: "('t, 'm) sink_env \<Rightarrow> channel_flags \<Rightarrow> bool" where
  "bad_webhook env c \<longleftrightarrow> fg_webhook c \<noteq> [] \<and>
     (fg_webhookFormat c \<notin> {[], ''v1'', ''v2''} \<or> fg_webhookSecretFile c \<noteq> [] \<and> unreadable (se_ReadSecretFile env (fg_webhookSecretFile c)))"

definition bad_syslog :: "('t, 'm) sink_env \<Rightarrow> channel_flags \<Rightarrow> bool" where
  "bad_syslog env c \<longleftrightarrow> fg_syslogAddr c \<noteq> [] \<and>
     (if fg_syslogFormat c \<in> {[], ''kv''} then fg_syslogNetwork c \<notin> {''udp'', ''tcp''}
      else if fg_syslogFormat c \<in> {se_FormatJSON env, se_FormatCEF env} then
        (let sink = SinkSyslog (fg_syslogAddr c) (fg_syslogNetwork c) (fg_syslogFormat c) (fg_syslogRFC c) in
         if fg_syslogNetwork c = ''tls''
         then (case se_TLSConfig env (fg_syslogCAFile c) (se_host env (fg_syslogAddr c)) of Inl _ \<Rightarrow> True | Inr tc \<Rightarrow> se_Validate env (sink (Some tc)) \<noteq> None)
         else se_Validate env (sink None) \<noteq> None)
      else True)"

definition bad_hec :: "('t, 'm) sink_env \<Rightarrow> channel_flags \<Rightarrow> bool" where
  "bad_hec env c \<longleftrightarrow> fg_hecURL c \<noteq> [] \<and>
     (fg_hecTokenFile c = [] \<or>
      (case se_ReadSecretFile env (fg_hecTokenFile c) of
         Inl _ \<Rightarrow> True
       | Inr tok \<Rightarrow> se_Endpoint env (SinkHEC (fg_hecURL c) tok (fg_hecIndex c) None) \<noteq> None \<or>
           fg_hecCAFile c \<noteq> [] \<and> unreadable (se_TLSConfig env (fg_hecCAFile c) [])))"

lemma webhook_built:
  "case build_webhook env c meta mode of
     Inl _ \<Rightarrow> bad_webhook env c
   | Inr w \<Rightarrow> \<not> bad_webhook env c \<and> map destination w = (if fg_webhook c \<noteq> [] then [(''webhook'', fg_webhook c)] else []) \<and>
       list_all (\<lambda>ch. \<forall>k m o'. ch = ChHFS k m o' \<longrightarrow> m = meta \<and> o' = mode) w"
  by (auto simp: build_webhook_def bad_webhook_def unreadable_def destination_def split: sum.splits)

lemma syslog_built:
  "case build_syslog env c meta mode of
     Inl _ \<Rightarrow> bad_syslog env c
   | Inr w \<Rightarrow> \<not> bad_syslog env c \<and> map destination w = (if fg_syslogAddr c \<noteq> [] then [(''syslog'', fg_syslogAddr c)] else []) \<and>
       list_all (\<lambda>ch. \<forall>k m o'. ch = ChHFS k m o' \<longrightarrow> m = meta \<and> o' = mode) w"
proof -
  let ?sink = "SinkSyslog (fg_syslogAddr c) (fg_syslogNetwork c) (fg_syslogFormat c) (fg_syslogRFC c)"
  note defs = build_syslog_def bad_syslog_def destination_def Let_def
  show ?thesis
  proof (cases "fg_syslogAddr c = [] \<or> fg_syslogFormat c \<in> {[], ''kv''} \<or> fg_syslogFormat c \<notin> {se_FormatJSON env, se_FormatCEF env}")
    case True
    then show ?thesis by (auto simp: defs)
  next
    case False
    then show ?thesis
    proof (cases "fg_syslogNetwork c = ''tls''")
      case True
      then show ?thesis using False
        by (cases "se_TLSConfig env (fg_syslogCAFile c) (se_host env (fg_syslogAddr c))"; cases "se_Validate env (?sink (Some (projr (se_TLSConfig env (fg_syslogCAFile c) (se_host env (fg_syslogAddr c))))))")
           (simp_all add: defs)
    next
      case tls: False
      then show ?thesis using False by (cases "se_Validate env (?sink None)") (simp_all add: defs)
    qed
  qed
qed

lemma hec_built:
  "case build_hec env c meta mode of
     Inl _ \<Rightarrow> bad_hec env c
   | Inr w \<Rightarrow> \<not> bad_hec env c \<and> map destination w = (if fg_hecURL c \<noteq> [] then [(''hec'', fg_hecURL c)] else []) \<and>
       list_all (\<lambda>ch. \<forall>k m o'. ch = ChHFS k m o' \<longrightarrow> m = meta \<and> o' = mode) w"
  by (auto simp: build_hec_def bad_hec_def unreadable_def destination_def split: sum.splits option.splits)

section \<open>Properties\<close>


section \<open>The program in operation\<close>

lemma product_registers:
  "\<exists>sd. Register (product_collector B) (New (product_engine B) zero_sched_config db 0 rep) = Inr sd \<and> sd_store sd = db \<and> sd_engine sd = product_engine B \<and>
     \<not> sd_started sd \<and> gm_get (sd_modules sd) ModuleID = Some \<lparr>rg_collector = product_collector B, rg_info = Describe, rg_targets = []\<rparr>"
  by (simp add: Register_def New_def product_collector_def dmarc_collector_def Describe_def Let_def)

lemma boot_server:
  assumes "boot issuer B fs db rep = Inr rn"
  obtains sd sd1 where "Register (product_collector B) (New (product_engine B) zero_sched_config db 0 rep) = Inr sd"
    "Start (restore_targets ModuleID (sq_ListSavedTargets db ModuleID) sd) = Inr sd1" "ws_Scheduler (rn_server rn) = sd1"
    "ws_Module (rn_server rn) = Describe" "ws_Store (rn_server rn) = sqlite_iface (be_mar B) (be_unm B)"
    "ws_Targets (rn_server rn) = Some sqlite_target_iface" "ws_TierLimits (rn_server rn) = Some dmarcwatchTierLimits"
    "ws_IssuerPub (rn_server rn) = issuer_key (be_b64 B) issuer"
    "\<exists>key. ws_activation (rn_server rn) = Activate (be_license B) (issuer_key (be_b64 B) issuer) ModuleID key (be_now B)"
proof -
  obtain sd where sd: "Register (product_collector B) (New (product_engine B) zero_sched_config db 0 rep) = Inr sd"
    using product_registers by blast
  have id: "mi_ID Describe = ModuleID" by (simp add: Describe_def)
  obtain ai where ai: "NewAIAssist (be_ai B) (be_http B) (be_url B) (be_aiKeyFile B) (fg_ai fs) = Inr ai"
    using assms sd by (cases "NewAIAssist (be_ai B) (be_http B) (be_url B) (be_aiKeyFile B) (fg_ai fs)") (simp_all add: boot_def Let_def)
  obtain chs where chs: "build (be_sink B) (fg_channels fs) \<lparr>hm_Product = mi_ID Describe, hm_Version = mi_Version Describe, hm_Host = be_hostname B\<rparr> = Inr chs"
    using assms sd ai by (cases "build (be_sink B) (fg_channels fs) \<lparr>hm_Product = mi_ID Describe, hm_Version = mi_Version Describe, hm_Host = be_hostname B\<rparr>")
      (simp_all add: boot_def Let_def)
  obtain sd1 where sd1: "Start (restore_targets ModuleID (sq_ListSavedTargets db ModuleID) sd) = Inr sd1"
    using assms sd ai chs by (cases "Start (restore_targets ModuleID (sq_ListSavedTargets db ModuleID) sd)") (simp_all add: boot_def Let_def NewServer_def id)
  have "ws_Scheduler (rn_server rn) = sd1 \<and> ws_Module (rn_server rn) = Describe \<and> ws_Store (rn_server rn) = sqlite_iface (be_mar B) (be_unm B) \<and>
    ws_Targets (rn_server rn) = Some sqlite_target_iface \<and> ws_TierLimits (rn_server rn) = Some dmarcwatchTierLimits \<and>
    ws_IssuerPub (rn_server rn) = issuer_key (be_b64 B) issuer \<and>
    (\<exists>key. ws_activation (rn_server rn) = Activate (be_license B) (issuer_key (be_b64 B) issuer) ModuleID key (be_now B))"
    using assms sd ai chs sd1 by (auto simp: boot_def Let_def NewServer_def id)
  then show ?thesis using that sd sd1 by blast
qed

text \<open>The scan after an upload is one of the steps that an execution of the server may take between requests.\<close>

lemma serving_OnIngest: "serving env P srv srv1 \<Longrightarrow> serving env P srv (console_OnIngest srv1)"
proof -
  assume s: "serving env P srv srv1"
  obtain sd res where sd: "ScanNow (mod_of srv1) (ws_Scheduler srv1) = (sd, res)" by fastforce
  have spawns: "sd_modules (foldl (spawn b m) q ts) = sd_modules q" for b m ts and q :: "('a, 'b) scheduler"
    by (induction ts arbitrary: q) (simp_all add: spawn_def)
  then have "sd_modules sd = sd_modules (ws_Scheduler srv1)" using sd by (auto simp: ScanNow_def split: option.splits)
  from serving.background [OF s sched_step.scan_now [OF sd] this] show ?thesis by (simp add: console_OnIngest_def sd)
qed

lemma boot_module: "boot issuer B fs db rep = Inr rn \<Longrightarrow> mod_of (rn_server rn) = ModuleID"
  by (rule boot_server [of issuer B fs db rep rn]) (simp_all add: Describe_def)

lemma product_stable: "raw_stable (product_collector B)"
  unfolding product_collector_def by (rule dmarc_raw_stable)

lemma product_saved: "be_uni B = be_uni B' \<Longrightarrow> saved_valid (product_collector B) m db = saved_valid (product_collector B') m db"
  by (simp add: saved_valid_def product_collector_def dmarc_collector_def)

lemma boot_linked:
  assumes "boot issuer B fs db rep = Inr rn" and "saved_valid (product_collector B) ModuleID db"
  shows "linked (be_mar B) (be_unm B) (product_collector B) (rn_server rn)" "db_of (rn_server rn) = db" "mod_of (rn_server rn) = ModuleID"
proof -
  obtain sd sd1 where b: "Register (product_collector B) (New (product_engine B) zero_sched_config db 0 rep) = Inr sd"
    "Start (restore_targets ModuleID (sq_ListSavedTargets db ModuleID) sd) = Inr sd1" "ws_Scheduler (rn_server rn) = sd1"
    "ws_Module (rn_server rn) = Describe" "ws_Store (rn_server rn) = sqlite_iface (be_mar B) (be_unm B)"
    "ws_Targets (rn_server rn) = Some sqlite_target_iface"
    using boot_server [OF assms(1)] by metis
  let ?sd' = "restore_targets ModuleID (sq_ListSavedTargets db ModuleID) sd"
  have sd: "sd_store sd = db" "sd_engine sd = product_engine B"
    "gm_get (sd_modules sd) ModuleID = Some \<lparr>rg_collector = product_collector B, rg_info = Describe, rg_targets = []\<rparr>"
    using product_registers [of B db rep] b(1) by auto
  have "sched_ok sd" by (rule sched_step_ok [OF sched_step.register [OF b(1)] New_ok])
  from restore_registered [OF assms(2) this sd(3)] have r: "sched_ok ?sd'" "\<exists>reg'. gm_get (sd_modules ?sd') ModuleID = Some reg' \<and>
      rg_collector reg' = product_collector B \<and> fst ` set (rg_targets reg') = snd ` set (sq_targets db ModuleID)" by simp_all
  have ok1: "sched_ok sd1" by (rule sched_step_ok [OF sched_step.start [OF b(2)] r(1)])
  have same: "sd_modules sd1 = sd_modules ?sd'" "sd_store sd1 = db" "sd_engine sd1 = product_engine B"
    using b(2) restore_frame [of ModuleID "sq_ListSavedTargets db ModuleID" sd] sd(1,2) by (auto simp: Start_def split: if_splits)
  show db: "db_of (rn_server rn) = db" using same b(3) by simp
  show m: "mod_of (rn_server rn) = ModuleID" using b(4) by (simp add: Describe_def)
  show "linked (be_mar B) (be_unm B) (product_collector B) (rn_server rn)"
    unfolding linked_def m db using b(3,5,6) ok1 r(2) same assms(2) by (simp add: product_engine_def saved_valid_def)
qed

text \<open>A build without an issuer key verifies no key.\<close>

lemma no_issuer: "length pub \<noteq> PublicKeySize \<Longrightarrow> Verify env pub product key now \<noteq> Inr lic"
  by (auto simp: Verify_def Let_def split: option.splits if_splits prod.splits)

text \<open>A start to try the properties on: no keys, no channels, no AI endpoint.\<close>

definition sample_boot :: "(unit, unit) boot_env" where
  "sample_boot = \<lparr>be_uni = id, be_sha = id, be_mar = sample_mar, be_unm = sample_unm, be_rand = (\<lambda>k. Inr (replicate 10 0)), be_license = sample_env, be_now = 0,
     be_keyFile = Inl ''no file'', be_b64 = (\<lambda>_. None), be_hostname = ''h'', be_ai = sample_ai, be_http = sample_transport, be_url = (\<lambda>_. None),
     be_aiKeyFile = Inl ''no file'',
     be_sink = \<lparr>se_isprint = (\<lambda>_. True), se_ParseEvidenceMode = (\<lambda>_. Some ()), se_ReadSecretFile = (\<lambda>_. Inl ''no file''), se_TLSConfig = (\<lambda>_ _. Inl ''no file''),
       se_Validate = (\<lambda>_. None), se_Endpoint = (\<lambda>_. None), se_FormatJSON = ''json'', se_FormatCEF = ''cef'', se_host = id\<rparr>\<rparr>"

definition sample_flags :: flags where
  "sample_flags = \<lparr>fg_license = ''k'', fg_channels = registerChannelFlags, fg_ai = \<lparr>ag_URL = [], ag_KeyFile = [], ag_Language = [], ag_NoThinking = False\<rparr>\<rparr>"

lemma sample_boots: "\<exists>rn. boot [] sample_boot sample_flags db rep = Inr rn"
proof -
  obtain sd where sd: "Register (product_collector sample_boot) (New (product_engine sample_boot) zero_sched_config db 0 rep) = Inr sd" "\<not> sd_started sd"
    using product_registers by blast
  have "NewAIAssist (be_ai sample_boot) (be_http sample_boot) (be_url sample_boot) (be_aiKeyFile sample_boot) (fg_ai sample_flags) = Inr None"
    by (simp add: NewAIAssist_def sample_flags_def)
  moreover have "build (be_sink sample_boot) (fg_channels sample_flags) meta = Inr []" for meta
    by (simp add: build_def build_webhook_def build_syslog_def build_file_def build_hec_def sample_boot_def sample_flags_def registerChannelFlags_def)
  ultimately show ?thesis using sd by (simp add: boot_def NewServer_def Start_def restore_frame Let_def)
qed

lemma fresh_installation: "saved_valid (product_collector B) m NewSQLiteStore"
  by (simp add: saved_valid_def sq_tinv_def sq_targets_def NewSQLiteStore_def)

end
