(* ===== verification/Overlap.thy ===== *)
theory Overlap
  imports Sqlite_Store
begin

text \<open>
  Overlapping scans. \<^verbatim>\<open>Reconcile\<close> takes no lock of its own: it lists the findings of its target once and then sends one
  operation after another to the store, and every operation of a store is atomic, \<^verbatim>\<open>MemStore\<close> by its mutex and the SQLite store because
  it sends one SQL statement. The scheduler runs up to \<^verbatim>\<open>Workers\<close> scans at once, so the operations of several calls interleave.

  A call under way is a record of its arguments, of the local variables of \<^verbatim>\<open>Reconcile\<close> and of the place it has reached; \<open>call_step\<close> takes it to
  the next one and makes at most one operation on the store or one draw of an identifier. A pool is a store, the number of identifiers
  drawn, and the calls under way; a schedule is the sequence of the calls that move. \<open>Reconcile_alone\<close> shows that a call that is not
  disturbed does what \<open>Reconcile\<close> says.
\<close>

section \<open>A call under way\<close>

datatype call_pc =
    AtList
  | AtFresh "frecord list" "finding list"
  | AtInsert "frecord list" frecord "finding list"
  | AtAbsent "frecord list"
  | Returned "error option"

record scan_call =
  sc_mod :: module_info
  sc_target :: string
  sc_fresh :: "finding list"
  sc_now :: time
  sc_pc :: call_pc
  sc_seen :: "string list"
  sc_res :: reconcile_result

definition new_call :: "module_info \<Rightarrow> string \<Rightarrow> finding list \<Rightarrow> time \<Rightarrow> scan_call" where
  "new_call mi tgt fresh now = \<lparr>sc_mod = mi, sc_target = tgt, sc_fresh = fresh, sc_now = now, sc_pc = AtList, sc_seen = [],
     sc_res = \<lparr>rr_NewlyOpen = [], rr_Resolved = [], rr_Rejected = []\<rparr>\<rparr>"

definition announce :: "frecord \<Rightarrow> scan_call \<Rightarrow> scan_call" where
  "announce r c = c\<lparr>sc_res := (sc_res c)\<lparr>rr_NewlyOpen := rr_NewlyOpen (sc_res c) @ [finding.truncate r]\<rparr>\<rparr>"

text \<open>\<^verbatim>\<open>ListByTarget\<close>.\<close>

definition list_turn :: "'s engine \<Rightarrow> 's \<Rightarrow> nat \<Rightarrow> scan_call \<Rightarrow> 's \<times> nat \<times> scan_call" where
  "list_turn e s n c =
     (case si_ListByTarget (e_store e) s (mi_ID (sc_mod c)) (sc_target c) of
        Inl err \<Rightarrow> (s, n, c\<lparr>sc_pc := Returned (Some err)\<rparr>)
      | Inr existing \<Rightarrow> (s, n, c\<lparr>sc_pc := AtFresh existing (sc_fresh c)\<rparr>))"

text \<open>One pass of the loop over the fresh findings, up to the draw of an identifier where the finding is new.\<close>

definition fresh_turn ::
  "'s engine \<Rightarrow> frecord list \<Rightarrow> finding \<Rightarrow> finding list \<Rightarrow> 's \<Rightarrow> nat \<Rightarrow> scan_call \<Rightarrow> 's \<times> nat \<times> scan_call" where
  "fresh_turn e existing f fs s n c =
     (case ValidateForIngest f of
        Some err \<Rightarrow>
          (s, n, c\<lparr>sc_res := (sc_res c)\<lparr>rr_Rejected := rr_Rejected (sc_res c) @ [(f, err)]\<rparr>, sc_pc := AtFresh existing fs\<rparr>)
      | None \<Rightarrow>
          (let f = capEvidence (e_marshal e) f; c = c\<lparr>sc_seen := f_Fingerprint f # sc_seen c\<rparr> in
           case gm_get (index_by_fingerprint existing) (f_Fingerprint f) of
             None \<Rightarrow>
               (case e_newID e n (sc_now c) of
                  Inl err \<Rightarrow> (s, Suc n, c\<lparr>sc_pc := Returned (Some err)\<rparr>)
                | Inr i \<Rightarrow>
                    (s, Suc n, c\<lparr>sc_pc := AtInsert existing (new_record (mi_ID (sc_mod c)) i (sc_now c) f) fs\<rparr>))
           | Some prev \<Rightarrow>
               (let merged = merge_record (sc_now c) f prev in
                case si_Upsert (e_store e) s merged of
                  Inl err \<Rightarrow> (s, n, c\<lparr>sc_pc := Returned (Some err)\<rparr>)
                | Inr s' \<Rightarrow>
                    (s', n, (if f_Status prev = StatusResolved then announce merged c else c)\<lparr>sc_pc := AtFresh existing fs\<rparr>))))"

text \<open>\<^verbatim>\<open>Upsert\<close> of a new finding, once its identifier is drawn.\<close>

definition insert_turn ::
  "'s engine \<Rightarrow> frecord list \<Rightarrow> frecord \<Rightarrow> finding list \<Rightarrow> 's \<Rightarrow> nat \<Rightarrow> scan_call \<Rightarrow> 's \<times> nat \<times> scan_call" where
  "insert_turn e existing r fs s n c =
     (case si_Upsert (e_store e) s r of
        Inl err \<Rightarrow> (s, n, c\<lparr>sc_pc := Returned (Some err)\<rparr>)
      | Inr s' \<Rightarrow> (s', n, (announce r c)\<lparr>sc_pc := AtFresh existing fs\<rparr>))"

text \<open>One pass of the loop over the listed findings.\<close>

definition absent_turn ::
  "'s engine \<Rightarrow> frecord \<Rightarrow> frecord list \<Rightarrow> 's \<Rightarrow> nat \<Rightarrow> scan_call \<Rightarrow> 's \<times> nat \<times> scan_call" where
  "absent_turn e r rs s n c =
     (if f_Fingerprint r \<in> set (sc_seen c) \<or> f_Status r = StatusResolved \<or> f_Status r = StatusSuppressed
      then (s, n, c\<lparr>sc_pc := AtAbsent rs\<rparr>)
      else
        (let r' = age_record (sc_mod c) (sc_now c) r;
             c = (if r_AbsentStreak r' \<ge> ResolveAfterOrDefault (sc_mod c)
                  then c\<lparr>sc_res := (sc_res c)\<lparr>rr_Resolved := rr_Resolved (sc_res c) @ [finding.truncate r']\<rparr>\<rparr>
                  else c)
         in case si_Upsert (e_store e) s r' of
              Inl err \<Rightarrow> (s, n, c\<lparr>sc_pc := Returned (Some err)\<rparr>)
            | Inr s' \<Rightarrow> (s', n, c\<lparr>sc_pc := AtAbsent rs\<rparr>)))"

definition call_step :: "'s engine \<Rightarrow> 's \<times> nat \<times> scan_call \<Rightarrow> 's \<times> nat \<times> scan_call" where
  "call_step e p =
     (case p of (s, n, c) \<Rightarrow>
        (case sc_pc c of
           AtList \<Rightarrow> list_turn e s n c
         | AtFresh existing todo \<Rightarrow>
             (case todo of [] \<Rightarrow> (s, n, c\<lparr>sc_pc := AtAbsent existing\<rparr>) | f # fs \<Rightarrow> fresh_turn e existing f fs s n c)
         | AtInsert existing r fs \<Rightarrow> insert_turn e existing r fs s n c
         | AtAbsent todo \<Rightarrow> (case todo of [] \<Rightarrow> (s, n, c\<lparr>sc_pc := Returned None\<rparr>) | r # rs \<Rightarrow> absent_turn e r rs s n c)
         | Returned res \<Rightarrow> p))"

section \<open>Pools and schedules\<close>

type_synonym 's pool = "'s \<times> nat \<times> scan_call list"

definition pool_step :: "'s engine \<Rightarrow> 's pool \<Rightarrow> nat \<Rightarrow> 's pool" where
  "pool_step e p i =
     (case p of (s, n, cs) \<Rightarrow>
        if i < length cs then (case call_step e (s, n, cs ! i) of (s', n', c) \<Rightarrow> (s', n', cs[i := c])) else p)"

definition run_pool :: "'s engine \<Rightarrow> 's pool \<Rightarrow> nat list \<Rightarrow> 's pool" where
  "run_pool e p schedule = foldl (pool_step e) p schedule"

section \<open>A call on its own\<close>

definition reaches :: "'s engine \<Rightarrow> 's \<times> nat \<times> scan_call \<Rightarrow> 's \<times> nat \<times> scan_call \<Rightarrow> bool" where
  "reaches e p q \<longleftrightarrow> (\<exists>k. (call_step e ^^ k) p = q)"

lemma reaches_refl: "reaches e p p"
  unfolding reaches_def by (rule exI [of _ 0]) simp

lemma reaches_step: "call_step e p = q \<Longrightarrow> reaches e q r \<Longrightarrow> reaches e p r"
proof -
  assume "call_step e p = q" "reaches e q r"
  then obtain k where "(call_step e ^^ k) (call_step e p) = r" by (auto simp: reaches_def)
  then have "(call_step e ^^ Suc k) p = r" by (simp add: funpow_swap1)
  then show ?thesis unfolding reaches_def by blast
qed

lemma reaches_trans:
  assumes "reaches e p q" "reaches e q r"
  shows "reaches e p r"
proof -
  from assms obtain j k where "(call_step e ^^ j) p = q" "(call_step e ^^ k) q = r" by (auto simp: reaches_def)
  then have "(call_step e ^^ (k + j)) p = r" by (simp add: funpow_add)
  then show ?thesis unfolding reaches_def by blast
qed

text \<open>The local variables of a call, as \<open>Reconcile\<close> keeps them.\<close>

definition call_at :: "scan_call \<Rightarrow> 's rstate \<Rightarrow> call_pc \<Rightarrow> 's \<times> nat \<times> scan_call" where
  "call_at c st pc = (st_store st, st_ids st, c\<lparr>sc_pc := pc, sc_seen := st_seen st, sc_res := st_res st\<rparr>)"

lemma fresh_pass_reaches:
  assumes "fresh_one e (sc_mod c) (sc_now c) (index_by_fingerprint ex) st f = (st', res)"
  shows "reaches e (call_at c st (AtFresh ex (f # fs))) (call_at c st' (case res of None \<Rightarrow> AtFresh ex fs | Some err \<Rightarrow> Returned (Some err)))"
proof (cases "ValidateForIngest f")
  case (Some err)
  then show ?thesis using assms
    by (intro reaches_step [OF _ reaches_refl]) (auto simp: call_step_def call_at_def fresh_turn_def fresh_one_def)
next
  case valid: None
  let ?f = "capEvidence (e_marshal e) f"
  show ?thesis
  proof (cases "gm_get (index_by_fingerprint ex) (f_Fingerprint f)")
    case (Some prev)
    then show ?thesis using valid assms
      by (intro reaches_step [OF _ reaches_refl])
        (auto simp: call_step_def call_at_def fresh_turn_def fresh_one_def Let_def announce_def split: sum.splits if_splits)
  next
    case new: None
    show ?thesis
    proof (cases "e_newID e (st_ids st) (sc_now c)")
      case (Inl err)
      then show ?thesis using valid new assms
        by (intro reaches_step [OF _ reaches_refl]) (auto simp: call_step_def call_at_def fresh_turn_def fresh_one_def Let_def)
    next
      case (Inr i)
      then show ?thesis using valid new assms
        by (intro reaches_step [OF _ reaches_step [OF _ reaches_refl]], auto simp: call_step_def call_at_def fresh_turn_def)
          (auto simp: insert_turn_def fresh_one_def Let_def announce_def split: sum.splits)
    qed
  qed
qed

lemma fresh_loop_reaches:
  assumes "go_for (fresh_one e (sc_mod c) (sc_now c) (index_by_fingerprint ex)) st fs = (st', res)"
  shows "reaches e (call_at c st (AtFresh ex fs)) (call_at c st' (case res of None \<Rightarrow> AtAbsent ex | Some err \<Rightarrow> Returned (Some err)))"
  using assms
proof (induction fs arbitrary: st)
  case Nil
  then show ?case by (intro reaches_step [OF _ reaches_refl]) (auto simp: call_step_def call_at_def)
next
  case (Cons f fs)
  obtain st1 r where one: "fresh_one e (sc_mod c) (sc_now c) (index_by_fingerprint ex) st f = (st1, r)" by fastforce
  note first = fresh_pass_reaches [OF one, of fs]
  show ?case
  proof (cases r)
    case None
    with Cons.prems one have "go_for (fresh_one e (sc_mod c) (sc_now c) (index_by_fingerprint ex)) st1 fs = (st', res)" by simp
    from reaches_trans [OF first [unfolded None option.case] Cons.IH [OF this]] show ?thesis .
  next
    case (Some err)
    with Cons.prems one first show ?thesis by auto
  qed
qed

lemma absent_pass_reaches:
  assumes "absent_one e (sc_mod c) (sc_now c) st r = (st', res)"
  shows "reaches e (call_at c st (AtAbsent (r # rs))) (call_at c st' (case res of None \<Rightarrow> AtAbsent rs | Some err \<Rightarrow> Returned (Some err)))"
  using assms by (intro reaches_step [OF _ reaches_refl])
    (auto simp: call_step_def call_at_def absent_turn_def absent_one_def Let_def split: sum.splits if_splits)

lemma absent_loop_reaches:
  assumes "go_for (absent_one e (sc_mod c) (sc_now c)) st rs = (st', res)"
  shows "reaches e (call_at c st (AtAbsent rs)) (call_at c st' (Returned res))"
  using assms
proof (induction rs arbitrary: st)
  case Nil
  then show ?case by (intro reaches_step [OF _ reaches_refl]) (auto simp: call_step_def call_at_def)
next
  case (Cons r rs)
  obtain st1 x where one: "absent_one e (sc_mod c) (sc_now c) st r = (st1, x)" by fastforce
  note first = absent_pass_reaches [OF one, of rs]
  show ?case
  proof (cases x)
    case None
    with Cons.prems one have "go_for (absent_one e (sc_mod c) (sc_now c)) st1 rs = (st', res)" by simp
    from reaches_trans [OF first [unfolded None option.case] Cons.IH [OF this]] show ?thesis .
  next
    case (Some err)
    with Cons.prems one first show ?thesis by auto
  qed
qed

text \<open>A call that nothing interrupts returns, with the result and the store of \<open>Reconcile\<close>.\<close>

lemma Reconcile_alone:
  assumes "Reconcile e mi tgt fresh now s n = (st, res)"
  shows "reaches e (s, n, new_call mi tgt fresh now) (call_at (new_call mi tgt fresh now) st (Returned res))"
proof -
  let ?c = "new_call mi tgt fresh now"
  let ?st = "\<lparr>st_store = s, st_ids = n, st_seen = [], st_res = \<lparr>rr_NewlyOpen = [], rr_Resolved = [], rr_Rejected = []\<rparr>\<rparr>"
  have fields: "sc_mod ?c = mi" "sc_target ?c = tgt" "sc_fresh ?c = fresh" "sc_now ?c = now" by (simp_all add: new_call_def)
  have start: "(s, n, ?c) = call_at ?c ?st AtList" by (simp add: call_at_def new_call_def)
  show ?thesis
  proof (cases "si_ListByTarget (e_store e) s (mi_ID mi) tgt")
    case (Inl err)
    with assms show ?thesis unfolding start
      by (intro reaches_step [OF _ reaches_refl]) (auto simp: call_step_def call_at_def list_turn_def new_call_def Reconcile_def Let_def)
  next
    case (Inr ex)
    then have step: "call_step e (call_at ?c ?st AtList) = call_at ?c ?st (AtFresh ex fresh)"
      by (simp add: call_step_def call_at_def list_turn_def fields)
    obtain st1 r where loop: "go_for (fresh_one e mi now (index_by_fingerprint ex)) ?st fresh = (st1, r)" by fastforce
    note first = reaches_step [OF step fresh_loop_reaches [of e ?c ex ?st fresh st1 r, unfolded fields, OF loop]]
    show ?thesis
    proof (cases r)
      case None
      with assms Inr loop have "go_for (absent_one e mi now) st1 ex = (st, res)" by (simp add: Reconcile_def Let_def)
      from absent_loop_reaches [of e ?c st1 ex st res, unfolded fields, OF this] first [unfolded None option.case]
      show ?thesis unfolding start by (rule reaches_trans [rotated])
    next
      case (Some err)
      with assms Inr loop first show ?thesis unfolding start by (auto simp: Reconcile_def Let_def)
    qed
  qed
qed

end
