(* ===== verification/Overlap_Pool.thy ===== *)
theory Overlap_Pool
  imports Overlap
begin

text \<open>
  A pool of overlapping \<^verbatim>\<open>Reconcile\<close> calls for different targets, under an arbitrary schedule of their operations. The argument is one of rely and guarantee:
  a call owns the keys it may write; its invariant relates the present view of the store on those keys, and its local variables, to
  the findings stored at the start of the schedule; its own steps keep the invariant and leave all other keys alone; the steps
  of a call with other keys cannot disturb it. The lemmas are proved once for every lawful store, in the locale \<open>finding_store\<close>.
\<close>

section \<open>What a call owns and has done\<close>

text \<open>
  In what follows \<open>V0\<close> is the view of the store at the start of the schedule and \<open>V\<close> the present one. A call owns the keys of the findings it
  reports and of the stored findings of its target.
\<close>

abbreviation call_valid :: "'s engine \<Rightarrow> scan_call \<Rightarrow> finding list" where
  "call_valid e c \<equiv> valid_fresh (e_marshal e) (sc_fresh c)"

abbreviation call_mod :: "scan_call \<Rightarrow> string" where
  "call_mod c \<equiv> mi_ID (sc_mod c)"

type_synonym finding_view = "string \<Rightarrow> string \<Rightarrow> frecord option"

definition owns :: "'s engine \<Rightarrow> finding_view \<Rightarrow> scan_call \<Rightarrow> string \<Rightarrow> string \<Rightarrow> bool" where
  "owns e V0 c m fp \<longleftrightarrow> m = call_mod c \<and>
     (fp \<in> f_Fingerprint ` set (call_valid e c) \<or> (\<exists>r. V0 m fp = Some r \<and> f_Target r = sc_target c))"

definition listed :: "finding_view \<Rightarrow> scan_call \<Rightarrow> frecord list \<Rightarrow> bool" where
  "listed V0 c rs \<longleftrightarrow> distinct (map f_Fingerprint rs) \<and>
     (\<forall>r. r \<in> set rs \<longleftrightarrow> V0 (call_mod c) (f_Fingerprint r) = Some r \<and> f_Target r = sc_target c)"

text \<open>The valid findings \<open>ds\<close> have been written, and those that were new or resolved announced.\<close>

definition fresh_written ::
  "'s engine \<Rightarrow> (evidence \<Rightarrow> evidence) \<Rightarrow> finding_view \<Rightarrow> finding_view \<Rightarrow> scan_call \<Rightarrow> finding list \<Rightarrow> bool" where
  "fresh_written e nm V0 V c ds \<longleftrightarrow>
     (\<exists>qs. list_all2 (\<lambda>f r. fresh_step (e_newID e) (sc_now c) (call_mod c) f (V0 (call_mod c) (f_Fingerprint f)) r \<and>
           f_Fingerprint r = f_Fingerprint f \<and> V (call_mod c) (f_Fingerprint f) = Some (stored nm r)) ds qs \<and>
         rr_NewlyOpen (sc_res c) = map (finding.truncate \<circ> snd)
           (filter (\<lambda>(f, r). opens (V0 (call_mod c) (f_Fingerprint f))) (zip ds qs)))"

text \<open>The listed findings \<open>rs\<close> have been passed by the loop over the absent ones.\<close>

definition aged :: "module_info \<Rightarrow> time \<Rightarrow> frecord \<Rightarrow> frecord" where
  "aged mi now r = (if live r then age_record mi now r else r)"

definition absent_written ::
  "'s engine \<Rightarrow> finding_view \<Rightarrow> finding_view \<Rightarrow> scan_call \<Rightarrow> frecord list \<Rightarrow> bool" where
  "absent_written e V0 V c rs \<longleftrightarrow>
     rr_Resolved (sc_res c) = map (finding.truncate \<circ> age_record (sc_mod c) (sc_now c))
       (filter (\<lambda>r. f_Fingerprint r \<notin> f_Fingerprint ` set (call_valid e c) \<and> resolves (sc_mod c) r) rs) \<and>
     (\<forall>fp. owns e V0 c (call_mod c) fp \<and> fp \<notin> f_Fingerprint ` set (call_valid e c) \<longrightarrow>
        V (call_mod c) fp = (if fp \<in> f_Fingerprint ` set rs
          then map_option (aged (sc_mod c) (sc_now c)) (V0 (call_mod c) fp) else V0 (call_mod c) fp))"

definition rejected_upto :: "scan_call \<Rightarrow> finding list \<Rightarrow> bool" where
  "rejected_upto c pre \<longleftrightarrow> map fst (rr_Rejected (sc_res c)) = filter (\<lambda>f. ValidateForIngest f \<noteq> None) pre"

definition fresh_phase ::
  "'s engine \<Rightarrow> (evidence \<Rightarrow> evidence) \<Rightarrow> finding_view \<Rightarrow> finding_view \<Rightarrow> scan_call \<Rightarrow> frecord list \<Rightarrow> finding list \<Rightarrow> bool" where
  "fresh_phase e nm V0 V c ex pre \<longleftrightarrow> listed V0 c ex \<and> rejected_upto c pre \<and> rr_Resolved (sc_res c) = [] \<and>
     fresh_written e nm V0 V c (valid_fresh (e_marshal e) pre) \<and>
     (\<forall>fp. owns e V0 c (call_mod c) fp \<and> fp \<notin> f_Fingerprint ` set (valid_fresh (e_marshal e) pre) \<longrightarrow>
        V (call_mod c) fp = V0 (call_mod c) fp)"

definition seen_upto :: "'s engine \<Rightarrow> scan_call \<Rightarrow> finding list \<Rightarrow> bool" where
  "seen_upto e c pre \<longleftrightarrow> set (sc_seen c) = f_Fingerprint ` set (valid_fresh (e_marshal e) pre)"

definition absent_phase ::
  "'s engine \<Rightarrow> (evidence \<Rightarrow> evidence) \<Rightarrow> finding_view \<Rightarrow> finding_view \<Rightarrow> scan_call \<Rightarrow> frecord list \<Rightarrow> frecord list \<Rightarrow> bool" where
  "absent_phase e nm V0 V c ex rs \<longleftrightarrow> listed V0 c ex \<and> rejected_upto c (sc_fresh c) \<and> seen_upto e c (sc_fresh c) \<and>
     fresh_written e nm V0 V c (call_valid e c) \<and> absent_written e V0 V c rs"

text \<open>The invariant of one call.\<close>

definition call_inv :: "'s engine \<Rightarrow> (evidence \<Rightarrow> evidence) \<Rightarrow> finding_view \<Rightarrow> finding_view \<Rightarrow> scan_call \<Rightarrow> bool" where
  "call_inv e nm V0 V c \<longleftrightarrow>
     (case sc_pc c of
        AtList \<Rightarrow> sc_seen c = [] \<and> sc_res c = \<lparr>rr_NewlyOpen = [], rr_Resolved = [], rr_Rejected = []\<rparr> \<and>
          (\<forall>fp. owns e V0 c (call_mod c) fp \<longrightarrow> V (call_mod c) fp = V0 (call_mod c) fp)
      | AtFresh ex todo \<Rightarrow> \<exists>pre. sc_fresh c = pre @ todo \<and> fresh_phase e nm V0 V c ex pre \<and> seen_upto e c pre
      | AtInsert ex r todo \<Rightarrow> \<exists>pre f k i. sc_fresh c = pre @ f # todo \<and> ValidateForIngest f = None \<and>
          fresh_phase e nm V0 V c ex pre \<and> seen_upto e c (pre @ [f]) \<and> V0 (call_mod c) (f_Fingerprint f) = None \<and>
          e_newID e k (sc_now c) = Inr i \<and> r = new_record (call_mod c) i (sc_now c) (capEvidence (e_marshal e) f)
      | AtAbsent todo \<Rightarrow> \<exists>ex rs. ex = rs @ todo \<and> absent_phase e nm V0 V c ex rs
      | Returned err \<Rightarrow> err = None \<and> (\<exists>ex. absent_phase e nm V0 V c ex ex))"

text \<open>What is asked of a call at the start: the hypotheses of a scan on its own, and findings for the target that is scanned.\<close>

definition call_ok :: "'s engine \<Rightarrow> (evidence \<Rightarrow> bool) \<Rightarrow> finding_view \<Rightarrow> scan_call \<Rightarrow> bool" where
  "call_ok e sto V0 c \<longleftrightarrow> distinct (map f_Fingerprint (call_valid e c)) \<and>
     (\<forall>f \<in> set (call_valid e c). f_Target f = sc_target c \<and> sto (f_Evidence f) \<and>
        (\<forall>r. V0 (call_mod c) (f_Fingerprint f) = Some r \<longrightarrow> f_Target r = sc_target c))"

text \<open>The arguments of a call, which no step changes.\<close>

definition same_args :: "scan_call \<Rightarrow> scan_call \<Rightarrow> bool" where
  "same_args c c' \<longleftrightarrow> sc_mod c' = sc_mod c \<and> sc_target c' = sc_target c \<and> sc_fresh c' = sc_fresh c \<and> sc_now c' = sc_now c"

lemma call_step_args: "call_step e (s, n, c) = (s', n', c') \<Longrightarrow> same_args c c'"
  by (auto simp: call_step_def list_turn_def fresh_turn_def insert_turn_def absent_turn_def announce_def same_args_def Let_def
      split: call_pc.splits list.splits sum.splits option.splits if_splits)

lemma owns_args: "same_args c c' \<Longrightarrow> owns e V0 c' = owns e V0 c"
  by (simp add: same_args_def owns_def fun_eq_iff)

lemma owns_pc [simp]: "owns e V0 (c\<lparr>sc_pc := pc\<rparr>) = owns e V0 c"
  by (rule owns_args) (simp add: same_args_def)

lemma call_ok_args: "same_args c c' \<Longrightarrow> call_ok e sto V0 c' = call_ok e sto V0 c"
  by (simp add: same_args_def call_ok_def)

lemma listed_args: "same_args c c' \<Longrightarrow> listed V0 c' = listed V0 c"
  by (simp add: same_args_def listed_def fun_eq_iff)

lemma valid_fresh_append: "valid_fresh mar (xs @ ys) = valid_fresh mar xs @ valid_fresh mar ys"
  by (simp add: valid_fresh_def)

text \<open>Nobody else's writes disturb the invariant of a call.\<close>

lemma fresh_written_stable:
  assumes "fresh_written e nm V0 V c ds" "\<forall>f \<in> set ds. V' (call_mod c) (f_Fingerprint f) = V (call_mod c) (f_Fingerprint f)"
  shows "fresh_written e nm V0 V' c ds"
proof -
  from assms(1) obtain qs where qs: "list_all2 (\<lambda>f r. fresh_step (e_newID e) (sc_now c) (call_mod c) f (V0 (call_mod c) (f_Fingerprint f)) r \<and>
        f_Fingerprint r = f_Fingerprint f \<and> V (call_mod c) (f_Fingerprint f) = Some (stored nm r)) ds qs"
      "rr_NewlyOpen (sc_res c) = map (finding.truncate \<circ> snd)
        (filter (\<lambda>(f, r). opens (V0 (call_mod c) (f_Fingerprint f))) (zip ds qs))"
    by (auto simp: fresh_written_def)
  have "list_all2 (\<lambda>f r. fresh_step (e_newID e) (sc_now c) (call_mod c) f (V0 (call_mod c) (f_Fingerprint f)) r \<and>
        f_Fingerprint r = f_Fingerprint f \<and> V' (call_mod c) (f_Fingerprint f) = Some (stored nm r)) ds qs"
    using qs(1) by (rule list.rel_mono_strong) (use assms(2) in auto)
  with qs(2) show ?thesis by (auto simp: fresh_written_def)
qed

lemma owns_valid: "f \<in> set (call_valid e c) \<Longrightarrow> owns e V0 c (call_mod c) (f_Fingerprint f)"
  by (simp add: owns_def)

lemma valid_prefix: "sc_fresh c = pre @ todo \<Longrightarrow> f \<in> set (valid_fresh (e_marshal e) pre) \<Longrightarrow> f \<in> set (call_valid e c)"
  by (simp add: valid_fresh_append)

lemma fresh_phase_stable:
  assumes "fresh_phase e nm V0 V c ex pre" "sc_fresh c = pre @ todo"
    and own: "\<forall>fp. owns e V0 c (call_mod c) fp \<longrightarrow> V' (call_mod c) fp = V (call_mod c) fp"
  shows "fresh_phase e nm V0 V' c ex pre"
  using assms(1) own fresh_written_stable [of e nm V0 V c "valid_fresh (e_marshal e) pre" V']
    owns_valid [of _ e c V0] valid_prefix [OF assms(2), of _ e]
  by (simp add: fresh_phase_def)

lemma absent_phase_stable:
  assumes "absent_phase e nm V0 V c ex rs"
    and own: "\<forall>fp. owns e V0 c (call_mod c) fp \<longrightarrow> V' (call_mod c) fp = V (call_mod c) fp"
  shows "absent_phase e nm V0 V' c ex rs"
  using assms fresh_written_stable [of e nm V0 V c "call_valid e c" V'] owns_valid [of _ e c V0]
  by (simp add: absent_phase_def absent_written_def)

lemma call_inv_stable:
  assumes inv: "call_inv e nm V0 V c" and own: "\<forall>fp. owns e V0 c (call_mod c) fp \<longrightarrow> V' (call_mod c) fp = V (call_mod c) fp"
  shows "call_inv e nm V0 V' c"
proof (cases "sc_pc c")
  case AtList
  with inv own show ?thesis by (simp add: call_inv_def)
next
  case (AtFresh ex todo)
  with inv fresh_phase_stable [of e nm V0 V c _ _ _ V'] own show ?thesis by (auto simp: call_inv_def)
next
  case (AtInsert ex r todo)
  with inv obtain pre f k i where call: "sc_fresh c = pre @ f # todo" "ValidateForIngest f = None" "fresh_phase e nm V0 V c ex pre"
      "seen_upto e c (pre @ [f])" "V0 (call_mod c) (f_Fingerprint f) = None" "e_newID e k (sc_now c) = Inr i"
      "r = new_record (call_mod c) i (sc_now c) (capEvidence (e_marshal e) f)"
    unfolding call_inv_def AtInsert call_pc.case by blast
  with fresh_phase_stable [where V' = V', OF call(3,1) own] show ?thesis unfolding call_inv_def AtInsert call_pc.case by blast
next
  case (AtAbsent todo)
  with inv absent_phase_stable [of e nm V0 V c _ _ V'] own show ?thesis by (auto simp: call_inv_def)
next
  case (Returned err)
  with inv absent_phase_stable [of e nm V0 V c _ _ V'] own show ?thesis by (auto simp: call_inv_def)
qed

text \<open>An owned key never holds a finding of another target.\<close>

lemma call_inv_target:
  assumes inv: "call_inv e nm V0 V c" and ok: "call_ok e sto V0 c" and own: "owns e V0 c (call_mod c) fp"
    and r: "V (call_mod c) fp = Some r"
  shows "f_Target r = sc_target c"
proof -
  have old: "f_Target r = sc_target c" if "V0 (call_mod c) fp = Some r" for r
    using that own ok by (auto simp: owns_def call_ok_def)
  have fresh: "f_Target r = sc_target c"
    if w: "fresh_written e nm V0 V c ds" and sub: "set ds \<subseteq> set (call_valid e c)" and fp: "fp \<in> f_Fingerprint ` set ds" for ds
  proof -
    from w obtain qs where qs: "list_all2 (\<lambda>f r. fresh_step (e_newID e) (sc_now c) (call_mod c) f (V0 (call_mod c) (f_Fingerprint f)) r \<and>
        f_Fingerprint r = f_Fingerprint f \<and> V (call_mod c) (f_Fingerprint f) = Some (stored nm r)) ds qs"
      by (auto simp: fresh_written_def)
    from fp obtain i where i: "i < length ds" "f_Fingerprint (ds ! i) = fp" by (auto simp: in_set_conv_nth)
    with qs have q: "fresh_step (e_newID e) (sc_now c) (call_mod c) (ds ! i) (V0 (call_mod c) fp) (qs ! i)" "V (call_mod c) fp = Some (stored nm (qs ! i))"
      by (auto simp: list_all2_conv_all_nth)
    have "f_Target (ds ! i) = sc_target c" using ok subsetD [OF sub nth_mem [OF i(1)]] by (simp add: call_ok_def)
    with q r old show ?thesis by (cases "V0 (call_mod c) fp") (auto simp: fresh_step_def)
  qed
  have phase1: "f_Target r = sc_target c" if "fresh_phase e nm V0 V c ex pre" "sc_fresh c = pre @ todo" for ex pre todo
    using that fresh [of "valid_fresh (e_marshal e) pre"] own r old
    by (cases "fp \<in> f_Fingerprint ` set (valid_fresh (e_marshal e) pre)") (auto simp: fresh_phase_def valid_fresh_append)
  have phase2: "f_Target r = sc_target c" if "absent_phase e nm V0 V c ex rs" for ex rs
    using that fresh [of "call_valid e c"] own r old
    by (cases "fp \<in> f_Fingerprint ` set (call_valid e c)") (auto simp: absent_phase_def absent_written_def aged_def split: if_splits)
  show ?thesis
  proof (cases "sc_pc c")
    case AtList
    with inv own r old show ?thesis by (auto simp: call_inv_def)
  next
    case (AtFresh ex todo)
    with inv phase1 show ?thesis unfolding call_inv_def AtFresh call_pc.case by blast
  next
    case (AtInsert ex r todo)
    with inv phase1 show ?thesis unfolding call_inv_def AtInsert call_pc.case by blast
  next
    case (AtAbsent todo)
    with inv phase2 show ?thesis unfolding call_inv_def AtAbsent call_pc.case by blast
  next
    case (Returned err)
    with inv phase2 show ?thesis unfolding call_inv_def Returned call_pc.case by blast
  qed
qed

section \<open>One step of one call\<close>

text \<open>The identifier a call has drawn and not yet stored.\<close>

definition pending :: "scan_call \<Rightarrow> string option" where
  "pending c = (case sc_pc c of AtInsert ex r todo \<Rightarrow> Some (f_ID r) | _ \<Rightarrow> None)"

text \<open>How a step may change the identifiers in use and drawn.\<close>

definition ids_step ::
  "(nat \<Rightarrow> time \<Rightarrow> error + string) \<Rightarrow> finding_view \<Rightarrow> nat \<Rightarrow> scan_call \<Rightarrow> finding_view \<Rightarrow> nat \<Rightarrow> scan_call \<Rightarrow> bool" where
  "ids_step g V n c V' n' c' \<longleftrightarrow> (\<forall>x. id_unused V x \<and> pending c \<noteq> Some x \<longrightarrow> id_unused V' x) \<and>
     (n' = n \<and> pending c' = None \<or> n' = Suc n \<and> (\<exists>i. g n (sc_now c) = Inr i \<and> pending c' = Some i))"

definition keeps_others :: "'s engine \<Rightarrow> finding_view \<Rightarrow> scan_call \<Rightarrow> finding_view \<Rightarrow> finding_view \<Rightarrow> bool" where
  "keeps_others e V0 c V V' \<longleftrightarrow> (\<forall>m fp. \<not> owns e V0 c m fp \<longrightarrow> V' m fp = V m fp)"

lemma id_unused_put_same:
  "V m fp = Some r0 \<Longrightarrow> f_ID r = f_ID r0 \<Longrightarrow> id_unused V x \<Longrightarrow> id_unused (view_put V r) x"
  by (auto simp: id_unused_def view_put_apply)

lemma id_unused_put_other: "f_ID r \<noteq> x \<Longrightarrow> id_unused V x \<Longrightarrow> id_unused (view_put V r) x"
  by (auto simp: id_unused_def view_put_apply)

lemma keeps_others_put:
  "f_Module r = call_mod c \<Longrightarrow> owns e V0 c (call_mod c) (f_Fingerprint r) \<Longrightarrow> keeps_others e V0 c V (view_put V r)"
  by (auto simp: keeps_others_def view_put_apply)

text \<open>The next valid finding \<open>f\<close> has been written as \<open>r\<close>.\<close>

lemma fresh_written_snoc:
  assumes "fresh_written e nm V0 V c ds" "same_args c c'" "f_Fingerprint f \<notin> f_Fingerprint ` set ds"
    and r: "f_Module r = call_mod c" "f_Fingerprint r = f_Fingerprint f"
      "fresh_step (e_newID e) (sc_now c) (call_mod c) f (V0 (call_mod c) (f_Fingerprint f)) r"
    and res: "rr_NewlyOpen (sc_res c') = rr_NewlyOpen (sc_res c) @ (if opens (V0 (call_mod c) (f_Fingerprint f)) then [finding.truncate r] else [])"
  shows "fresh_written e nm V0 (view_put V (stored nm r)) c' (ds @ [f])"
proof -
  let ?V = "view_put V (stored nm r)"
  have "\<forall>g \<in> set ds. ?V (call_mod c) (f_Fingerprint g) = V (call_mod c) (f_Fingerprint g)"
    using assms(3) r by (auto simp: view_put_apply image_iff)
  from fresh_written_stable [where V' = ?V, OF assms(1) this]
  obtain qs where qs: "list_all2 (\<lambda>f r. fresh_step (e_newID e) (sc_now c) (call_mod c) f (V0 (call_mod c) (f_Fingerprint f)) r \<and>
        f_Fingerprint r = f_Fingerprint f \<and> ?V (call_mod c) (f_Fingerprint f) = Some (stored nm r)) ds qs"
      "rr_NewlyOpen (sc_res c) = map (finding.truncate \<circ> snd)
        (filter (\<lambda>(f, r). opens (V0 (call_mod c) (f_Fingerprint f))) (zip ds qs))"
    by (auto simp: fresh_written_def)
  have "length ds = length qs" using qs(1) by (rule list_all2_lengthD)
  then show ?thesis using qs r res assms(2) unfolding fresh_written_def
    by (intro exI [of _ "qs @ [r]"]) (simp add: same_args_def list_all2_appendI view_put_apply)
qed

lemma fresh_phase_snoc:
  assumes phase: "fresh_phase e nm V0 V c ex pre" and fresh: "sc_fresh c = pre @ f # todo" and valid: "ValidateForIngest f = None"
    and ok: "call_ok e sto V0 c" and args: "same_args c c'"
    and r: "f_Module r = call_mod c" "f_Fingerprint r = f_Fingerprint f"
      "fresh_step (e_newID e) (sc_now c) (call_mod c) (capEvidence (e_marshal e) f) (V0 (call_mod c) (f_Fingerprint f)) r"
    and res: "sc_res c' = (sc_res c)\<lparr>rr_NewlyOpen := rr_NewlyOpen (sc_res c) @
       (if opens (V0 (call_mod c) (f_Fingerprint f)) then [finding.truncate r] else [])\<rparr>"
  shows "fresh_phase e nm V0 (view_put V (stored nm r)) c' ex (pre @ [f])"
proof -
  let ?f = "capEvidence (e_marshal e) f" and ?ds = "valid_fresh (e_marshal e) pre"
  have vf: "valid_fresh (e_marshal e) (pre @ [f]) = ?ds @ [?f]" using valid by (simp add: valid_fresh_append)
  have "distinct (map f_Fingerprint (call_valid e c))" using ok by (simp add: call_ok_def)
  then have notin: "f_Fingerprint ?f \<notin> f_Fingerprint ` set ?ds" using valid by (auto simp: fresh valid_fresh_append)
  have "fresh_written e nm V0 (view_put V (stored nm r)) c' (?ds @ [?f])"
    by (rule fresh_written_snoc [OF _ args notin]) (use phase r res in \<open>simp_all add: fresh_phase_def\<close>)
  moreover have "listed V0 c' ex" "rejected_upto c' (pre @ [f])" "rr_Resolved (sc_res c') = []"
    using phase args res valid by (simp_all add: fresh_phase_def listed_def rejected_upto_def same_args_def)
  moreover have "\<forall>fp. owns e V0 c' (call_mod c') fp \<and> fp \<notin> f_Fingerprint ` set (?ds @ [?f]) \<longrightarrow>
      view_put V (stored nm r) (call_mod c') fp = V0 (call_mod c') fp"
    using phase args r by (auto simp: fresh_phase_def same_args_def owns_args [OF args] view_put_apply)
  ultimately show ?thesis unfolding fresh_phase_def vf by blast
qed

text \<open>How many steps a call still needs at most; before the listing this counts the stored findings of its target.\<close>

definition call_rank :: "finding_view \<Rightarrow> scan_call \<Rightarrow> nat" where
  "call_rank V0 c = (case sc_pc c of
      AtList \<Rightarrow> 3 + 2 * length (sc_fresh c) + card {fp. \<exists>r. V0 (call_mod c) fp = Some r \<and> f_Target r = sc_target c}
    | AtFresh ex todo \<Rightarrow> 2 + 2 * length todo + length ex
    | AtInsert ex r todo \<Rightarrow> 3 + 2 * length todo + length ex
    | AtAbsent todo \<Rightarrow> 1 + length todo
    | Returned err \<Rightarrow> 0)"

lemma call_rank_zero: "call_rank V0 c = 0 \<longleftrightarrow> (\<exists>err. sc_pc c = Returned err)"
  by (simp add: call_rank_def split: call_pc.split)

lemma listed_card:
  assumes "listed V0 c ex" "\<And>fp r. V0 (call_mod c) fp = Some r \<Longrightarrow> f_Fingerprint r = fp"
  shows "card {fp. \<exists>r. V0 (call_mod c) fp = Some r \<and> f_Target r = sc_target c} = length ex"
proof -
  have "{fp. \<exists>r. V0 (call_mod c) fp = Some r \<and> f_Target r = sc_target c} = set (map f_Fingerprint ex)"
    using assms by (auto simp: listed_def image_iff) (metis)
  then show ?thesis using distinct_card [of "map f_Fingerprint ex"] assms(1) by (simp add: listed_def)
qed

context finding_store
begin

text \<open>
  Each kind of step, for a call whose invariant holds. \<open>s0\<close> is the store at the start of the schedule, so that the view at the start is a lawful one.
\<close>

definition good_step where
  "good_step e s0 s n c p \<longleftrightarrow> (case p of (s', n', c') \<Rightarrow> inv s' \<and> call_inv e nrm (view s0) (view s') c' \<and>
     keeps_others e (view s0) c (view s) (view s') \<and> ids_step (e_newID e) (view s) n c (view s') n' c')"

lemma good_step_quiet:
  assumes "inv s" "call_inv e nrm (view s0) (view s) c'" "pending c' = None"
  shows "good_step e s0 s n c (s, n, c')"
  using assms by (simp add: good_step_def keeps_others_def ids_step_def)

lemma list_turn_ok:
  assumes e: "e_store e = I" and s: "inv s" and call: "call_inv e nrm (view s0) (view s) c" "sc_pc c = AtList"
    and own: "\<forall>fp r. view s (call_mod c) fp = Some r \<and> f_Target r = sc_target c \<longrightarrow> owns e (view s0) c (call_mod c) fp"
  shows "\<exists>ex. list_turn e s n c = (s, n, c\<lparr>sc_pc := AtFresh ex (sc_fresh c)\<rparr>) \<and> listed (view s0) c ex \<and>
     good_step e s0 s n c (s, n, c\<lparr>sc_pc := AtFresh ex (sc_fresh c)\<rparr>)"
proof -
  obtain ex where ex: "si_ListByTarget I s (call_mod c) (sc_target c) = Inr ex" "distinct (map f_Fingerprint ex)"
      "\<forall>r. r \<in> set ex \<longleftrightarrow> view s (call_mod c) (f_Fingerprint r) = Some r \<and> f_Target r = sc_target c"
    using list_law [OF s] by blast
  have same: "\<forall>fp. owns e (view s0) c (call_mod c) fp \<longrightarrow> view s (call_mod c) fp = view s0 (call_mod c) fp"
    and start: "sc_seen c = []" "sc_res c = \<lparr>rr_NewlyOpen = [], rr_Resolved = [], rr_Rejected = []\<rparr>"
    using call by (simp_all add: call_inv_def)
  have listed: "listed (view s0) c ex"
    using ex(2,3) same own unfolding listed_def owns_def by (metis (no_types, lifting))
  then have "fresh_phase e nrm (view s0) (view s) (c\<lparr>sc_pc := AtFresh ex (sc_fresh c)\<rparr>) ex []"
    using same start by (simp add: fresh_phase_def fresh_written_def rejected_upto_def listed_def owns_def)
  then have "call_inv e nrm (view s0) (view s) (c\<lparr>sc_pc := AtFresh ex (sc_fresh c)\<rparr>)"
    using start by (simp add: call_inv_def seen_upto_def)
  with s have "good_step e s0 s n c (s, n, c\<lparr>sc_pc := AtFresh ex (sc_fresh c)\<rparr>)"
    by (intro good_step_quiet) (simp_all add: pending_def)
  with listed ex(1) e show ?thesis by (intro exI [of _ ex]) (simp add: list_turn_def)
qed

lemma listed_index:
  assumes "inv s0" "listed (view s0) c ex" "call_ok e storable (view s0) c" "f \<in> set (call_valid e c)"
  shows "gm_get (index_by_fingerprint ex) (f_Fingerprint f) = view s0 (call_mod c) (f_Fingerprint f)"
  using assms by (intro index_agrees [of s0 ex "call_mod c" "sc_target c"]) (auto simp: listed_def call_ok_def)

lemma fresh_turn_invalid:
  assumes s: "inv s" and call: "call_inv e nrm (view s0) (view s) c" "sc_pc c = AtFresh ex (f # fs)" and f: "ValidateForIngest f = Some err"
  shows "\<exists>c'. fresh_turn e ex f fs s n c = (s, n, c') \<and> sc_pc c' = AtFresh ex fs \<and> good_step e s0 s n c (s, n, c')"
proof -
  let ?c = "c\<lparr>sc_res := (sc_res c)\<lparr>rr_Rejected := rr_Rejected (sc_res c) @ [(f, err)]\<rparr>, sc_pc := AtFresh ex fs\<rparr>"
  from call obtain pre where pre: "sc_fresh c = pre @ f # fs" "fresh_phase e nrm (view s0) (view s) c ex pre" "seen_upto e c pre"
    unfolding call_inv_def call(2) call_pc.case by blast
  have "fresh_phase e nrm (view s0) (view s) ?c ex (pre @ [f])" "seen_upto e ?c (pre @ [f])"
    using pre(2,3) f by (simp_all add: fresh_phase_def fresh_written_def rejected_upto_def listed_def owns_def valid_fresh_append seen_upto_def)
  then have "call_inv e nrm (view s0) (view s) ?c" using pre(1) by (auto simp: call_inv_def intro!: exI [of _ "pre @ [f]"])
  with s show ?thesis by (auto simp: fresh_turn_def f pending_def intro!: good_step_quiet)
qed

text \<open>A valid finding: where it stands, and what is stored under its key.\<close>

lemma next_fresh:
  assumes fresh: "sc_fresh c = pre @ f # fs" and phase: "fresh_phase e nrm V0 V c ex pre" and f: "ValidateForIngest f = None"
    and ok: "call_ok e storable V0 c"
  shows "capEvidence (e_marshal e) f \<in> set (call_valid e c)" "owns e V0 c (call_mod c) (f_Fingerprint f)"
    and "V (call_mod c) (f_Fingerprint f) = V0 (call_mod c) (f_Fingerprint f)" "storable (f_Evidence (capEvidence (e_marshal e) f))"
proof -
  let ?f = "capEvidence (e_marshal e) f"
  show mem: "?f \<in> set (call_valid e c)" using f by (simp add: fresh valid_fresh_append)
  then show own: "owns e V0 c (call_mod c) (f_Fingerprint f)" using owns_valid [OF mem, of V0] by simp
  have "distinct (map f_Fingerprint (call_valid e c))" using ok by (simp add: call_ok_def)
  then have "f_Fingerprint f \<notin> f_Fingerprint ` set (valid_fresh (e_marshal e) pre)" using f by (auto simp: fresh valid_fresh_append)
  with own phase show "V (call_mod c) (f_Fingerprint f) = V0 (call_mod c) (f_Fingerprint f)" by (simp add: fresh_phase_def)
  from mem ok show "storable (f_Evidence ?f)" by (simp add: call_ok_def)
qed

lemma fresh_turn_known:
  assumes e: "e_store e = I" and s: "inv s" "inv s0" and ok: "call_ok e storable (view s0) c"
    and call: "call_inv e nrm (view s0) (view s) c" "sc_pc c = AtFresh ex (f # fs)"
    and f: "ValidateForIngest f = None" "view s0 (call_mod c) (f_Fingerprint f) = Some p"
  shows "\<exists>s' c'. fresh_turn e ex f fs s n c = (s', n, c') \<and> sc_pc c' = AtFresh ex fs \<and> good_step e s0 s n c (s', n, c')"
proof -
  let ?f = "capEvidence (e_marshal e) f"
  let ?r = "merge_record (sc_now c) ?f p"
  let ?c = "(if f_Status p = StatusResolved then announce ?r (c\<lparr>sc_seen := f_Fingerprint f # sc_seen c\<rparr>)
      else c\<lparr>sc_seen := f_Fingerprint f # sc_seen c\<rparr>)\<lparr>sc_pc := AtFresh ex fs\<rparr>"
  from call obtain pre where pre: "sc_fresh c = pre @ f # fs" "fresh_phase e nrm (view s0) (view s) c ex pre" "seen_upto e c pre"
    unfolding call_inv_def call(2) call_pc.case by blast
  note at = next_fresh [OF pre(1,2) f(1) ok]
  have idx: "gm_get (index_by_fingerprint ex) (f_Fingerprint f) = Some p"
    using listed_index [OF s(2) _ ok at(1)] pre(2) f(2) by (simp add: fresh_phase_def)
  have key: "f_Module p = call_mod c" "f_Fingerprint p = f_Fingerprint f" using keyed [OF s(2) f(2)] by auto
  have now: "view s (call_mod c) (f_Fingerprint f) = Some p" using at(3) f(2) by simp
  obtain s' where s': "si_Upsert I s ?r = Inr s'" "inv s'" "view s' = view_put (view s) (stored nrm ?r)"
    using update_law [OF s(1), of ?r p] now key at(4) by auto
  have "fresh_phase e nrm (view s0) (view s') ?c ex (pre @ [f])"
    unfolding s'(3) by (rule fresh_phase_snoc [OF pre(2,1) f(1) ok])
      (simp_all add: same_args_def announce_def key f(2) fresh_step_def opens_def)
  moreover have "seen_upto e ?c (pre @ [f])" using pre(3) f(1) by (auto simp: seen_upto_def announce_def valid_fresh_append)
  ultimately have "call_inv e nrm (view s0) (view s') ?c"
    using pre(1) by (auto simp: call_inv_def announce_def intro!: exI [of _ "pre @ [f]"])
  moreover have "keeps_others e (view s0) c (view s) (view s')"
    unfolding s'(3) by (rule keeps_others_put) (use key at(2) in simp_all)
  moreover have "ids_step (e_newID e) (view s) n c (view s') n ?c"
    unfolding ids_step_def s'(3) using id_unused_put_same [of "view s", OF now] by (auto simp: pending_def)
  moreover have "fresh_turn e ex f fs s n c = (s', n, ?c)"
    by (simp add: fresh_turn_def f(1) idx Let_def e s'(1))
  ultimately show ?thesis using s'(2) by (auto simp: good_step_def)
qed

lemma fresh_turn_new:
  assumes s: "inv s" "inv s0" and ok: "call_ok e storable (view s0) c"
    and call: "call_inv e nrm (view s0) (view s) c" "sc_pc c = AtFresh ex (f # fs)"
    and f: "ValidateForIngest f = None" "view s0 (call_mod c) (f_Fingerprint f) = None" and i: "e_newID e n (sc_now c) = Inr i"
  shows "\<exists>c' r. fresh_turn e ex f fs s n c = (s, Suc n, c') \<and> sc_pc c' = AtInsert ex r fs \<and> good_step e s0 s n c (s, Suc n, c')"
proof -
  let ?r = "new_record (call_mod c) i (sc_now c) (capEvidence (e_marshal e) f)"
  let ?c = "c\<lparr>sc_seen := f_Fingerprint f # sc_seen c, sc_pc := AtInsert ex ?r fs\<rparr>"
  from call obtain pre where pre: "sc_fresh c = pre @ f # fs" "fresh_phase e nrm (view s0) (view s) c ex pre" "seen_upto e c pre"
    unfolding call_inv_def call(2) call_pc.case by blast
  have idx: "gm_get (index_by_fingerprint ex) (f_Fingerprint f) = None"
    using listed_index [OF s(2) _ ok next_fresh(1) [OF pre(1,2) f(1) ok]] pre(2) f(2) by (simp add: fresh_phase_def)
  have "fresh_phase e nrm (view s0) (view s) ?c ex pre"
    using pre(2) by (simp add: fresh_phase_def fresh_written_def rejected_upto_def listed_def owns_def)
  moreover have "seen_upto e ?c (pre @ [f])" using pre(3) f(1) by (auto simp: seen_upto_def valid_fresh_append)
  ultimately have "call_inv e nrm (view s0) (view s) ?c"
    using pre(1) f i by (auto simp: call_inv_def intro!: exI [of _ pre] exI [of _ f] exI [of _ n])
  then have "good_step e s0 s n c (s, Suc n, ?c)"
    using s(1) i by (simp add: good_step_def keeps_others_def ids_step_def pending_def)
  moreover have "fresh_turn e ex f fs s n c = (s, Suc n, ?c)" by (simp add: fresh_turn_def f(1) idx Let_def i)
  ultimately show ?thesis by auto
qed

lemma insert_turn_ok:
  assumes e: "e_store e = I" and s: "inv s" and ok: "call_ok e storable (view s0) c" and nm: "named (call_mod c)"
    and call: "call_inv e nrm (view s0) (view s) c" "sc_pc c = AtInsert ex r fs" and unused: "id_unused (view s) (f_ID r)"
  shows "\<exists>s' c'. insert_turn e ex r fs s n c = (s', n, c') \<and> sc_pc c' = AtFresh ex fs \<and> good_step e s0 s n c (s', n, c')"
proof -
  let ?c = "(announce r c)\<lparr>sc_pc := AtFresh ex fs\<rparr>"
  from call obtain pre f k i where pre: "sc_fresh c = pre @ f # fs" "ValidateForIngest f = None" "fresh_phase e nrm (view s0) (view s) c ex pre"
      "seen_upto e c (pre @ [f])" "view s0 (call_mod c) (f_Fingerprint f) = None" "e_newID e k (sc_now c) = Inr i"
      "r = new_record (call_mod c) i (sc_now c) (capEvidence (e_marshal e) f)"
    unfolding call_inv_def call(2) call_pc.case by blast
  note at = next_fresh [OF pre(1,3,2) ok]
  have key: "f_Module r = call_mod c" "f_Fingerprint r = f_Fingerprint f" by (simp_all add: pre(7))
  obtain s' where s': "si_Upsert I s r = Inr s'" "inv s'" "view s' = view_put (view s) (stored nrm r)"
    using insert_law [OF s, of r] at(3,4) pre(5) unused nm key by (auto simp: pre(7))
  have "fresh_phase e nrm (view s0) (view s') ?c ex (pre @ [f])"
    unfolding s'(3) by (rule fresh_phase_snoc [OF pre(3,1,2) ok])
      (use pre(5,6) in \<open>auto simp: same_args_def announce_def key fresh_step_def opens_def pre(7)\<close>)
  moreover have "seen_upto e ?c (pre @ [f])" using pre(4) by (simp add: seen_upto_def announce_def)
  ultimately have "call_inv e nrm (view s0) (view s') ?c"
    using pre(1) by (auto simp: call_inv_def announce_def intro!: exI [of _ "pre @ [f]"])
  moreover have "keeps_others e (view s0) c (view s) (view s')"
    unfolding s'(3) by (rule keeps_others_put) (use key at(2) in simp_all)
  moreover have "ids_step (e_newID e) (view s) n c (view s') n ?c"
    unfolding ids_step_def s'(3) using id_unused_put_other [of "stored nrm r"] by (auto simp: pending_def call(2))
  ultimately show ?thesis using s'(1,2) by (auto simp: good_step_def insert_turn_def e)
qed

lemma absent_written_snoc:
  assumes w: "absent_written e V0 V c rs" and args: "same_args c c'" and key: "V0 (call_mod c) (f_Fingerprint r) = Some r"
    and notin: "f_Fingerprint r \<notin> f_Fingerprint ` set rs"
    and res: "rr_Resolved (sc_res c') = rr_Resolved (sc_res c) @
       (if f_Fingerprint r \<notin> f_Fingerprint ` set (call_valid e c) \<and> resolves (sc_mod c) r
        then [finding.truncate (age_record (sc_mod c) (sc_now c) r)] else [])"
    and other: "\<forall>fp. fp \<noteq> f_Fingerprint r \<longrightarrow> V' (call_mod c) fp = V (call_mod c) fp"
    and here: "f_Fingerprint r \<notin> f_Fingerprint ` set (call_valid e c) \<longrightarrow>
       V' (call_mod c) (f_Fingerprint r) = Some (aged (sc_mod c) (sc_now c) r)"
  shows "absent_written e V0 V' c' (rs @ [r])"
proof -
  have fields: "sc_mod c' = sc_mod c" "sc_now c' = sc_now c" "call_valid e c' = call_valid e c"
    using args by (simp_all add: same_args_def)
  show ?thesis unfolding absent_written_def fields owns_args [OF args]
  proof (intro conjI allI impI)
    show "rr_Resolved (sc_res c') = map (finding.truncate \<circ> age_record (sc_mod c) (sc_now c))
        (filter (\<lambda>r. f_Fingerprint r \<notin> f_Fingerprint ` set (call_valid e c) \<and> resolves (sc_mod c) r) (rs @ [r]))"
      using w res by (simp add: absent_written_def)
  next
    fix fp assume own: "owns e V0 c (call_mod c) fp \<and> fp \<notin> f_Fingerprint ` set (call_valid e c)"
    show "V' (call_mod c) fp = (if fp \<in> f_Fingerprint ` set (rs @ [r])
        then map_option (aged (sc_mod c) (sc_now c)) (V0 (call_mod c) fp) else V0 (call_mod c) fp)"
    proof (cases "fp = f_Fingerprint r")
      case True
      with own here key show ?thesis by simp
    next
      case False
      with own w other show ?thesis by (simp add: absent_written_def)
    qed
  qed
qed

lemma absent_turn_ok:
  assumes e: "e_store e = I" and s: "inv s" "inv s0"
    and call: "call_inv e nrm (view s0) (view s) c" "sc_pc c = AtAbsent (r # rs)"
  shows "\<exists>s' c'. absent_turn e r rs s n c = (s', n, c') \<and> sc_pc c' = AtAbsent rs \<and> good_step e s0 s n c (s', n, c')"
proof -
  let ?seen = "f_Fingerprint ` set (call_valid e c)"
  from call obtain gone where ph: "absent_phase e nrm (view s0) (view s) c (gone @ r # rs) gone"
    unfolding call_inv_def call(2) call_pc.case by blast
  have key: "view s0 (call_mod c) (f_Fingerprint r) = Some r" "f_Target r = sc_target c" and notin: "f_Fingerprint r \<notin> f_Fingerprint ` set gone"
    and seen: "set (sc_seen c) = ?seen"
    using ph by (auto simp: absent_phase_def listed_def seen_upto_def)
  have stay: "call_inv e nrm (view s0) V c'"
    if "absent_written e (view s0) V c' (gone @ [r])" "fresh_written e nrm (view s0) V c' (call_valid e c)"
      "same_args c c'" "sc_pc c' = AtAbsent rs" "sc_seen c' = sc_seen c" "rr_Rejected (sc_res c') = rr_Rejected (sc_res c)" for V c'
    unfolding call_inv_def that(4) call_pc.case
    using that ph by (intro exI [of _ "gone @ r # rs"] exI [of _ "gone @ [r]"])
      (simp add: absent_phase_def listed_args [OF that(3)] rejected_upto_def seen_upto_def same_args_def)
  have w: "absent_written e (view s0) (view s) c gone" and fw: "fresh_written e nrm (view s0) (view s) c (call_valid e c)"
    using ph by (simp_all add: absent_phase_def)
  have own: "owns e (view s0) c (call_mod c) (f_Fingerprint r)" using key by (auto simp: owns_def)
  have at: "view s (call_mod c) (f_Fingerprint r) = Some r" if "f_Fingerprint r \<notin> ?seen"
    using w own notin key that by (simp add: absent_written_def)
  show ?thesis
  proof (cases "f_Fingerprint r \<in> ?seen \<or> \<not> live r")
    case True
    let ?c = "c\<lparr>sc_pc := AtAbsent rs\<rparr>"
    have "absent_written e (view s0) (view s) ?c (gone @ [r])"
      by (rule absent_written_snoc [OF w _ key(1) notin]) (use True at in \<open>auto simp: same_args_def resolves_def aged_def simp del: not_None_eq\<close>)
    moreover have "fresh_written e nrm (view s0) (view s) ?c (call_valid e c)" using fw by (simp add: fresh_written_def)
    ultimately have "call_inv e nrm (view s0) (view s) ?c" by (rule stay) (simp_all add: same_args_def)
    with s have "good_step e s0 s n c (s, n, ?c)" by (intro good_step_quiet) (simp_all add: pending_def)
    moreover have "absent_turn e r rs s n c = (s, n, ?c)" using True seen by (auto simp: absent_turn_def live_def)
    ultimately show ?thesis by auto
  next
    case False
    let ?r = "age_record (sc_mod c) (sc_now c) r"
    let ?c = "(if resolves (sc_mod c) r then c\<lparr>sc_res := (sc_res c)\<lparr>rr_Resolved := rr_Resolved (sc_res c) @ [finding.truncate ?r]\<rparr>\<rparr>
        else c)\<lparr>sc_pc := AtAbsent rs\<rparr>"
    have k: "f_Module r = call_mod c" "storable (f_Evidence r)" "nrm (f_Evidence r) = f_Evidence r" using keyed [OF s(2) key(1)] by auto
    have now: "view s (call_mod c) (f_Fingerprint r) = Some r" using at False by simp
    have "stored nrm ?r = ?r" using k by (simp add: stored_id)
    then obtain s' where s': "si_Upsert I s ?r = Inr s'" "inv s'" "view s' = view_put (view s) ?r"
      using update_law [OF s(1), of ?r r] now k by auto
    have "absent_written e (view s0) (view s') ?c (gone @ [r])"
      unfolding s'(3) by (rule absent_written_snoc [OF w _ key(1) notin])
        (use False k in \<open>auto simp: same_args_def view_put_apply aged_def\<close>)
    moreover have "fresh_written e nrm (view s0) (view s') c (call_valid e c)"
      by (rule fresh_written_stable [OF fw]) (use False k in \<open>auto simp: s'(3) view_put_apply image_iff\<close>)
    then have "fresh_written e nrm (view s0) (view s') ?c (call_valid e c)" by (simp add: fresh_written_def)
    ultimately have "call_inv e nrm (view s0) (view s') ?c" by (rule stay) (simp_all add: same_args_def)
    moreover have "keeps_others e (view s0) c (view s) (view s')"
      unfolding s'(3) by (rule keeps_others_put) (use k own in simp_all)
    moreover have "ids_step (e_newID e) (view s) n c (view s') n ?c"
      unfolding ids_step_def s'(3) using id_unused_put_same [of "view s", OF now] by (auto simp: pending_def)
    moreover have "absent_turn e r rs s n c = (s', n, ?c)"
      using False seen e s'(1) by (simp add: absent_turn_def live_def resolves_def Let_def)
    ultimately show ?thesis using s'(2) by (auto simp: good_step_def)
  qed
qed

text \<open>Every step of a call that has not returned.\<close>

lemma call_step_ok:
  assumes e: "e_store e = I" and s: "inv s" "inv s0" and ok: "call_ok e storable (view s0) c" and nm: "named (call_mod c)"
    and call: "call_inv e nrm (view s0) (view s) c"
    and own: "\<forall>fp r. view s (call_mod c) fp = Some r \<and> f_Target r = sc_target c \<longrightarrow> owns e (view s0) c (call_mod c) fp"
    and drawn: "\<And>x. pending c = Some x \<Longrightarrow> id_unused (view s) x" and fresh: "\<exists>i. e_newID e n (sc_now c) = Inr i"
  shows "\<exists>s' n' c'. call_step e (s, n, c) = (s', n', c') \<and> good_step e s0 s n c (s', n', c') \<and>
     (call_rank (view s0) c' < call_rank (view s0) c \<or> call_rank (view s0) c = 0 \<and> c' = c)"
proof (cases "sc_pc c")
  case AtList
  from list_turn_ok [where n = n, OF e s(1) call AtList own] obtain ex where
    ex: "list_turn e s n c = (s, n, c\<lparr>sc_pc := AtFresh ex (sc_fresh c)\<rparr>)" "listed (view s0) c ex"
      "good_step e s0 s n c (s, n, c\<lparr>sc_pc := AtFresh ex (sc_fresh c)\<rparr>)" by blast
  have "card {fp. \<exists>r. view s0 (call_mod c) fp = Some r \<and> f_Target r = sc_target c} = length ex"
    by (rule listed_card [OF ex(2)]) (use keyed [OF s(2)] in blast)
  with ex show ?thesis by (auto simp: call_step_def AtList call_rank_def)
next
  case (AtFresh ex todo)
  show ?thesis
  proof (cases todo)
    case Nil
    let ?c = "c\<lparr>sc_pc := AtAbsent ex\<rparr>"
    from call AtFresh Nil have ph: "fresh_phase e nrm (view s0) (view s) c ex (sc_fresh c)" "seen_upto e c (sc_fresh c)"
      by (auto simp: call_inv_def)
    then have "absent_phase e nrm (view s0) (view s) ?c ex []"
      by (simp add: absent_phase_def fresh_phase_def absent_written_def fresh_written_def rejected_upto_def seen_upto_def listed_def)
    then have "call_inv e nrm (view s0) (view s) ?c" by (auto simp: call_inv_def intro!: exI [of _ "[]"])
    with s have "good_step e s0 s n c (s, n, ?c)" by (intro good_step_quiet) (simp_all add: pending_def)
    then show ?thesis by (simp add: call_step_def AtFresh Nil call_rank_def)
  next
    case (Cons f fs)
    note pc = AtFresh [unfolded Cons]
    from fresh obtain i where i: "e_newID e n (sc_now c) = Inr i" by blast
    have "\<exists>s' n' c'. fresh_turn e ex f fs s n c = (s', n', c') \<and> (sc_pc c' = AtFresh ex fs \<or> (\<exists>r. sc_pc c' = AtInsert ex r fs)) \<and>
        good_step e s0 s n c (s', n', c')"
    proof (cases "ValidateForIngest f")
      case (Some err)
      from fresh_turn_invalid [OF s(1) call pc this] show ?thesis by blast
    next
      case None
      show ?thesis
      proof (cases "view s0 (call_mod c) (f_Fingerprint f)")
        case (Some p)
        from fresh_turn_known [OF e s ok call pc None this] show ?thesis by blast
      next
        case n: None
        from fresh_turn_new [OF s ok call pc None this i] show ?thesis by blast
      qed
    qed
    then show ?thesis by (force simp: call_step_def pc call_rank_def)
  qed
next
  case (AtInsert ex r fs)
  with drawn have "id_unused (view s) (f_ID r)" by (simp add: pending_def)
  from insert_turn_ok [OF e s(1) ok nm call AtInsert this, of n] show ?thesis by (fastforce simp: call_step_def AtInsert call_rank_def)
next
  case (AtAbsent todo)
  show ?thesis
  proof (cases todo)
    case Nil
    let ?c = "c\<lparr>sc_pc := Returned None\<rparr>"
    from call AtAbsent Nil obtain ex where "absent_phase e nrm (view s0) (view s) c ex ex" by (auto simp: call_inv_def)
    then have "absent_phase e nrm (view s0) (view s) ?c ex ex"
      by (simp add: absent_phase_def absent_written_def fresh_written_def rejected_upto_def seen_upto_def listed_def)
    then have "call_inv e nrm (view s0) (view s) ?c" by (auto simp: call_inv_def)
    with s have "good_step e s0 s n c (s, n, ?c)" by (intro good_step_quiet) (simp_all add: pending_def)
    then show ?thesis by (simp add: call_step_def AtAbsent Nil call_rank_def)
  next
    case (Cons r rs)
    note pc = AtAbsent [unfolded Cons]
    from absent_turn_ok [OF e s call pc, of n] show ?thesis by (fastforce simp: call_step_def pc call_rank_def)
  qed
next
  case (Returned err)
  with s call have "good_step e s0 s n c (s, n, c)" by (intro good_step_quiet) (simp_all add: pending_def)
  with Returned show ?thesis by (auto simp: call_step_def call_rank_def)
qed

end

section \<open>Pools of calls\<close>

text \<open>Two calls that do not meet: different targets, and no fingerprint in common when they are of one module.\<close>

definition apart :: "'s engine \<Rightarrow> scan_call \<Rightarrow> scan_call \<Rightarrow> bool" where
  "apart e c d \<longleftrightarrow> call_mod c \<noteq> call_mod d \<or>
     sc_target c \<noteq> sc_target d \<and> f_Fingerprint ` set (call_valid e c) \<inter> f_Fingerprint ` set (call_valid e d) = {}"

lemma apart_owns:
  assumes "apart e c d" "call_ok e sto V0 c" "call_ok e sto V0 d"
  shows "\<not> (owns e V0 c m fp \<and> owns e V0 d m fp)"
  using assms by (auto simp: apart_def owns_def call_ok_def)

lemma apart_args: "same_args c c' \<Longrightarrow> apart e c' d = apart e c d" "same_args c c' \<Longrightarrow> apart e d c' = apart e d c"
  by (simp_all add: same_args_def apart_def)

definition all_apart :: "'s engine \<Rightarrow> scan_call list \<Rightarrow> bool" where
  "all_apart e cs \<longleftrightarrow> (\<forall>i < length cs. \<forall>j < length cs. i \<noteq> j \<longrightarrow> apart e (cs ! i) (cs ! j))"

text \<open>
  From the \<open>n\<close>-th draw on, at any of the calls' instants, the identifier source succeeds and yields new, pairwise different identifiers; those drawn
  and not yet stored are among neither the stored ones nor those to come, and no two calls hold the same.
\<close>

definition ids_fresh_at :: "(nat \<Rightarrow> time \<Rightarrow> error + string) \<Rightarrow> time set \<Rightarrow> nat \<Rightarrow> finding_view \<Rightarrow> bool" where
  "ids_fresh_at g T n V \<longleftrightarrow> (\<forall>k \<ge> n. \<forall>t \<in> T. \<exists>i. g k t = Inr i \<and> id_unused V i \<and> (\<forall>j > k. \<forall>u \<in> T. g j u \<noteq> Inr i))"

definition ids_reserved :: "(nat \<Rightarrow> time \<Rightarrow> error + string) \<Rightarrow> time set \<Rightarrow> nat \<Rightarrow> finding_view \<Rightarrow> scan_call list \<Rightarrow> bool" where
  "ids_reserved g T n V cs \<longleftrightarrow> (\<forall>i < length cs. \<forall>x. pending (cs ! i) = Some x \<longrightarrow> id_unused V x \<and>
     (\<forall>k \<ge> n. \<forall>t \<in> T. g k t \<noteq> Inr x) \<and> (\<forall>j < length cs. j \<noteq> i \<longrightarrow> pending (cs ! j) \<noteq> Some x))"

lemma ids_move:
  assumes fresh: "ids_fresh_at g T n V" and res: "ids_reserved g T n V cs" and step: "ids_step g V n (cs ! i) V' n' c'"
    and i: "i < length cs" and now: "sc_now (cs ! i) \<in> T"
  shows "ids_fresh_at g T n' V'" "ids_reserved g T n' V' (cs[i := c'])"
proof -
  have n: "n \<le> n'" and keep: "\<And>x. id_unused V x \<Longrightarrow> pending (cs ! i) \<noteq> Some x \<Longrightarrow> id_unused V' x"
    using step by (auto simp: ids_step_def)
  show "ids_fresh_at g T n' V'"
    unfolding ids_fresh_at_def
  proof (intro allI ballI impI)
    fix k t assume k: "n' \<le> k" and t: "t \<in> T"
    with fresh n obtain x where x: "g k t = Inr x" "id_unused V x" "\<forall>j > k. \<forall>u \<in> T. g j u \<noteq> Inr x"
      unfolding ids_fresh_at_def by (meson order_trans)
    moreover have "pending (cs ! i) \<noteq> Some x" using res i k n t x(1) unfolding ids_reserved_def by (metis order_trans)
    ultimately show "\<exists>x. g k t = Inr x \<and> id_unused V' x \<and> (\<forall>j > k. \<forall>u \<in> T. g j u \<noteq> Inr x)" using keep by blast
  qed
  show "ids_reserved g T n' V' (cs[i := c'])"
    unfolding ids_reserved_def length_list_update
  proof (intro allI impI conjI ballI)
    fix j x assume j: "j < length cs" and p: "pending (cs[i := c'] ! j) = Some x"
    have new: "\<exists>y. g n (sc_now (cs ! i)) = Inr y \<and> pending c' = Some y \<and> id_unused V y \<and> (\<forall>k > n. \<forall>u \<in> T. g k u \<noteq> Inr y)"
      if "pending c' \<noteq> None"
      using that step fresh now unfolding ids_step_def ids_fresh_at_def by (metis Inr_inject order_refl)
    show "id_unused V' x"
    proof (cases "j = i")
      case True
      with p i new obtain y where "x = y" "g n (sc_now (cs ! i)) = Inr y" "id_unused V y" by auto
      moreover have "pending (cs ! i) \<noteq> Some x" using res i now calculation unfolding ids_reserved_def by (metis order_refl)
      ultimately show ?thesis using keep by simp
    next
      case False
      with p have "pending (cs ! j) = Some x" by simp
      with res i j False have "id_unused V x" "pending (cs ! i) \<noteq> Some x" unfolding ids_reserved_def by blast+
      then show ?thesis by (rule keep)
    qed
    show "g k t \<noteq> Inr x" if "n' \<le> k" "t \<in> T" for k t
    proof (cases "j = i")
      case True
      with p i new have "\<forall>k > n. \<forall>u \<in> T. g k u \<noteq> Inr x" by auto
      moreover have "n' = Suc n" using p True i step by (auto simp: ids_step_def)
      ultimately show ?thesis using that by simp
    next
      case False
      with p res j that n show ?thesis unfolding ids_reserved_def by (metis nth_list_update_neq order_trans)
    qed
    show "pending (cs[i := c'] ! l) \<noteq> Some x" if l: "l < length cs" "l \<noteq> j" for l
    proof (cases "j = i")
      case True
      with p i new have "g n (sc_now (cs ! i)) = Inr x" by auto
      with True res l now show ?thesis unfolding ids_reserved_def by (metis nth_list_update_neq order_refl)
    next
      case False
      note j' = this
      show ?thesis
      proof (cases "l = i")
        case True
        have "pending (cs ! j) = Some x" using p j' by simp
        with res j now have "g n (sc_now (cs ! i)) \<noteq> Inr x" unfolding ids_reserved_def by blast
        with new have "pending c' \<noteq> Some x" by fastforce
        with True i show ?thesis by simp
      next
        case False
        have "pending (cs ! j) = Some x" using p j' by simp
        with res j l have "pending (cs ! l) \<noteq> Some x" unfolding ids_reserved_def by blast
        with False show ?thesis by simp
      qed
    qed
  qed
qed

text \<open>What a call has done when it has returned, told as for a scan on its own.\<close>

definition as_if_alone ::
  "'s engine \<Rightarrow> (evidence \<Rightarrow> evidence) \<Rightarrow> finding_view \<Rightarrow> finding_view \<Rightarrow> scan_call \<Rightarrow> scan_call \<Rightarrow> bool" where
  "as_if_alone e nm V0 V c c' \<longleftrightarrow> sc_pc c' = Returned None \<and>
     (\<forall>m fp. owns e V0 c m fp \<longrightarrow>
        after_scan (e_newID e) nm (sc_mod c) (sc_now c) (sc_target c) (call_valid e c) m fp (V0 m fp) (V m fp)) \<and>
     map f_Fingerprint (rr_NewlyOpen (sc_res c')) =
       map f_Fingerprint (filter (\<lambda>f. opens (V0 (call_mod c) (f_Fingerprint f))) (call_valid e c)) \<and>
     set (rr_Resolved (sc_res c')) = {finding.truncate (age_record (sc_mod c) (sc_now c) r) |r.
        V0 (call_mod c) (f_Fingerprint r) = Some r \<and> f_Target r = sc_target c \<and>
        f_Fingerprint r \<notin> f_Fingerprint ` set (call_valid e c) \<and> resolves (sc_mod c) r} \<and>
     map fst (rr_Rejected (sc_res c')) = filter (\<lambda>f. ValidateForIngest f \<noteq> None) (sc_fresh c)"

lemma fresh_written_after:
  assumes w: "fresh_written e nm V0 V c (call_valid e c)" and d: "distinct (map f_Fingerprint (call_valid e c))" and f: "f \<in> set (call_valid e c)"
  shows "after_scan (e_newID e) nm (sc_mod c) (sc_now c) (sc_target c) (call_valid e c) (call_mod c) (f_Fingerprint f)
    (V0 (call_mod c) (f_Fingerprint f)) (V (call_mod c) (f_Fingerprint f))"
proof -
  let ?vf = "call_valid e c"
  from w obtain qs where qs: "list_all2 (\<lambda>f r. fresh_step (e_newID e) (sc_now c) (call_mod c) f (V0 (call_mod c) (f_Fingerprint f)) r \<and>
        f_Fingerprint r = f_Fingerprint f \<and> V (call_mod c) (f_Fingerprint f) = Some (stored nm r)) ?vf qs"
    by (auto simp: fresh_written_def)
  obtain i where i: "i < length ?vf" "?vf ! i = f" using f by (auto simp: in_set_conv_nth)
  with qs have "fresh_step (e_newID e) (sc_now c) (call_mod c) f (V0 (call_mod c) (f_Fingerprint f)) (qs ! i) \<and>
      V (call_mod c) (f_Fingerprint f) = Some (stored nm (qs ! i))" by (auto simp: list_all2_conv_all_nth)
  moreover have "find (\<lambda>g. f_Fingerprint g = f_Fingerprint f) ?vf = Some f"
    using find_unique [OF d] f by simp
  ultimately show ?thesis by (auto simp: after_scan_def)
qed

lemma fresh_written_announced:
  assumes "fresh_written e nm V0 V c ds"
  shows "map f_Fingerprint (rr_NewlyOpen (sc_res c)) = map f_Fingerprint (filter (\<lambda>f. opens (V0 (call_mod c) (f_Fingerprint f))) ds)"
proof -
  from assms obtain qs where w: "list_all2 (\<lambda>f r. fresh_step (e_newID e) (sc_now c) (call_mod c) f (V0 (call_mod c) (f_Fingerprint f)) r \<and>
        f_Fingerprint r = f_Fingerprint f \<and> V (call_mod c) (f_Fingerprint f) = Some (stored nm r)) ds qs" and
      new: "rr_NewlyOpen (sc_res c) = map (finding.truncate \<circ> snd) (filter (\<lambda>(f, r). opens (V0 (call_mod c) (f_Fingerprint f))) (zip ds qs))"
    by (auto simp: fresh_written_def)
  have fps: "list_all2 (\<lambda>f r. f_Fingerprint r = f_Fingerprint f) ds qs" using w by (rule list_all2_mono) simp
  have "map f_Fingerprint (map (finding.truncate \<circ> snd) (filter (\<lambda>(f, r). Q f) (zip ds qs))) = map f_Fingerprint (filter Q ds)" for Q
    using fps by (induction ds qs rule: list_all2_induct) (auto simp: finding.defs)
  with new show ?thesis by simp
qed

lemma absent_phase_alone:
  assumes ph: "absent_phase e nm V0 V c ex ex" and ok: "call_ok e sto V0 c" and pc: "sc_pc c = Returned None"
    and keyed: "\<And>fp r. V0 (call_mod c) fp = Some r \<Longrightarrow> f_Fingerprint r = fp"
  shows "as_if_alone e nm V0 V c c"
proof -
  let ?m = "call_mod c" and ?S = "f_Fingerprint ` set (call_valid e c)"
  note fw = ph [unfolded absent_phase_def, THEN conjunct2, THEN conjunct2, THEN conjunct2, THEN conjunct1]
  have listed: "\<forall>r. r \<in> set ex \<longleftrightarrow> V0 ?m (f_Fingerprint r) = Some r \<and> f_Target r = sc_target c"
    and res: "rr_Resolved (sc_res c) = map (finding.truncate \<circ> age_record (sc_mod c) (sc_now c))
       (filter (\<lambda>r. f_Fingerprint r \<notin> ?S \<and> resolves (sc_mod c) r) ex)"
    and rest: "\<And>fp. owns e V0 c ?m fp \<Longrightarrow> fp \<notin> ?S \<Longrightarrow> V ?m fp = (if fp \<in> f_Fingerprint ` set ex
        then map_option (aged (sc_mod c) (sc_now c)) (V0 ?m fp) else V0 ?m fp)"
    and rej: "map fst (rr_Rejected (sc_res c)) = filter (\<lambda>f. ValidateForIngest f \<noteq> None) (sc_fresh c)"
    using ph by (simp_all add: absent_phase_def listed_def absent_written_def rejected_upto_def)
  have after: "after_scan (e_newID e) nm (sc_mod c) (sc_now c) (sc_target c) (call_valid e c) m fp (V0 m fp) (V m fp)"
    if own: "owns e V0 c m fp" for m fp
  proof (cases "fp \<in> ?S")
    case True
    with own fresh_written_after [OF fw] ok show ?thesis by (auto simp: owns_def call_ok_def)
  next
    case False
    with own obtain r where m: "m = ?m" and r: "V0 ?m fp = Some r" "f_Target r = sc_target c" by (auto simp: owns_def)
    with listed keyed [OF r(1)] have "fp \<in> f_Fingerprint ` set ex" by force
    with rest [of fp] own m False r have "V ?m fp = Some (aged (sc_mod c) (sc_now c) r)" by simp
    moreover have "find (\<lambda>f. f_Fingerprint f = fp) (call_valid e c) = None" using False by (auto simp: find_None_iff)
    ultimately show ?thesis using m r by (simp add: after_scan_def aged_def)
  qed
  have "set (rr_Resolved (sc_res c)) = {finding.truncate (age_record (sc_mod c) (sc_now c) r) |r.
      V0 ?m (f_Fingerprint r) = Some r \<and> f_Target r = sc_target c \<and> f_Fingerprint r \<notin> ?S \<and> resolves (sc_mod c) r}"
    unfolding res using listed by auto
  with after fresh_written_announced [OF fw] rej pc show ?thesis unfolding as_if_alone_def by blast
qed

lemma as_if_alone_args: "same_args c c' \<Longrightarrow> as_if_alone e nm V0 V c' d = as_if_alone e nm V0 V c d"
  by (simp add: as_if_alone_def owns_args) (simp add: same_args_def)

context finding_store
begin

definition pool_inv where
  "pool_inv e s0 T p \<longleftrightarrow> (case p of (s, n, cs) \<Rightarrow> inv s \<and> all_apart e cs \<and>
     (\<forall>c \<in> set cs. call_ok e storable (view s0) c \<and> call_inv e nrm (view s0) (view s) c \<and> sc_now c \<in> T \<and> named (call_mod c)) \<and>
     (\<forall>m fp. (\<forall>c \<in> set cs. \<not> owns e (view s0) c m fp) \<longrightarrow> view s m fp = view s0 m fp) \<and>
     ids_fresh_at (e_newID e) T n (view s) \<and> ids_reserved (e_newID e) T n (view s) cs)"

text \<open>Whoever else writes, the stored findings of a call's target are the ones it owns.\<close>

lemma pool_targets:
  assumes p: "pool_inv e s0 T (s, n, cs)" and i: "i < length cs"
    and r: "view s (call_mod (cs ! i)) fp = Some r" "f_Target r = sc_target (cs ! i)"
  shows "owns e (view s0) (cs ! i) (call_mod (cs ! i)) fp"
proof (rule ccontr)
  let ?c = "cs ! i" and ?m = "call_mod (cs ! i)"
  assume no: "\<not> owns e (view s0) ?c ?m fp"
  show False
  proof (cases "\<exists>d \<in> set cs. owns e (view s0) d ?m fp")
    case False
    then have "view s ?m fp = view s0 ?m fp" using p by (auto simp: pool_inv_def)
    with r no show False by (auto simp: owns_def)
  next
    case True
    then obtain j where j: "j < length cs" "owns e (view s0) (cs ! j) ?m fp" by (metis in_set_conv_nth)
    with no have "j \<noteq> i" by auto
    with p i j(1) have "apart e ?c (cs ! j)" by (auto simp: pool_inv_def all_apart_def)
    moreover have m: "call_mod (cs ! j) = ?m" using j(2) by (simp add: owns_def)
    moreover have "f_Target r = sc_target (cs ! j)"
      by (rule call_inv_target [of e nrm "view s0" "view s" _ storable fp]) (use p j m r in \<open>auto simp: pool_inv_def\<close>)
    ultimately show False using r(2) by (auto simp: apart_def)
  qed
qed

lemma pool_step_ok:
  assumes e: "e_store e = I" and s0: "inv s0" and p: "pool_inv e s0 T (s, n, cs)" and i: "i < length cs"
  shows "\<exists>s' n' c'. pool_step e (s, n, cs) i = (s', n', cs[i := c']) \<and> pool_inv e s0 T (s', n', cs[i := c']) \<and> same_args (cs ! i) c' \<and>
     (call_rank (view s0) c' < call_rank (view s0) (cs ! i) \<or> call_rank (view s0) (cs ! i) = 0 \<and> c' = cs ! i)"
proof -
  let ?c = "cs ! i"
  have mem: "?c \<in> set cs" using i by simp
  have c: "inv s" "call_ok e storable (view s0) ?c" "call_inv e nrm (view s0) (view s) ?c" "sc_now ?c \<in> T" "named (call_mod ?c)"
    and ids: "ids_fresh_at (e_newID e) T n (view s)" "ids_reserved (e_newID e) T n (view s) cs" and far: "all_apart e cs"
    and none: "\<forall>m fp. (\<forall>c \<in> set cs. \<not> owns e (view s0) c m fp) \<longrightarrow> view s m fp = view s0 m fp"
    and all: "\<forall>c \<in> set cs. call_ok e storable (view s0) c \<and> call_inv e nrm (view s0) (view s) c \<and> sc_now c \<in> T \<and> named (call_mod c)"
    using p mem unfolding pool_inv_def by auto
  have own: "\<forall>fp r. view s (call_mod ?c) fp = Some r \<and> f_Target r = sc_target ?c \<longrightarrow> owns e (view s0) ?c (call_mod ?c) fp"
    using pool_targets [OF p i] by blast
  have drawn: "\<And>x. pending ?c = Some x \<Longrightarrow> id_unused (view s) x" using ids(2) i by (auto simp: ids_reserved_def)
  have next_id: "\<exists>x. e_newID e n (sc_now ?c) = Inr x" using ids(1) c(4) unfolding ids_fresh_at_def by blast
  obtain s' n' c' where step: "call_step e (s, n, ?c) = (s', n', c')" and good: "good_step e s0 s n ?c (s', n', c')"
    and rank: "call_rank (view s0) c' < call_rank (view s0) ?c \<or> call_rank (view s0) ?c = 0 \<and> c' = ?c"
    using call_step_ok [OF e c(1) s0 c(2,5,3) own drawn next_id] by blast
  have args: "same_args ?c c'" by (rule call_step_args [OF step])
  have g: "inv s'" "call_inv e nrm (view s0) (view s') c'" "keeps_others e (view s0) ?c (view s) (view s')"
      "ids_step (e_newID e) (view s) n ?c (view s') n' c'"
    using good by (simp_all add: good_step_def)
  note moved = ids_move [OF ids g(4) i c(4)]
  have others: "call_inv e nrm (view s0) (view s') d" if d: "j < length cs" "j \<noteq> i" "d = cs ! j" for j d
  proof (rule call_inv_stable)
    show "call_inv e nrm (view s0) (view s) d" using all d by simp
    have "apart e ?c d" using far i d by (auto simp: all_apart_def)
    then have "\<not> (owns e (view s0) ?c m fp \<and> owns e (view s0) d m fp)" for m fp
      by (rule apart_owns [OF _ c(2)]) (use all d in simp)
    with g(3) show "\<forall>fp. owns e (view s0) d (call_mod d) fp \<longrightarrow> view s' (call_mod d) fp = view s (call_mod d) fp"
      by (auto simp: keeps_others_def)
  qed
  have each: "call_ok e storable (view s0) d \<and> call_inv e nrm (view s0) (view s') d \<and> sc_now d \<in> T \<and> named (call_mod d)"
    if d: "d \<in> set (cs[i := c'])" for d
  proof -
    from d obtain j where j: "j < length cs" "d = cs[i := c'] ! j" by (auto simp: in_set_conv_nth)
    show ?thesis
    proof (cases "j = i")
      case True
      with j have "d = c'" by simp
      with c g(2) args call_ok_args [OF args, of e storable "view s0"] show ?thesis by (simp add: same_args_def)
    next
      case False
      with j have "d = cs ! j" "d \<in> set cs" by auto
      with all others [OF j(1) False] show ?thesis by simp
    qed
  qed
  have far': "all_apart e (cs[i := c'])"
    using far i by (auto simp: all_apart_def nth_list_update apart_args [OF args])
  have none': "view s' m fp = view s0 m fp" if un: "\<forall>d \<in> set (cs[i := c']). \<not> owns e (view s0) d m fp" for m fp
  proof -
    have "\<not> owns e (view s0) ?c m fp" using un set_update_memI [OF i, of c'] owns_args [OF args, of e "view s0"] by metis
    moreover have "\<forall>d \<in> set cs. \<not> owns e (view s0) d m fp"
    proof
      fix d assume "d \<in> set cs"
      then obtain j where j: "j < length cs" "d = cs ! j" by (metis in_set_conv_nth)
      show "\<not> owns e (view s0) d m fp"
      proof (cases "j = i")
        case False
        with j have "d \<in> set (cs[i := c'])" by (metis length_list_update nth_list_update_neq nth_mem)
        with un show ?thesis by blast
      qed (use j calculation in simp)
    qed
    ultimately show ?thesis using none g(3) by (simp add: keeps_others_def)
  qed
  have "pool_inv e s0 T (s', n', cs[i := c'])"
    unfolding pool_inv_def prod.case using g(1) far' each none' moved by blast
  with step args rank i show ?thesis by (auto simp: pool_step_def)
qed

text \<open>A whole schedule.\<close>

lemma pool_run_ok:
  assumes e: "e_store e = I" and s0: "inv s0" and p: "pool_inv e s0 T (s, n, cs)"
  shows "\<exists>s' n' cs'. run_pool e (s, n, cs) sched = (s', n', cs') \<and> pool_inv e s0 T (s', n', cs') \<and> length cs' = length cs \<and>
     (\<forall>i < length cs. same_args (cs ! i) (cs' ! i) \<and>
        call_rank (view s0) (cs' ! i) \<le> call_rank (view s0) (cs ! i) - count_list sched i)"
  using p
proof (induction sched arbitrary: s n cs)
  case Nil
  then show ?case by (simp add: run_pool_def same_args_def)
next
  case (Cons k sched)
  show ?case
  proof (cases "k < length cs")
    case False
    then have "run_pool e (s, n, cs) (k # sched) = run_pool e (s, n, cs) sched" by (simp add: run_pool_def pool_step_def)
    moreover have "count_list (k # sched) i = count_list sched i" if "i < length cs" for i using that False by auto
    ultimately show ?thesis using Cons.IH [OF Cons.prems] by simp
  next
    case True
    obtain s1 n1 c1 where one: "pool_step e (s, n, cs) k = (s1, n1, cs[k := c1])" "pool_inv e s0 T (s1, n1, cs[k := c1])" "same_args (cs ! k) c1"
        "call_rank (view s0) c1 < call_rank (view s0) (cs ! k) \<or> call_rank (view s0) (cs ! k) = 0 \<and> c1 = cs ! k"
      using pool_step_ok [OF e s0 Cons.prems True] by blast
    obtain s' n' cs' where run: "run_pool e (s1, n1, cs[k := c1]) sched = (s', n', cs')" "pool_inv e s0 T (s', n', cs')" "length cs' = length cs"
        "\<forall>i < length cs. same_args (cs[k := c1] ! i) (cs' ! i) \<and>
          call_rank (view s0) (cs' ! i) \<le> call_rank (view s0) (cs[k := c1] ! i) - count_list sched i"
      using Cons.IH [OF one(2)] by auto
    have "same_args (cs ! i) (cs' ! i) \<and> call_rank (view s0) (cs' ! i) \<le> call_rank (view s0) (cs ! i) - count_list (k # sched) i"
      if i: "i < length cs" for i
      using run(4) [rule_format, OF i] i one(3,4) by (cases "i = k") (auto simp: same_args_def)
    with run(1-3) one(1) show ?thesis by (simp add: run_pool_def)
  qed
qed

lemma new_call_inv: "c = new_call mi tgt fresh now \<Longrightarrow> call_inv e nrm (view s) (view s) c" "c = new_call mi tgt fresh now \<Longrightarrow> pending c = None"
  by (simp_all add: call_inv_def pending_def new_call_def)

lemma overlapping_calls:
  assumes e: "e_store e = I" and s: "inv s" and ids: "ids_fresh_at (e_newID e) (sc_now ` set cs) n (view s)"
    and new: "\<forall>c \<in> set cs. c = new_call (sc_mod c) (sc_target c) (sc_fresh c) (sc_now c)"
    and ok: "\<forall>c \<in> set cs. call_ok e storable (view s) c" and nm: "\<forall>c \<in> set cs. named (call_mod c)" and far: "all_apart e cs"
    and fair: "\<forall>i < length cs. call_rank (view s) (cs ! i) \<le> count_list sched i"
  shows "\<exists>s' n' cs'. run_pool e (s, n, cs) sched = (s', n', cs') \<and> inv s' \<and> length cs' = length cs \<and>
     (\<forall>i < length cs. as_if_alone e nrm (view s) (view s') (cs ! i) (cs' ! i)) \<and>
     (\<forall>m fp. (\<forall>c \<in> set cs. \<not> owns e (view s) c m fp) \<longrightarrow> view s' m fp = view s m fp)"
proof -
  have call: "call_inv e nrm (view s) (view s) c \<and> pending c = None" if "c \<in> set cs" for c
    using new_call_inv [of c] new that by blast
  have "pool_inv e s (sc_now ` set cs) (s, n, cs)"
    using s far ok call nm ids by (auto simp: pool_inv_def ids_reserved_def)
  from pool_run_ok [OF e s this, of sched] obtain s' n' cs' where run: "run_pool e (s, n, cs) sched = (s', n', cs')"
      "pool_inv e s (sc_now ` set cs) (s', n', cs')" "length cs' = length cs"
      "\<forall>i < length cs. same_args (cs ! i) (cs' ! i) \<and> call_rank (view s) (cs' ! i) \<le> call_rank (view s) (cs ! i) - count_list sched i" by blast
  have alone: "as_if_alone e nrm (view s) (view s') (cs ! i) (cs' ! i)" if i: "i < length cs" for i
  proof -
    let ?c = "cs' ! i"
    have mem: "?c \<in> set cs'" using i run(3) by simp
    have "call_rank (view s) ?c = 0" using run(4) fair i by (metis diff_is_0_eq le_zero_eq)
    then obtain err where "sc_pc ?c = Returned err" by (auto simp: call_rank_zero)
    moreover have inv': "call_inv e nrm (view s) (view s') ?c" "call_ok e storable (view s) ?c"
      using run(2) mem by (auto simp: pool_inv_def)
    ultimately obtain ex where "sc_pc ?c = Returned None" "absent_phase e nrm (view s) (view s') ?c ex ex" by (auto simp: call_inv_def)
    then have "as_if_alone e nrm (view s) (view s') ?c ?c"
      by (intro absent_phase_alone [OF _ inv'(2)]) (use keyed [OF s] in auto)
    moreover have "same_args (cs ! i) ?c" using run(4) i by simp
    ultimately show ?thesis using as_if_alone_args by blast
  qed
  have "view s' m fp = view s m fp" if un: "\<forall>c \<in> set cs. \<not> owns e (view s) c m fp" for m fp
  proof -
    have "\<forall>c \<in> set cs'. \<not> owns e (view s) c m fp"
      using un run(3,4) by (metis in_set_conv_nth owns_args)
    with run(2) show ?thesis by (simp add: pool_inv_def)
  qed
  with run alone show ?thesis by (auto simp: pool_inv_def)
qed

end

section \<open>Property\<close>

lemma sample_ids_fresh_at: "(\<And>m fp r. V m fp = Some r \<Longrightarrow> f_ID r = ''id'') \<Longrightarrow> ids_fresh_at sample_ids T n V"
proof -
  assume V: "\<And>m fp r. V m fp = Some r \<Longrightarrow> f_ID r = ''id''"
  have same: "sample_ids k t = sample_ids k u" for k t u by (simp add: sample_ids_def)
  have "ids_fresh sample_ids 0 n V" by (rule sample_ids_fresh [OF V])
  then show ?thesis unfolding ids_fresh_def ids_fresh_at_def by (metis same)
qed


definition sample_calls :: "scan_call list" where
  "sample_calls = [new_call sample_module ''x.y'' [] 7, new_call sample_module ''d.e'' [sample_finding] 8]"


text \<open>
  Calls for one target must not overlap: two scans that list before either writes both take a finding for new. Both announce it, and the second
  announcement carries an identifier that the store does not hold.
\<close>

lemma announced_twice:
  "case run_pool sample_engine (NewSQLiteStore, 0, [new_call sample_module ''d.e'' [sample_finding] 7, new_call sample_module ''d.e'' [sample_finding] 8])
      [0, 1, 0, 0, 0, 0, 1, 1, 1, 1] of
     (db, n, cs) \<Rightarrow> map sc_pc cs = [Returned None, Returned None] \<and>
       map (\<lambda>c. map f_ID (rr_NewlyOpen (sc_res c))) cs = [[[]], [[CHR ''x'']]] \<and> map fr_id (db_findings db) = [[]]"
  by code_simp

end
