(* ===== verification/Lost_Update.thy ===== *)
theory Lost_Update
  imports Overlap Web_Safety
begin

text \<open>
  A change of status through the API while a scan of the finding's target is under way. \<^verbatim>\<open>Reconcile\<close> writes back the record it listed, with the
  descriptive fields refreshed, and \<^verbatim>\<open>Upsert\<close> replaces the status column; so what the user set between the listing and the write is overwritten
  with the status the scan had read, although the API has answered that the change was made.
\<close>

section \<open>A call that has passed a finding does not touch it again\<close>

definition spares :: "string \<Rightarrow> scan_call \<Rightarrow> bool" where
  "spares fp c \<longleftrightarrow> fp \<in> set (sc_seen c) \<and>
     (case sc_pc c of
        AtList \<Rightarrow> False
      | AtFresh ex todo \<Rightarrow> (\<forall>r \<in> set ex. f_Module r = mi_ID (sc_mod c)) \<and> distinct (map f_Fingerprint ex) \<and> (\<forall>g \<in> set todo. f_Fingerprint g \<noteq> fp)
      | AtInsert ex r todo \<Rightarrow> (\<forall>r \<in> set ex. f_Module r = mi_ID (sc_mod c)) \<and> distinct (map f_Fingerprint ex) \<and>
          f_Module r = mi_ID (sc_mod c) \<and> f_Fingerprint r \<noteq> fp \<and> (\<forall>g \<in> set todo. f_Fingerprint g \<noteq> fp)
      | AtAbsent todo \<Rightarrow> \<forall>r \<in> set todo. f_Module r = mi_ID (sc_mod c)
      | Returned err \<Rightarrow> True)"

context finding_store
begin

lemma spares_step:
  assumes e: "e_store e = I" and s: "inv s" and nm: "named (mi_ID (sc_mod c))" and sp: "spares fp c"
    and step: "call_step e (s, n, c) = (s', n', c')"
  shows "inv s' \<and> view s' m fp = view s m fp \<and> sc_mod c' = sc_mod c \<and> spares fp c'"
proof -
  have put: "inv s1 \<and> view s1 m fp = view s m fp"
    if "si_Upsert I s r = Inr s1" "f_Module r = mi_ID (sc_mod c)" "f_Fingerprint r \<noteq> fp" for s1 r
    using frame_law [OF s _ that(1)] nm that by simp
  show ?thesis
  proof (cases "sc_pc c")
    case AtList
    with sp show ?thesis by (simp add: spares_def)
  next
    case (AtFresh ex todo)
    show ?thesis
    proof (cases todo)
      case Nil
      with AtFresh sp step s show ?thesis by (auto simp: call_step_def spares_def)
    next
      case (Cons f fs)
      have sp': "fp \<in> set (sc_seen c)" "\<forall>r \<in> set ex. f_Module r = mi_ID (sc_mod c)" "distinct (map f_Fingerprint ex)"
          "f_Fingerprint f \<noteq> fp" "\<forall>g \<in> set fs. f_Fingerprint g \<noteq> fp"
        using sp AtFresh Cons by (simp_all add: spares_def)
      have turn: "fresh_turn e ex f fs s n c = (s', n', c')" using step AtFresh Cons by (simp add: call_step_def)
      show ?thesis
      proof (cases "ValidateForIngest f")
        case (Some err)
        with turn s sp' show ?thesis by (auto simp: fresh_turn_def spares_def)
      next
        case valid: None
        show ?thesis
        proof (cases "gm_get (index_by_fingerprint ex) (f_Fingerprint f)")
          case None
          with turn valid s sp' show ?thesis
            by (auto simp: fresh_turn_def spares_def Let_def split: sum.splits)
        next
          case (Some p)
          then have p: "p \<in> set ex" "f_Fingerprint p = f_Fingerprint f" by (simp_all add: index_by_fingerprint_Some_iff [OF sp'(3)])
          let ?r = "merge_record (sc_now c) (capEvidence (e_marshal e) f) p"
          show ?thesis
          proof (cases "si_Upsert I s ?r")
            case (Inl err)
            with turn valid Some s sp' e show ?thesis by (auto simp: fresh_turn_def spares_def Let_def)
          next
            case (Inr s1)
            with put [of ?r s1] p sp' turn valid Some e show ?thesis
              by (auto simp: fresh_turn_def spares_def Let_def announce_def)
          qed
        qed
      qed
    qed
  next
    case (AtInsert ex r todo)
    show ?thesis
    proof (cases "si_Upsert I s r")
      case (Inl err)
      with AtInsert sp step s e show ?thesis by (auto simp: call_step_def insert_turn_def spares_def)
    next
      case (Inr s1)
      with put [of r s1] AtInsert sp step e show ?thesis by (auto simp: call_step_def insert_turn_def spares_def announce_def)
    qed
  next
    case (AtAbsent todo)
    show ?thesis
    proof (cases todo)
      case Nil
      with AtAbsent sp step s show ?thesis by (auto simp: call_step_def spares_def)
    next
      case (Cons r rs)
      have sp': "fp \<in> set (sc_seen c)" "f_Module r = mi_ID (sc_mod c)" "\<forall>r \<in> set rs. f_Module r = mi_ID (sc_mod c)"
        using sp AtAbsent Cons by (simp_all add: spares_def)
      have turn: "absent_turn e r rs s n c = (s', n', c')" using step AtAbsent Cons by (simp add: call_step_def)
      show ?thesis
      proof (cases "f_Fingerprint r \<in> set (sc_seen c) \<or> f_Status r = StatusResolved \<or> f_Status r = StatusSuppressed")
        case True
        with turn s sp' show ?thesis by (auto simp: absent_turn_def spares_def)
      next
        case False
        with sp' have "f_Fingerprint r \<noteq> fp" by auto
        with put [of "age_record (sc_mod c) (sc_now c) r"] False turn s sp' e show ?thesis
          by (cases "si_Upsert I s (age_record (sc_mod c) (sc_now c) r)") (auto simp: absent_turn_def spares_def Let_def)
      qed
    qed
  next
    case (Returned err)
    with sp step s show ?thesis by (auto simp: call_step_def)
  qed
qed

lemma spares_steps:
  assumes e: "e_store e = I" and "inv s" "named (mi_ID (sc_mod c))" "spares fp c"
  shows "view (fst ((call_step e ^^ k) (s, n, c))) m fp = view s m fp"
  using assms(2-4)
proof (induction k arbitrary: s n c)
  case (Suc k)
  obtain s' n' c' where step: "call_step e (s, n, c) = (s', n', c')" by (metis prod_cases3)
  from spares_step [OF e Suc.prems step] have "inv s'" "view s' m fp = view s m fp" "sc_mod c' = sc_mod c" "spares fp c'" by auto
  with Suc.IH [of s' c' n'] Suc.prems(2) step show ?case by (simp add: funpow_swap1 del: funpow.simps(2)) (simp add: funpow_Suc_right del: funpow.simps(2))
qed simp

text \<open>A scan that listed \<open>r\<close> writes its next finding over whatever record of the same identity is stored by now.\<close>

lemma stale_write:
  assumes e: "e_store e = I" and s: "inv s" and nm: "named (mi_ID mi)" and r: "view s (mi_ID mi) fp = Some r" "f_Target r = tgt"
    and f: "ValidateForIngest f = None" "f_Fingerprint f = fp" "storable (f_Evidence (capEvidence (e_marshal e) f))"
    and fs: "\<forall>g \<in> set fs. f_Fingerprint g \<noteq> fp"
    and list: "call_step e (s, n, new_call mi tgt (f # fs) now) = (s1, n1, c1)"
    and s2: "inv s2" "view s2 (mi_ID mi) fp = Some r2" "same_identity r2 r"
  shows "view (fst ((call_step e ^^ Suc k) (s2, n2, c1))) (mi_ID mi) fp =
    Some (stored nrm (merge_record now (capEvidence (e_marshal e) f) r))"
proof -
  obtain ex where ex: "si_ListByTarget I s (mi_ID mi) tgt = Inr ex" "distinct (map f_Fingerprint ex)"
      "\<forall>q. q \<in> set ex \<longleftrightarrow> view s (mi_ID mi) (f_Fingerprint q) = Some q \<and> f_Target q = tgt"
    using list_law [OF s] by blast
  have c1: "c1 = (new_call mi tgt (f # fs) now)\<lparr>sc_pc := AtFresh ex (f # fs)\<rparr>"
    using list ex(1) e by (simp add: call_step_def new_call_def list_turn_def)
  have key: "f_Module r = mi_ID mi" "f_Fingerprint r = fp" using keyed [OF s r(1)] by auto
  have mods: "\<forall>q \<in> set ex. f_Module q = mi_ID mi" using ex(3) keyed [OF s] by blast
  have idx: "gm_get (index_by_fingerprint ex) fp = Some r"
    using ex(3) r key by (simp add: index_by_fingerprint_Some_iff [OF ex(2)])
  let ?r = "merge_record now (capEvidence (e_marshal e) f) r"
  have "same_identity ?r r2" using s2(3) by (simp add: same_identity_def)
  then obtain s3 where s3: "si_Upsert I s2 ?r = Inr s3" "inv s3" "view s3 = view_put (view s2) (stored nrm ?r)"
    using update_law [OF s2(1), of ?r r2] s2(2) key f(3) by auto
  obtain c3 where step: "call_step e (s2, n2, c1) = (s3, n2, c3)" and c3: "spares fp c3" "sc_mod c3 = mi"
    using f(1,2) idx s3(1) e fs ex(2) mods
    by (auto simp: c1 call_step_def new_call_def fresh_turn_def Let_def spares_def announce_def)
  have "view (fst ((call_step e ^^ k) (s3, n2, c3))) (mi_ID mi) fp = view s3 (mi_ID mi) fp"
    by (rule spares_steps [OF e s3(2) _ c3(1)]) (simp add: c3(2) nm)
  then show ?thesis using step key by (simp add: funpow_Suc_right s3(3) view_put_apply del: funpow.simps(2))
qed

end

section \<open>Property\<close>

text \<open>
  C28. A change of status is lost to an overlapping scan. Let a scan of the target of a stored finding that is not resolved start with
  that finding in its report, and let the API change the finding's status after the scan has listed the stored findings and before it writes: the
  API answers success and the new status is stored, and from the next step of the scan on, for good, the finding has the status it had
  before the change.
\<close>

theorem status_change_lost:
  assumes "ws_Store srv = sqlite_iface mar unm" "e_store e = sqlite_iface mar unm" "sq_inv mar unm (db_of srv)" "mi_ID mi = mod_of srv"
    and "sq_view unm (db_of srv) (mod_of srv) fp = Some r" "f_Target r = tgt" "f_Status r \<noteq> StatusResolved"
    and "ValidateForIngest f = None" "f_Fingerprint f = fp" "sq_storable mar (f_Evidence (capEvidence (e_marshal e) f))"
    and "\<forall>g \<in> set fs. f_Fingerprint g \<noteq> fp" "nxt \<in> {StatusAcknowledged, StatusSuppressed, StatusOpen}"
  shows "\<exists>c srv'. call_step e (db_of srv, n, new_call mi tgt (f # fs) now) = (db_of srv, n, c) \<and>
     handleFindingStatus (Some (fp, nxt)) srv = (srv', Inr ()) \<and>
     map_option f_Status (sq_view unm (db_of srv') (mod_of srv) fp) = Some nxt \<and>
     (\<forall>k. map_option f_Status (sq_view unm (fst ((call_step e ^^ Suc k) (db_of srv', n, c))) (mod_of srv) fp) = Some (f_Status r))"
proof -
  obtain db where db: "handleFindingStatus (Some (fp, nxt)) srv = (set_db db srv, Inr ())" "sq_inv mar unm db"
      "sq_view unm db (mod_of srv) fp = Some (r\<lparr>f_Status := nxt\<rparr>)"
    using status_change_known [OF assms(1,3,12,5)] by auto
  obtain c where list: "call_step e (db_of srv, n, new_call mi tgt (f # fs) now) = (db_of srv, n, c)"
    using assms(2) by (auto simp: call_step_def new_call_def list_turn_def sq_ListByTarget_def)
  have "sq_view unm (fst ((call_step e ^^ Suc k) (db, n, c))) (mod_of srv) fp =
      Some (stored (sq_nrm mar unm) (merge_record now (capEvidence (e_marshal e) f) r))" for k
    by (rule sq.stale_write [OF assms(2,3) TrueI assms(5) [folded assms(4)] assms(6,8-11) list db(2) db(3) [folded assms(4)], unfolded assms(4)])
      (simp add: same_identity_def)
  with assms(7) db list show ?thesis by auto
qed

theorem status_change_lost_witness:
  "\<exists>c srv'. handleFindingStatus (Some (''fp'', StatusSuppressed)) (set_db sample_db (sample_server\<lparr>ws_Module := sample_module\<rparr>)) = (srv', Inr ()) \<and>
     map_option f_Status (sq_view sample_unm (db_of srv') ''m'' ''fp'') = Some StatusSuppressed \<and>
     map_option f_Status (sq_view sample_unm (fst ((call_step sample_engine ^^ 3) (db_of srv', 0, c))) ''m'' ''fp'') = Some StatusOpen"
proof -
  let ?srv = "set_db sample_db (sample_server\<lparr>ws_Module := sample_module\<rparr>)"
  have "ws_Store ?srv = sqlite_iface sample_mar sample_unm" by (simp add: sample_server_fields)
  from status_change_lost [of ?srv sample_mar sample_unm sample_engine sample_module "''fp''" sample_record "''d.e''" sample_finding "[]"
      StatusSuppressed 0 7, OF this]
  obtain c srv' where "handleFindingStatus (Some (''fp'', StatusSuppressed)) ?srv = (srv', Inr ())"
      "map_option f_Status (sq_view sample_unm (db_of srv') ''m'' ''fp'') = Some StatusSuppressed"
      "\<forall>k. map_option f_Status (sq_view sample_unm (fst ((call_step sample_engine ^^ Suc k) (db_of srv', 0, c))) ''m'' ''fp'') = Some StatusOpen"
    by (auto simp: sample_db_facts sq_storable_def)
  then show ?thesis by (metis numeral_3_eq_3)
qed

end
