(* ===== verification/Routes.thy ===== *)
theory Routes
  imports Cmd Console
begin

text \<open>
  The routes of the dashboard (\<^verbatim>\<open>Handler\<close> of \<^verbatim>\<open>web/server.go\<close>, \<^verbatim>\<open>registerAI\<close> of \<^verbatim>\<open>web/ai.go\<close>, \<^verbatim>\<open>Register\<close> of
  \<^verbatim>\<open>dmarcwatch/console.go\<close>) and the whole way of a request from its method and path to a handler.

  Package \<^verbatim>\<open>net/http\<close> is modelled as far as the patterns of the program reach: a pattern is a method and a path; a path that ends in a slash stands for everything
  below it, any other for itself; \<^verbatim>\<open>GET\<close> also serves \<^verbatim>\<open>HEAD\<close>; the longest pattern wins; registering two patterns that overlap with
  neither more specific panics; a path that is not clean is redirected to its clean form; a path known only for other methods is answered with 405.
  (The only pattern that ends in a slash is the root, so no redirection to a path with a slash is added.) The static files are left to \<^verbatim>\<open>http.FileServer\<close>. A
  request carries what the decoders of the library make of its body, its query and its form.
\<close>

section \<open>Patterns\<close>

datatype endpoint =
    EpSummary | EpFindings | EpExport | EpStatus | EpListTargets | EpAddTarget | EpRemoveTarget | EpScan | EpGetLicense | EpSetLicense
  | EpVerification | EpUpload | EpDomainSummary | EpSources | EpAiStatus | EpExplain | EpStatic

type_synonym route = "(string \<times> string) \<times> endpoint"

definition web_routes :: "route list" where
  "web_routes =
     [((''GET'', ''/api/summary''), EpSummary),
      ((''GET'', ''/api/findings''), EpFindings),
      ((''GET'', ''/api/findings/export''), EpExport),
      ((''POST'', ''/api/findings/status''), EpStatus),
      ((''GET'', ''/api/targets''), EpListTargets),
      ((''POST'', ''/api/targets''), EpAddTarget),
      ((''DELETE'', ''/api/targets''), EpRemoveTarget),
      ((''POST'', ''/api/scan''), EpScan),
      ((''GET'', ''/api/license''), EpGetLicense),
      ((''POST'', ''/api/license''), EpSetLicense),
      ((''GET'', ''/api/verification''), EpVerification)]"

definition console_Register :: "route list" where
  "console_Register =
     [((''POST'', ''/api/dmarcwatch/upload''), EpUpload),
      ((''GET'', ''/api/dmarcwatch/summary''), EpDomainSummary),
      ((''GET'', ''/api/dmarcwatch/sources''), EpSources)]"

definition registerAI :: "route list" where
  "registerAI = [((''GET'', ''/api/ai''), EpAiStatus), ((''POST'', ''/api/findings/explain''), EpExplain)]"

section \<open>The multiplexer\<close>

definition subtree :: "string \<Rightarrow> bool" where
  "subtree pat \<longleftrightarrow> pat \<noteq> [] \<and> last pat = CHR ''/''"

definition path_match :: "string \<Rightarrow> string \<Rightarrow> bool" where
  "path_match pat path \<longleftrightarrow> (if subtree pat then HasPrefix path pat else path = pat)"

definition method_match :: "string \<Rightarrow> string \<Rightarrow> bool" where
  "method_match pat meth \<longleftrightarrow> pat = meth \<or> pat = ''GET'' \<and> meth = ''HEAD''"

text \<open>Two patterns of one method conflict when they stand for the same paths.\<close>

definition mux_handle :: "route list \<Rightarrow> route \<Rightarrow> route list option" where
  "mux_handle mux r = (if fst r \<in> set (map fst mux) then None else Some (mux @ [r]))"

fun mux_all :: "route list \<Rightarrow> route list \<Rightarrow> route list option" where
  "mux_all mux [] = Some mux"
| "mux_all mux (r # rs) = (case mux_handle mux r of None \<Rightarrow> None | Some mux' \<Rightarrow> mux_all mux' rs)"

definition Handler :: "route list option \<Rightarrow> route list option" where
  "Handler ExtraRoutes =
     mux_all [] (web_routes @ (case ExtraRoutes of None \<Rightarrow> [] | Some rs \<Rightarrow> rs) @ registerAI @ [((''GET'', ''/''), EpStatic)])"

text \<open>\<^verbatim>\<open>cleanPath\<close>: no empty, \<^verbatim>\<open>.\<close> or \<^verbatim>\<open>..\<close> element; a slash at the end stays.\<close>

fun path_elements :: "string \<Rightarrow> string list" where
  "path_elements [] = [[]]"
| "path_elements (c # cs) =
     (if c = CHR ''/'' then [] # path_elements cs
      else (case path_elements cs of [] \<Rightarrow> [[c]] | e # es \<Rightarrow> (c # e) # es))"

definition push_element :: "string list \<Rightarrow> string \<Rightarrow> string list" where
  "push_element out e = (if e = [] \<or> e = ''.'' then out else if e = ''..'' then butlast out else out @ [e])"

definition cleanPath :: "string \<Rightarrow> string" where
  "cleanPath p =
     (let p = (if p = [] then ''/'' else if hd p = CHR ''/'' then p else CHR ''/'' # p);
          out = foldl push_element [] (path_elements p);
          np = (if out = [] then ''/'' else concat (map (\<lambda>e. CHR ''/'' # e) out))
      in if last p = CHR ''/'' \<and> np \<noteq> ''/'' then np @ ''/'' else np)"

datatype routed = Handled endpoint | Moved string | NotAllowed "string list" | NoRoute

definition longest :: "route list \<Rightarrow> endpoint" where
  "longest rs = snd (foldl (\<lambda>a r. if length (snd (fst a)) < length (snd (fst r)) then r else a) (hd rs) (tl rs))"

definition allowed_methods :: "string list \<Rightarrow> string list" where
  "allowed_methods ms = sort (remdups (if ''GET'' \<in> set ms then ''HEAD'' # ms else ms))"

definition route_request :: "route list \<Rightarrow> string \<Rightarrow> string \<Rightarrow> routed" where
  "route_request mux meth path =
     (let p = (if meth = ''CONNECT'' then path else cleanPath path);
          here = filter (\<lambda>r. path_match (snd (fst r)) p) mux;
          fit = filter (\<lambda>r. method_match (fst (fst r)) meth) here
      in if p \<noteq> path then Moved p
         else if fit \<noteq> [] then Handled (longest fit)
         else if here \<noteq> [] then NotAllowed (allowed_methods (map (fst \<circ> fst) here))
         else NoRoute)"

section \<open>A request served\<close>

record api_request =
  hq_Method :: string
  hq_Path :: string
  hq_status :: "(string \<times> string) option"
  hq_target :: "string option"
  hq_key :: "string option"
  hq_fingerprint :: "string option"
  hq_query :: "string \<Rightarrow> string"
  hq_form :: "error + upload_file list"

record 'e web_env =
  we_license :: license_env
  we_now :: time
  we_write :: "error option"
  we_isprint :: "string \<Rightarrow> bool"
  we_hfsNew :: "hfs_kind \<Rightarrow> hfs_meta \<Rightarrow> hfs_source \<Rightarrow> time \<Rightarrow> 'e"
  we_hfsMarshal :: "'e \<Rightarrow> error + string"
  we_uni :: "string \<Rightarrow> string"
  we_parser :: parser_env
  we_ai :: ai_env

datatype http_reply =
    RpSummary "summary_response web_response"
  | RpFindings "finding_json list web_response"
  | RpLines "string list web_response"
  | RpOk "unit web_response"
  | RpText "string web_response"
  | RpTargets "(string \<times> string) list web_response"
  | RpLicense "(string \<times> string \<times> (string \<times> time) option) web_response"
  | RpVerification "(bool \<times> challenge_json list) web_response"
  | RpUpload "upload_result response"
  | RpDomains "domain_summary list response"
  | RpSources "(string \<times> source_stat list) response"
  | RpAiStatus "ai_status_response web_response"
  | RpExplain "ai_event list" "explain_response web_response"
  | RpStatic string
  | RpRedirect string
  | RpMethodNotAllowed "string list"
  | RpNotFound

definition set_coll :: "'r \<Rightarrow> ('r, 's) server \<Rightarrow> ('r, 's) server" where
  "set_coll r srv = srv\<lparr>ws_Scheduler := (ws_Scheduler srv)\<lparr>sd_coll := r\<rparr>\<rparr>"

text \<open>The upload with the console's \<^verbatim>\<open>OnIngest\<close>; \<open>None\<close> where the parser has not returned.\<close>

definition serve_upload ::
  "'e web_env \<Rightarrow> nat \<Rightarrow> 'r report_iface \<Rightarrow> error + upload_file list \<Rightarrow> ('r, 's) server \<Rightarrow> (('r, 's) server \<times> http_reply) option" where
  "serve_upload W fuel I form srv =
     (case handleUpload (we_parser W) fuel I (console_Domains srv) form (sd_coll (ws_Scheduler srv)) of
        None \<Rightarrow> None
      | Some (r, resp, ingest) \<Rightarrow>
          (let srv = set_coll r srv in
           Some (case ingest of None \<Rightarrow> srv | Some ds \<Rightarrow> console_OnIngest srv, RpUpload resp)))"

definition serve_endpoint ::
  "'e web_env \<Rightarrow> nat \<Rightarrow> 'r report_iface \<Rightarrow> api_request \<Rightarrow> ('r, 's) server \<Rightarrow> endpoint \<Rightarrow> (('r, 's) server \<times> http_reply) option" where
  "serve_endpoint W fuel I q srv ep =
     (case ep of
        EpSummary \<Rightarrow> Some (srv, RpSummary (web_handleSummary srv))
      | EpFindings \<Rightarrow> Some (srv, RpFindings (handleFindings (\<lambda>_. we_now W) srv))
      | EpExport \<Rightarrow> Some (srv, RpLines (handleFindingsExport (we_hfsNew W) (we_hfsMarshal W) (hq_query q ''format'') (we_now W) srv))
      | EpStatus \<Rightarrow> (case handleFindingStatus (hq_status q) srv of (srv', resp) \<Rightarrow> Some (srv', RpOk resp))
      | EpListTargets \<Rightarrow> Some (srv, RpTargets (handleListTargets srv))
      | EpAddTarget \<Rightarrow> (case handleAddTarget (hq_target q) srv of (srv', resp) \<Rightarrow> Some (srv', RpText resp))
      | EpRemoveTarget \<Rightarrow> (case handleRemoveTarget (hq_query q ''canonical'') srv of (srv', resp) \<Rightarrow> Some (srv', RpOk resp))
      | EpScan \<Rightarrow> (case handleScanNow srv of (srv', resp) \<Rightarrow> Some (srv', RpOk resp))
      | EpGetLicense \<Rightarrow> Some (srv, RpLicense (handleGetLicense srv))
      | EpSetLicense \<Rightarrow>
          (case handleSetLicense (we_license W) (we_now W) (we_write W) (hq_key q) srv of (srv', resp) \<Rightarrow> Some (srv', RpText resp))
      | EpVerification \<Rightarrow> Some (srv, RpVerification (handleVerification (we_isprint W) srv))
      | EpUpload \<Rightarrow> serve_upload W fuel I (hq_form q) srv
      | EpDomainSummary \<Rightarrow> Some (srv, RpDomains (handleSummary I (console_Domains srv) (we_now W) (sd_coll (ws_Scheduler srv))))
      | EpSources \<Rightarrow> Some (srv, RpSources (handleSources (we_uni W) I (hq_query q ''domain'') (we_now W) (sd_coll (ws_Scheduler srv))))
      | EpAiStatus \<Rightarrow> Some (srv, RpAiStatus (handleAIStatus srv))
      | EpExplain \<Rightarrow> (case handleExplainFinding (we_ai W) (hq_fingerprint q) srv of (es, resp) \<Rightarrow> Some (srv, RpExplain es resp))
      | EpStatic \<Rightarrow> Some (srv, RpStatic (hq_Path q)))"

definition serve_http ::
  "route list \<Rightarrow> 'e web_env \<Rightarrow> nat \<Rightarrow> 'r report_iface \<Rightarrow> api_request \<Rightarrow> ('r, 's) server \<Rightarrow> (('r, 's) server \<times> http_reply) option" where
  "serve_http mux W fuel I q srv =
     (case route_request mux (hq_Method q) (hq_Path q) of
        Handled ep \<Rightarrow> serve_endpoint W fuel I q srv ep
      | Moved p \<Rightarrow> Some (srv, RpRedirect p)
      | NotAllowed ms \<Rightarrow> Some (srv, RpMethodNotAllowed ms)
      | NoRoute \<Rightarrow> Some (srv, RpNotFound))"

section \<open>Lemmas\<close>

definition all_routes :: "route list" where
  "all_routes = web_routes @ console_Register @ registerAI @ [((''GET'', ''/''), EpStatic)]"

lemma Handler_registers: "Handler (Some console_Register) = Some all_routes"
  by code_simp

lemma own_route: "\<forall>r \<in> set all_routes. route_request all_routes (fst (fst r)) (snd (fst r)) = Handled (snd r)"
  by code_simp

lemma longest_mem: "rs \<noteq> [] \<Longrightarrow> \<exists>r \<in> set rs. snd r = longest rs"
proof -
  have "foldl (\<lambda>a r. if length (snd (fst a)) < length (snd (fst r)) then r else a) a rs \<in> set (a # rs)" for a :: route and rs
    by (induction rs arbitrary: a) fastforce+
  then show "rs \<noteq> [] \<Longrightarrow> \<exists>r \<in> set rs. snd r = longest rs"
    unfolding longest_def by (cases rs) (fastforce simp del: foldl_Cons)+
qed

lemma handled_pattern:
  assumes "route_request mux meth path = Handled ep"
  shows "\<exists>pm pp. ((pm, pp), ep) \<in> set mux \<and> method_match pm meth \<and> path_match pp path"
proof -
  let ?p = "if meth = ''CONNECT'' then path else cleanPath path"
  let ?fit = "filter (\<lambda>r. method_match (fst (fst r)) meth) (filter (\<lambda>r. path_match (snd (fst r)) ?p) mux)"
  from assms have p: "?p = path" and fit: "?fit \<noteq> []" and ep: "ep = longest ?fit"
    by (simp_all add: route_request_def Let_def split: if_splits)
  obtain r where r: "r \<in> set ?fit" "snd r = ep" using longest_mem [OF fit] ep by blast
  obtain pm pp e where "r = ((pm, pp), e)" by (cases r) auto
  with r p show ?thesis by auto
qed

text \<open>The endpoints that may change the server, by their patterns.\<close>

definition changing :: "(string \<times> string) list" where
  "changing = [(''POST'', ''/api/findings/status''), (''POST'', ''/api/targets''), (''DELETE'', ''/api/targets''), (''POST'', ''/api/scan''),
     (''POST'', ''/api/license''), (''POST'', ''/api/dmarcwatch/upload'')]"

definition reads_only :: "endpoint \<Rightarrow> bool" where
  "reads_only ep \<longleftrightarrow> ep \<notin> {EpStatus, EpAddTarget, EpRemoveTarget, EpScan, EpSetLicense, EpUpload}"

lemma serve_reads_only:
  assumes "reads_only ep"
  shows "\<exists>reply. serve_endpoint W fuel I q srv ep = Some (srv, reply)"
  using assms by (cases ep) (auto simp: reads_only_def serve_endpoint_def split: prod.split)

lemma changing_endpoint: "((pm, pp), ep) \<in> set all_routes \<Longrightarrow> \<not> reads_only ep \<Longrightarrow> (pm, pp) \<in> set changing \<and> pm \<noteq> ''GET'' \<and> \<not> subtree pp"
  by (simp add: all_routes_def web_routes_def console_Register_def registerAI_def)
    (elim disjE; simp add: reads_only_def changing_def subtree_def)

section \<open>Property\<close>

text \<open>
  C23. What a request can change. The routes of the server, of the product's console and of the assistant are registered without a conflict. Every request
  whose method and path are exactly a registered pattern reaches the handler of that pattern. Every request other than the six that are meant to change something -- a status, a target
  added or removed, a scan, a key, an upload -- is answered and leaves the server, its stores and its schedule as they are: in particular every
  \<^verbatim>\<open>GET\<close> and \<^verbatim>\<open>HEAD\<close>, every unknown path, and every path that is only equivalent to one of the six after cleaning.
\<close>

theorem requests_change_only_by_design:
  "\<exists>mux. Handler (Some console_Register) = Some mux \<and>
     (\<forall>ep. ((hq_Method q, hq_Path q), ep) \<in> set mux \<longrightarrow> serve_http mux W fuel I q srv = serve_endpoint W fuel I q srv ep) \<and>
     ((hq_Method q, hq_Path q) \<notin> set changing \<longrightarrow> (\<exists>reply. serve_http mux W fuel I q srv = Some (srv, reply)))"
proof (intro exI [of _ all_routes] conjI impI allI Handler_registers)
  fix ep assume "((hq_Method q, hq_Path q), ep) \<in> set all_routes"
  with own_route have "route_request all_routes (hq_Method q) (hq_Path q) = Handled ep" by fastforce
  then show "serve_http all_routes W fuel I q srv = serve_endpoint W fuel I q srv ep" by (simp add: serve_http_def)
next
  assume other: "(hq_Method q, hq_Path q) \<notin> set changing"
  show "\<exists>reply. serve_http all_routes W fuel I q srv = Some (srv, reply)"
  proof (cases "route_request all_routes (hq_Method q) (hq_Path q)")
    case (Handled ep)
    then obtain pm pp where r: "((pm, pp), ep) \<in> set all_routes" "method_match pm (hq_Method q)" "path_match pp (hq_Path q)"
      using handled_pattern by blast
    have "reads_only ep"
    proof (rule ccontr)
      assume "\<not> reads_only ep"
      with changing_endpoint [OF r(1)] r(2,3) other show False by (auto simp: method_match_def path_match_def)
    qed
    with Handled serve_reads_only show ?thesis by (simp add: serve_http_def)
  qed (simp_all add: serve_http_def)
qed

definition sample_get :: api_request where
  "sample_get = \<lparr>hq_Method = ''GET'', hq_Path = ''/api/targets'', hq_status = None, hq_target = Some ''d.e'', hq_key = None,
     hq_fingerprint = None, hq_query = \<lambda>_. [], hq_form = Inl []\<rparr>"

theorem requests_change_only_by_design_witness:
  "\<exists>mux. Handler (Some console_Register) = Some mux \<and>
     (\<forall>(W :: unit web_env) fuel (I :: rmem report_iface). serve_http mux W fuel I sample_get sample_server = Some (sample_server, RpTargets (Inr [])))"
proof -
  have "serve_http all_routes W fuel I sample_get sample_server = Some (sample_server, RpTargets (Inr []))"
    for W :: "unit web_env" and fuel and I :: "rmem report_iface"
  proof -
    obtain mux where mux: "Handler (Some console_Register) = Some mux"
        "\<forall>ep. ((hq_Method sample_get, hq_Path sample_get), ep) \<in> set mux \<longrightarrow>
          serve_http mux W fuel I sample_get sample_server = serve_endpoint W fuel I sample_get sample_server ep"
      using requests_change_only_by_design [of sample_get W fuel I sample_server] by blast
    have "mux = all_routes" using mux(1) Handler_registers by simp
    moreover have "((hq_Method sample_get, hq_Path sample_get), EpListTargets) \<in> set all_routes"
      by (simp add: sample_get_def all_routes_def web_routes_def)
    ultimately have "serve_http all_routes W fuel I sample_get sample_server = serve_endpoint W fuel I sample_get sample_server EpListTargets"
      using mux(2) by blast
    also have "\<dots> = Some (sample_server, RpTargets (Inr []))"
      using sample_register [of sample_engine sched_sample_config NewSQLiteStore 0 rm_NewMemStore]
      by (auto simp: serve_endpoint_def handleListTargets_def sample_server_def NewServer_def ListTargets_def snapshotTargets_def Describe_def)
    finally show ?thesis .
  qed
  with Handler_registers show ?thesis by blast
qed

end
