(* ===== verification/Process.thy ===== *)
theory Process
  imports Routes
begin

text \<open>
  The program as a process (\<^verbatim>\<open>main\<close> of \<^verbatim>\<open>cmd/dmarcwatch/main.go\<close>): flags and databases, the start, and then the interleaving of HTTP requests, steps of the
  scheduler whose results go to the dispatcher, the window timer of the dispatcher, the signal, the goroutine that shuts the server
  down, and the end of \<^verbatim>\<open>main\<close>.

  What package \<^verbatim>\<open>flag\<close> makes of the command line is the function \<open>parse\<close> from the defaults to the values; opening a database and creating its tables are
  in the environment.
\<close>

section \<open>Flags and databases\<close>

record main_flags = flags +
  mf_listen :: string
  mf_db :: string

definition default_flags :: "(string \<Rightarrow> string) \<Rightarrow> main_flags" where
  "default_flags getenv =
     \<lparr>fg_license = ''dmarcwatch-license.key'', fg_channels = registerChannelFlags,
      fg_ai = \<lparr>ag_URL = getenv ''DMARCWATCH_AI_ASSIST_URL'', ag_KeyFile = getenv ''DMARCWATCH_AI_ASSIST_KEY_FILE'',
               ag_Language = getenv ''DMARCWATCH_AI_ASSIST_LANG'', ag_NoThinking = (getenv ''DMARCWATCH_AI_ASSIST_NO_THINKING'' = ''1'')\<rparr>,
      mf_listen = ''127.0.0.1:8429'', mf_db = ''dmarcwatch.db''\<rparr>"

text \<open>Opening the file, and the tables as the two schema statements leave them.\<close>

record db_env =
  de_open :: "string \<Rightarrow> error option"
  de_findings :: "string \<Rightarrow> error + sqlite_db"
  de_reports :: "string \<Rightarrow> error + rsql"

definition fatal :: "string \<Rightarrow> (int \<times> string) + 'a" where
  "fatal msg = Inl (1, ''dmarcwatch: '' @ msg)"

definition main_start ::
  "string \<Rightarrow> ('t, 'm) boot_env \<Rightarrow> db_env \<Rightarrow> (string \<Rightarrow> string) \<Rightarrow> (main_flags \<Rightarrow> main_flags) \<Rightarrow> (int \<times> string) + ('t, 'm) running" where
  "main_start issuerPublicKeyB64 B D getenv parse =
     (let fs = parse (default_flags getenv) in
      case de_open D (mf_db fs) of
        Some err \<Rightarrow> fatal (''open database: '' @ err)
      | None \<Rightarrow>
          (case de_findings D (mf_db fs) of
             Inl err \<Rightarrow> fatal (''sqlite migrate: '' @ err)
           | Inr db \<Rightarrow>
               (case de_reports D (mf_db fs) of
                  Inl err \<Rightarrow> fatal err
                | Inr rep \<Rightarrow> boot issuerPublicKeyB64 B (flags.truncate fs) db rep)))"

section \<open>The process\<close>

text \<open>
  Where the goroutine of \<^verbatim>\<open>main\<close> is: in \<^verbatim>\<open>ListenAndServe\<close>, running its deferred calls, or gone with an exit code, and with it every other
  goroutine. Where the goroutine is that waits for the signal: before it, in \<^verbatim>\<open>Shutdown\<close>, in \<^verbatim>\<open>scheduler.Stop\<close>, at its end.
\<close>

datatype main_pc = Serving | Deferred | Exited int

datatype guard_pc = Waiting | ShuttingDown | Stopping | Stopped

record ('t, 'm) process =
  pr_running :: "('t, 'm) running"
  pr_signal :: bool
  pr_main :: main_pc
  pr_guard :: guard_pc

definition new_process :: "('t, 'm) running \<Rightarrow> ('t, 'm) process" where
  "new_process rn = \<lparr>pr_running = rn, pr_signal = False, pr_main = Serving, pr_guard = Waiting\<rparr>"

abbreviation server_of :: "('t, 'm) process \<Rightarrow> (rsql, sqlite_db) server" where
  "server_of p \<equiv> rn_server (pr_running p)"

abbreviation sched_of :: "('t, 'm) process \<Rightarrow> (rsql, sqlite_db) scheduler" where
  "sched_of p \<equiv> ws_Scheduler (server_of p)"

definition alive :: "('t, 'm) process \<Rightarrow> bool" where
  "alive p \<longleftrightarrow> (case pr_main p of Exited code \<Rightarrow> False | _ \<Rightarrow> True)"

definition set_server :: "(rsql, sqlite_db) server \<Rightarrow> ('t, 'm) process \<Rightarrow> ('t, 'm) process" where
  "set_server srv p = p\<lparr>pr_running := (pr_running p)\<lparr>rn_server := srv\<rparr>\<rparr>"

definition set_dispatcher :: "dispatcher option \<Rightarrow> ('t, 'm) process \<Rightarrow> ('t, 'm) process" where
  "set_dispatcher d p = p\<lparr>pr_running := (pr_running p)\<lparr>rn_dispatcher := d\<rparr>\<rparr>"

text \<open>The scheduler has taken a step; the results of the scans it completed go to the dispatcher through the bound callback.\<close>

definition deliver :: "time \<Rightarrow> scan_result list \<Rightarrow> dispatcher option \<Rightarrow> dispatcher option" where
  "deliver now rs = map_option (\<lambda>d. foldl (\<lambda>d r. bound_OnResult now (sr_Module r) (sr_Reconcile r) d) d rs)"

definition scheduled :: "time \<Rightarrow> (rsql, sqlite_db) scheduler \<Rightarrow> ('t, 'm) process \<Rightarrow> ('t, 'm) process" where
  "scheduled now sd p =
     set_dispatcher (deliver now (drop (length (sd_results (sched_of p))) (sd_results sd)) (rn_dispatcher (pr_running p)))
       (set_server ((server_of p)\<lparr>ws_Scheduler := sd\<rparr>) p)"

text \<open>
  One step of the process: \<open>mux\<close> is the handler, \<open>Ws\<close> holds for the environments in which requests are served, \<open>Q\<close> for the requests that arrive. The context of the
  scheduler is derived from the one the signal cancels. \<^verbatim>\<open>ListenAndServe\<close> returns as soon as \<^verbatim>\<open>Shutdown\<close> is called; then \<^verbatim>\<open>main\<close> runs its
  deferred calls and ends, whatever the other goroutine has left to do.
\<close>

inductive proc_step :: "route list \<Rightarrow> ('e web_env \<Rightarrow> bool) \<Rightarrow> (api_request \<Rightarrow> bool) \<Rightarrow> ('t, 'm) process \<Rightarrow> ('t, 'm) process \<Rightarrow> bool"
  for mux Ws Q where
  request: "alive p \<Longrightarrow> Ws W \<Longrightarrow> Q q \<Longrightarrow> serve_http mux W fuel (rsql_iface recv) q (server_of p) = Some (srv, reply) \<Longrightarrow>
    proc_step mux Ws Q p (set_server srv p)"
| scheduler: "alive p \<Longrightarrow> sched_step (sched_of p) sd \<Longrightarrow> sd_modules sd = sd_modules (sched_of p) \<Longrightarrow>
    proc_step mux Ws Q p (scheduled now sd p)"
| timer: "alive p \<Longrightarrow> proc_step mux Ws Q p (set_dispatcher (map_option (Flush now) (rn_dispatcher (pr_running p))) p)"
| signal: "alive p \<Longrightarrow> proc_step mux Ws Q p ((scheduled now (Stop_cancel (sched_of p)) p)\<lparr>pr_signal := True\<rparr>)"
| shutdown: "alive p \<Longrightarrow> pr_signal p \<Longrightarrow> pr_guard p = Waiting \<Longrightarrow> proc_step mux Ws Q p (p\<lparr>pr_guard := ShuttingDown\<rparr>)"
| stop: "alive p \<Longrightarrow> pr_guard p = ShuttingDown \<Longrightarrow>
    proc_step mux Ws Q p ((scheduled now (Stop_cancel (sched_of p)) p)\<lparr>pr_guard := Stopping\<rparr>)"
| stopped: "alive p \<Longrightarrow> pr_guard p = Stopping \<Longrightarrow> sd_tasks (sched_of p) = [] \<Longrightarrow> proc_step mux Ws Q p (p\<lparr>pr_guard := Stopped\<rparr>)"
| closed: "pr_main p = Serving \<Longrightarrow> pr_guard p \<noteq> Waiting \<Longrightarrow> proc_step mux Ws Q p (p\<lparr>pr_main := Deferred\<rparr>)"
| listen_error: "pr_main p = Serving \<Longrightarrow> proc_step mux Ws Q p (p\<lparr>pr_main := Exited 1\<rparr>)"
| main_end: "pr_main p = Deferred \<Longrightarrow>
    proc_step mux Ws Q p ((set_dispatcher (map_option (Close now) (rn_dispatcher (pr_running p))) p)\<lparr>pr_main := Exited 0\<rparr>)"

lemma alive_main: "alive p \<Longrightarrow> pr_main p \<noteq> Exited c"
  by (auto simp: alive_def)

section \<open>A request is a step of the server\<close>

lemma process_fields [simp]:
  "server_of (set_server srv p) = srv" "server_of (set_dispatcher d p) = server_of p" "pr_main (set_server srv p) = pr_main p"
  "pr_main (set_dispatcher d p) = pr_main p" "pr_signal (set_server srv p) = pr_signal p" "pr_signal (set_dispatcher d p) = pr_signal p"
  "pr_guard (set_server srv p) = pr_guard p" "pr_guard (set_dispatcher d p) = pr_guard p"
  "rn_dispatcher (pr_running (set_server srv p)) = rn_dispatcher (pr_running p)" "rn_dispatcher (pr_running (set_dispatcher d p)) = d"
  by (simp_all add: set_server_def set_dispatcher_def)

lemma scheduled_fields [simp]:
  "server_of (scheduled now sd p) = (server_of p)\<lparr>ws_Scheduler := sd\<rparr>" "pr_main (scheduled now sd p) = pr_main p"
  "pr_signal (scheduled now sd p) = pr_signal p" "pr_guard (scheduled now sd p) = pr_guard p"
  by (simp_all add: scheduled_def)

text \<open>The changing requests of the API, with the keys among those that arrive.\<close>

definition arrives :: "(api_request \<Rightarrow> bool) \<Rightarrow> web_request \<Rightarrow> bool" where
  "arrives Q req \<longleftrightarrow> (\<forall>now wr k. req = RLicense now wr (Some k) \<longrightarrow> (\<exists>q. Q q \<and> hq_key q = Some k))"

lemma ScanNow_modules: "ScanNow m sd = (sd', res) \<Longrightarrow> sd_modules sd' = sd_modules sd"
proof -
  have "sd_modules (foldl (spawn b k) s ts) = sd_modules s" for b k ts and s :: "('r, 's) scheduler"
    by (induction ts arbitrary: s) simp_all
  then show "ScanNow m sd = (sd', res) \<Longrightarrow> sd_modules sd' = sd_modules sd" by (auto simp: ScanNow_def split: option.splits)
qed

lemma serving_upload:
  assumes "serving env P srv0 srv" and "serve_upload W fuel I form srv = Some (srv', reply)"
  shows "serving env P srv0 srv'"
proof -
  obtain r resp ing where up: "handleUpload (we_parser W) fuel I (console_Domains srv) form (sd_coll (ws_Scheduler srv)) = Some (r, resp, ing)"
    using assms(2) by (auto simp: serve_upload_def split: option.splits)
  have coll: "serving env P srv0 (set_coll r srv)" unfolding set_coll_def by (rule serving.ingest [OF assms(1)])
  show ?thesis
  proof (cases ing)
    case None
    with assms(2) up coll show ?thesis by (simp add: serve_upload_def)
  next
    case (Some ds)
    let ?srv = "set_coll r srv"
    obtain sd res where now: "ScanNow (mod_of ?srv) (ws_Scheduler ?srv) = (sd, res)" by fastforce
    have "serving env P srv0 (?srv\<lparr>ws_Scheduler := sd\<rparr>)"
      by (rule serving.background [OF coll sched_step.scan_now [OF now] ScanNow_modules [OF now]])
    with assms(2) up Some now show ?thesis by (simp add: serve_upload_def console_OnIngest_def)
  qed
qed

lemma serving_endpoint:
  assumes srv: "serving (we_license W) (arrives Q) srv0 srv" and q: "Q q"
    and ep: "serve_endpoint W fuel I q srv ep = Some (srv', reply)"
  shows "serving (we_license W) (arrives Q) srv0 srv'"
proof -
  have req: "serving (we_license W) (arrives Q) srv0 (serve (we_license W) srv r)" if "arrives Q r" for r
    using srv that by (rule serving.request)
  have other: "arrives Q r" if "\<And>now wr k. r \<noteq> RLicense now wr (Some k)" for r using that by (simp add: arrives_def)
  have key: "arrives Q (RLicense now wr (hq_key q))" for now wr using q by (auto simp: arrives_def)
  show ?thesis
  proof (cases "reads_only ep")
    case True
    with serve_reads_only [OF True, of W fuel I q srv] ep srv show ?thesis by auto
  next
    case False
    then show ?thesis using ep req [OF other, of "RStatus (hq_status q)"] req [OF other, of "RAdd (hq_target q)"]
        req [OF other, of "RRemove (hq_query q ''canonical'')"] req [OF other, of RScan] req [OF key, of "we_now W" "we_write W"]
        serving_upload [OF srv, of W fuel I "hq_form q" srv' reply]
      by (cases ep) (auto simp: reads_only_def serve_endpoint_def split: prod.splits)
  qed
qed

lemma serving_http:
  assumes "serving (we_license W) (arrives Q) srv0 srv" and "Q q" and "serve_http mux W fuel I q srv = Some (srv', reply)"
  shows "serving (we_license W) (arrives Q) srv0 srv'"
  using assms serving_endpoint [OF assms(1,2)]
  by (cases "route_request mux (hq_Method q) (hq_Path q)") (auto simp: serve_http_def)

lemma Stop_cancel_modules [simp]: "sd_modules (Stop_cancel sd) = sd_modules sd"
  by (simp add: Stop_cancel_def)

lemma process_serving:
  assumes "(proc_step mux Ws Q)\<^sup>*\<^sup>* (new_process rn) p" and W: "\<And>W. Ws W \<Longrightarrow> we_license W = env"
  shows "serving env (arrives Q) (rn_server rn) (server_of p)"
  using assms(1)
proof (induction rule: rtranclp_induct)
  case base
  show ?case by (simp add: new_process_def serving.start)
next
  case (step p p')
  have bg: "serving env (arrives Q) (rn_server rn) ((server_of p)\<lparr>ws_Scheduler := sd\<rparr>)"
    if "sched_step (sched_of p) sd" "sd_modules sd = sd_modules (sched_of p)" for sd
    by (rule serving.background [OF step.IH that])
  show ?case using step.hyps(2)
  proof cases
    case (request W q fuel recv srv reply)
    then show ?thesis using serving_http [of W Q "rn_server rn" "server_of p"] step.IH W by fastforce
  next
    case (scheduler sd now)
    with bg show ?thesis by simp
  next
    case (signal now)
    with bg [OF sched_step.stop] show ?thesis by simp
  next
    case (stop now)
    with bg [OF sched_step.stop] show ?thesis by simp
  qed (use step.IH in simp_all)
qed

section \<open>The end of the process\<close>

text \<open>The process ends with code 0 only after a signal, and then its dispatcher is closed.\<close>

lemma exit_after_signal:
  assumes "(proc_step mux Ws Q)\<^sup>*\<^sup>* (new_process rn) p"
  shows "(pr_guard p \<noteq> Waiting \<longrightarrow> pr_signal p) \<and> (pr_main p = Deferred \<or> pr_main p = Exited 0 \<longrightarrow> pr_signal p) \<and>
     (pr_main p = Exited 0 \<longrightarrow> (\<forall>d. rn_dispatcher (pr_running p) = Some d \<longrightarrow> dp_closed d))"
  using assms
proof (induction rule: rtranclp_induct)
  case base
  show ?case by (simp add: new_process_def)
next
  case (step p p')
  from step.hyps(2) show ?case
    by cases (use step.IH in \<open>auto simp: Close_def dest: alive_main\<close>)
qed

text \<open>
  \<^verbatim>\<open>main\<close> does not wait for \<^verbatim>\<open>scheduler.Stop\<close>: from every state in which the process serves it can end with code 0 while every scan that is in flight
  still is, the goroutine that shuts down being in \<^verbatim>\<open>Shutdown\<close>.
\<close>

lemma exit_without_waiting:
  assumes "pr_main p = Serving" "pr_guard p = Waiting"
  shows "\<exists>p'. (proc_step mux Ws Q)\<^sup>*\<^sup>* p p' \<and> pr_main p' = Exited 0 \<and> pr_guard p' = ShuttingDown \<and> sd_tasks (sched_of p') = sd_tasks (sched_of p)"
proof -
  define p1 where "p1 = (scheduled 0 (Stop_cancel (sched_of p)) p)\<lparr>pr_signal := True\<rparr>"
  define p2 where "p2 = p1\<lparr>pr_guard := ShuttingDown\<rparr>"
  define p3 where "p3 = p2\<lparr>pr_main := Deferred\<rparr>"
  define p4 where "p4 = (set_dispatcher (map_option (Close 0) (rn_dispatcher (pr_running p3))) p3)\<lparr>pr_main := Exited 0\<rparr>"
  have 1: "proc_step mux Ws Q p p1" unfolding p1_def using assms by (intro proc_step.signal) (simp add: alive_def)
  have 2: "proc_step mux Ws Q p1 p2" unfolding p2_def using assms by (intro proc_step.shutdown) (simp_all add: p1_def alive_def)
  have 3: "proc_step mux Ws Q p2 p3" unfolding p3_def using assms by (intro proc_step.closed) (simp_all add: p2_def p1_def)
  have 4: "proc_step mux Ws Q p3 p4" unfolding p4_def by (intro proc_step.main_end) (simp add: p3_def)
  have "(proc_step mux Ws Q)\<^sup>*\<^sup>* p p4"
    using 1 2 3 4 by (meson converse_rtranclp_into_rtranclp rtranclp.rtrancl_refl)
  moreover have "sd_tasks (sched_of p4) = sd_tasks (sched_of p)" by (simp add: p4_def p3_def p2_def p1_def Stop_cancel_def)
  ultimately show ?thesis by (intro exI [of _ p4]) (simp add: p4_def p3_def p2_def)
qed

section \<open>Properties\<close>

lemma main_start_boots:
  assumes "main_start issuer B D getenv parse = Inr rn"
  obtains fs db rep where "de_findings D (mf_db (parse (default_flags getenv))) = Inr db" "boot issuer B fs db rep = Inr rn"
  using assms by (auto simp: main_start_def fatal_def Let_def split: option.splits sum.splits)

lemma route_scan: "route_request all_routes ''POST'' ''/api/scan'' = Handled EpScan"
  and route_add: "route_request all_routes ''POST'' ''/api/targets'' = Handled EpAddTarget"
  using own_route by (force simp: all_routes_def web_routes_def)+


definition sample_web_env :: "unit web_env" where
  "sample_web_env = \<lparr>we_license = sample_env, we_now = 1, we_write = None, we_isprint = (\<lambda>_. True), we_hfsNew = (\<lambda>_ _ _ _. ()),
     we_hfsMarshal = (\<lambda>_. Inl ''none''), we_uni = id, we_parser = sample_parser [], we_ai = sample_ai\<rparr>"

definition sample_disk :: "sqlite_db \<Rightarrow> db_env" where
  "sample_disk db = \<lparr>de_open = (\<lambda>_. None), de_findings = (\<lambda>_. Inr db), de_reports = (\<lambda>_. Inr rs_NewSQLiteStore)\<rparr>"

definition sample_parse :: "main_flags \<Rightarrow> main_flags" where
  "sample_parse fs = flags.extend sample_flags \<lparr>mf_listen = mf_listen fs, mf_db = mf_db fs\<rparr>"

abbreviation sample_start :: "sqlite_db \<Rightarrow> (int \<times> string) + (unit, unit) running" where
  "sample_start db \<equiv> main_start [] sample_boot (sample_disk db) (\<lambda>_. []) sample_parse"

definition sample_post :: "string \<Rightarrow> api_request" where
  "sample_post path = sample_get\<lparr>hq_Method := ''POST'', hq_Path := path\<rparr>"

abbreviation sample_step :: "(unit, unit) process \<Rightarrow> (unit, unit) process \<Rightarrow> bool" where
  "sample_step \<equiv> proc_step all_routes (\<lambda>W. W = sample_web_env) (\<lambda>_. True)"

lemma sample_starts: "\<exists>rn. sample_start db = Inr rn"
proof -
  have "flags.truncate (sample_parse fs) = sample_flags" for fs by (simp add: sample_parse_def flags.defs)
  then show ?thesis using sample_boots [of db rs_NewSQLiteStore] by (simp add: main_start_def sample_disk_def Let_def)
qed

lemma sample_adds: "\<exists>srv reply. serve_http all_routes sample_web_env 0 (rsql_iface 0) (sample_post ''/api/targets'') srv0 = Some (srv, reply) \<and>
    sample_step\<^sup>*\<^sup>* (new_process (rn\<lparr>rn_server := srv0\<rparr>)) (set_server srv (new_process (rn\<lparr>rn_server := srv0\<rparr>)))"
proof -
  have "\<exists>srv reply. serve_http all_routes sample_web_env 0 (rsql_iface 0) (sample_post ''/api/targets'') srv0 = Some (srv, reply)"
    by (simp add: serve_http_def sample_post_def route_add serve_endpoint_def split: prod.split)
  then obtain srv reply where srv: "serve_http all_routes sample_web_env 0 (rsql_iface 0) (sample_post ''/api/targets'') srv0 = Some (srv, reply)" by blast
  then have "sample_step (new_process (rn\<lparr>rn_server := srv0\<rparr>)) (set_server srv (new_process (rn\<lparr>rn_server := srv0\<rparr>)))"
    by (intro proc_step.request [of _ _ sample_web_env _ "sample_post ''/api/targets''" _ 0 0 _ reply]) (simp_all add: alive_def new_process_def)
  with srv show ?thesis by blast
qed




end
