(* ===== verification/Spec2Isabelle.thy ===== *)
theory Spec2Isabelle
  imports Prelude Float64 Core_Finding Store_Engine Target_Store Mem_Store Sqlite_Store Dmarc_Report Report_Store Report_Mem
    Report_Sqlite Report_Agreement Dmarc_Collector License Notify Scheduler Pipeline Console Ulid Go_Text Verify_Domain Channels Web_Server
    Web_Safety Regexp Ai_Evidence Ai_Guard Ai_Client Web_Ai Cmd Overlap Overlap_Pool Lost_Update Engine_Ids Routes Process
begin

text \<open>
  DmarcWatch is a self-hosted monitor of DMARC aggregate reports, written in Go. This development models its packages and proves what they promise.

  \<^bold>\<open>The program.\<close> An operator adds mail domains and uploads the aggregate reports that receivers send. Package \<^verbatim>\<open>dmarcrep\<close> parses
  the files, a report store of package \<^verbatim>\<open>dmarcwatch\<close> keeps them and computes an overview per domain, and the collector of the same package
  turns an overview into findings. The scheduler (\<^verbatim>\<open>sched\<close>) runs the collector for every target, the engine (\<^verbatim>\<open>store\<close>) reconciles what it
  reports with the stored findings, and the notifier (\<^verbatim>\<open>notify\<close>) batches what opened or was resolved and hands it to channels. The
  dashboard (\<^verbatim>\<open>web\<close>) serves the findings, changes targets and states, and takes license keys (\<^verbatim>\<open>license\<close>), which set limits. An optional
  assistant (\<^verbatim>\<open>internal/aiclient\<close>) narrates a finding with a language model. \<^verbatim>\<open>cmd/dmarcwatch\<close> puts the parts together.

  \<^bold>\<open>The theories.\<close> Each package has its own theory, in the order in which the program builds on them. A struct of the source is a
  record whose fields carry a short prefix (\<open>f_Status\<close> is the field \<^verbatim>\<open>Status\<close> of \<^verbatim>\<open>core.Finding\<close>), a function or method is a
  definition with its name, prefixed where two packages use one name (\<open>mem_Upsert\<close>, \<open>sq_Upsert\<close>), and a step of a long function or a loop
  body has a definition of its own.

  \<^item> \<open>Prelude\<close>, \<open>Go_Text\<close>, \<open>Float64\<close>, \<open>Regexp\<close>: what the source uses of the language and its library. 64-bit integers wrap by \<open>wrap64\<close>; instants
    are integers of nanoseconds; a string is a list of bytes and its runes are found by the UTF-8 tables; a Go map is an association list, whose
    order is that of one iteration, and the lemmas show that results do not depend on it. \<open>Float64\<close> rounds rationals to binary64, and \<open>Regexp\<close> gives
    the expressions of the AI guards an executable matcher that is shown equal to a relational meaning.
  \<^item> \<open>Core_Finding\<close> (\<^verbatim>\<open>core\<close>): findings, severities, validation, fingerprints, collectors.
  \<^item> \<open>Store_Engine\<close> (\<^verbatim>\<open>store/store.go\<close>, \<^verbatim>\<open>store/reconcile.go\<close>): \<^verbatim>\<open>Reconcile\<close> over any store. The locale \<open>finding_store\<close> is the
    contract of a store; the effect of one scan, its frame, the lifecycle and resolution by absence are proved in it once. \<open>Target_Store\<close> is the contract of
    the saved targets. \<open>Mem_Store\<close> and \<open>Sqlite_Store\<close> (\<^verbatim>\<open>store/memory.go\<close>, \<^verbatim>\<open>store/sqlite.go\<close>) interpret both locales on the map and on
    the tables. \<open>Ulid\<close> (\<^verbatim>\<open>store/ulid.go\<close>) is on machine words; \<open>Engine_Ids\<close> has \<^verbatim>\<open>NewEngine\<close> and reduces the freshness of identifiers, which the
    scans ask for, to that of the random bytes.
  \<^item> \<open>Overlap\<close>, \<open>Overlap_Pool\<close>, \<open>Lost_Update\<close>: \<^verbatim>\<open>Reconcile\<close> again, one store operation at a time, with an invariant of the rely/guarantee kind that follows
    any number of calls through any schedule. A call on its own is shown to do what \<open>Reconcile\<close> says.
  \<^item> \<open>Dmarc_Report\<close> (\<^verbatim>\<open>dmarcrep\<close>): the parser of XML, gzip and zip files.
  \<^item> \<open>Report_Store\<close>, \<open>Report_Mem\<close>, \<open>Report_Sqlite\<close>, \<open>Report_Agreement\<close> (\<^verbatim>\<open>dmarcwatch/memstore.go\<close>, \<^verbatim>\<open>dmarcwatch/sqlite.go\<close>): a specification of
    the overview over a list of reports, the locale \<open>report_store\<close>, the two implementations refined to it, and their agreement.
  \<^item> \<open>Dmarc_Collector\<close> (\<^verbatim>\<open>dmarcwatch/dmarcwatch.go\<close>), \<open>Console\<close> (\<^verbatim>\<open>dmarcwatch/console.go\<close>): findings from overviews, and the upload, summary
    and source endpoints.
  \<^item> \<open>Scheduler\<close> (\<^verbatim>\<open>sched\<close>): operations, and the step relation \<open>sched_step\<close> whose executions interleave requests, sweeps and scans. \<open>Pipeline\<close> joins
    collector, scheduler and SQLite store.
  \<^item> \<open>Notify\<close>, \<open>Channels\<close> (\<^verbatim>\<open>notify\<close>, \<^verbatim>\<open>hfsbridge\<close>): the dispatcher with its runs, and the channels. The locale \<open>http_channel\<close> states what the
    dispatcher's retries rely on and is interpreted on the webhook, Slack and Telegram channels.
  \<^item> \<open>License\<close> (\<^verbatim>\<open>license\<close>), \<open>Verify_Domain\<close> (\<^verbatim>\<open>verify\<close>, \<^verbatim>\<open>store/verify_sqlite.go\<close>): keys and limits; ownership challenges, with the
    locale \<open>challenge_store\<close> for the two stores of them.
  \<^item> \<open>Web_Server\<close>, \<open>Web_Ai\<close> (\<^verbatim>\<open>web\<close>): every handler as a function from the decoded request and the server to the response and the server it
    leaves. \<open>Web_Safety\<close> has the relation \<open>serving\<close>: requests, uploads and steps of the scheduler in any order. \<open>Routes\<close> is the route table, with the multiplexer of
    \<^verbatim>\<open>net/http\<close> as far as the patterns need it, and the way of a request to its handler.
  \<^item> \<open>Ai_Evidence\<close>, \<open>Ai_Guard\<close>, \<open>Ai_Client\<close> (\<^verbatim>\<open>internal/aiclient\<close>): what is sent to the model, what is accepted from it, and the client between.
  \<^item> \<open>Cmd\<close>, \<open>Process\<close> (\<^verbatim>\<open>cmd/dmarcwatch\<close>): channels from flags and the start of the program; then \<open>proc_step\<close>, the program as a process of requests, scans whose
    results reach the dispatcher, timers, the signal, the shutdown and the end of \<^verbatim>\<open>main\<close>.

  \<^bold>\<open>What is shown.\<close> Scanning: one scan has exactly the effect the lifecycle asks for (C1, C14), touches only its target under every interleaving
  of scans (C4, C31), is undisturbed by overlapping scans of other targets down to single store operations (C13) but can undo a change of status made
  meanwhile (C28), resolves by absence at the threshold (C3) and leaves suppressed findings silent (C15). Reports: parsing returns on archives of
  finite depth with well-formed reports (C11, C12) and does not return on an archive that contains itself (C33); ingestion is idempotent
  (C18), an upload stores what it says (C37), and both overviews are the specified one and agree (C6, C7, C8). Alerts: a source is reported as
  spoofing exactly by the documented threshold, unaffected by floating point (C2, C24), and what a run reports can be reconciled (C16). Delivery:
  every event is sent once or pending (C5, C19, C20), syslog frames cannot be split by a finding (C29), and no channel that
  is configured is dropped (C25). Scheduling: slots, targets and backoff (C17, C21, C22). Requests: only the six meant to change something do (C23). Licenses: issued keys activate (C9), nothing
  else lifts a limit (C10), the text of a key is not unique (C32), and the free edition keeps its limits in every execution of the
  whole program (C34). State: a restart at any moment restores the targets (C35), a change of status is exact (C26), identifiers sort by time (C38).
  Ownership: challenges, proofs and their stores (C36, C39, C40). Assistant: what leaves the process is bounded and free of secret-like keys
  (C27), and what is shown of an answer makes no claim about status, after one request and under the edition's gate (C30).

  \<^bold>\<open>Bounds and fuel.\<close> \<^verbatim>\<open>ParseFile\<close> takes fuel for the nesting of archives, \<open>None\<close> standing for a call that has not returned; C12 gives the depth
  that is enough, and C33 shows that without such a depth none is. All other recursions are total. A schedule of
  overlapping scans is a list of turns; C13 says how many turns are enough. The theorems that need it say below which sizes counts do
  not wrap: fewer than \<open>2^63\<close> messages for the overviews, fewer than \<open>2^46\<close> where percentages must be exact.

  \<^bold>\<open>Arguments of the model.\<close> Cryptography, the XML, JSON, zip and gzip codecs, \<^verbatim>\<open>net.ParseIP\<close>, the case table of package \<^verbatim>\<open>unicode\<close>, random
  bytes, the clock, files, DNS, HTTP and syslog connections, and the packages \<^verbatim>\<open>hfs\<close> and \<^verbatim>\<open>sink\<close> of the module hexward-core, which is not part
  of the repository.

  \<^bold>\<open>Not modelled.\<close> The parsing of a command line by package \<^verbatim>\<open>flag\<close>, the JSON text of responses and the static dashboard, the sockets of the listener,
  \<^verbatim>\<open>VACUUM\<close>, the generation of key pairs, which only call libraries; payload types of other products in \<^verbatim>\<open>internal/aiclient/types.go\<close>, which nothing
  here uses. Operations under one mutex and single SQL statements are atomic. In \<open>sched_step\<close> and \<open>proc_step\<close> a scan that holds a slot is one step; that this loses nothing
  for scans of different targets is C13, and what it hides for one target is C28 and the lemma \<open>announced_twice\<close>.
\<close>

end
